(* ===== verification/Prelude.thy ===== *)
theory Prelude
  imports Main "HOL-Library.Word"
begin

text \<open>
  Shared vocabulary of the development: machine integers and byte memory, the outcomes of a
  kernel operation (normal return, panic, spinning on a lock, giving up the CPU, undefined
  behaviour of C), sequencing of operations, a small calculus for total correctness, and generic
  lemmas on words, memories and lists used by all components.
\<close>

unbundle bit_operations_syntax

named_theorems out_simps \<open>inversion of sequenced operations\<close>
named_theorems lock_simps \<open>evaluation of lock operations\<close>
named_theorems mem_simps \<open>reads over writes in byte memory\<close>

section \<open>Machine integers and memory\<close>

type_synonym byte = "8 word"
type_synonym ushort = "16 word"
type_synonym u32 = "32 word"
type_synonym addr = "32 word"
type_synonym memory = "addr \<Rightarrow> byte"

section \<open>Names of kernel objects\<close>

text \<open>
  Sleep locks live inside buffers and inodes; spin locks are the global ones, one per pipe and
  one inside every sleep lock. A wait channel is the address of the object slept on.
\<close>

datatype sleepid = SL_buf nat | SL_inode nat

datatype lockid =
  LK_ptable | LK_kmem | LK_bcache | LK_log | LK_icache | LK_ftable | LK_cons | LK_ide | LK_ticks
| LK_pipe addr
| LK_sleep sleepid

datatype chan =
  Ch_proc nat | Ch_sleep sleepid | Ch_log | Ch_ticks | Ch_input | Ch_buf nat
| Ch_nread addr | Ch_nwrite addr

section \<open>Outcomes\<close>

text \<open>
  \<open>Ok x s\<close>: returned \<open>x\<close> in state \<open>s\<close>. \<open>Panic m\<close>: called \<open>panic(m)\<close>, which never returns.
  \<open>Spin l\<close>: busy-waits for a spin lock another CPU holds. \<open>Swtch s\<close>: switched to the scheduler in
  state \<open>s\<close>; the kernel thread is suspended there. \<open>Undef m\<close>: C leaves the behaviour undefined
  (a null dereference or an array index out of range). \<open>Hang m\<close>: loops forever.
\<close>

datatype ('a, 's) out = Ok 'a 's | Panic string | Spin lockid | Swtch 's | Undef string | Hang string

primrec andthen :: "('a, 's) out \<Rightarrow> ('a \<Rightarrow> 's \<Rightarrow> ('b, 's) out) \<Rightarrow> ('b, 's) out" where
  "andthen (Ok x s) f = f x s"
| "andthen (Panic m) f = Panic m"
| "andthen (Spin l) f = Spin l"
| "andthen (Swtch s) f = Swtch s"
| "andthen (Undef m) f = Undef m"
| "andthen (Hang m) f = Hang m"

primrec succeeds :: "('a, 's) out \<Rightarrow> ('a \<Rightarrow> 's \<Rightarrow> bool) \<Rightarrow> bool" where
  "succeeds (Ok x s) Q = Q x s"
| "succeeds (Panic m) Q = False"
| "succeeds (Spin l) Q = False"
| "succeeds (Swtch s) Q = False"
| "succeeds (Undef m) Q = False"
| "succeeds (Hang m) Q = False"

lemma andthen_Ok_iff [out_simps]:
  "(andthen r f = Ok y t) = (\<exists>x s. r = Ok x s \<and> f x s = Ok y t)"
  by (cases r) auto

lemma andthen_assoc: "andthen (andthen r f) g = andthen r (\<lambda>x s. andthen (f x s) g)"
  by (cases r) auto

lemma andthen_if:
  "andthen (if b then r else r') f = (if b then andthen r f else andthen r' f)"
  by simp

lemma succeeds_andthen [simp]:
  "succeeds (andthen r f) Q = succeeds r (\<lambda>x s. succeeds (f x s) Q)"
  by (cases r) auto

lemma succeeds_mono: "succeeds r P \<Longrightarrow> (\<And>x s. P x s \<Longrightarrow> Q x s) \<Longrightarrow> succeeds r Q"
  by (cases r) auto

lemma succeeds_iff: "succeeds r Q \<longleftrightarrow> (\<exists>x s. r = Ok x s \<and> Q x s)"
  by (cases r) auto

lemma succeedsE:
  assumes "succeeds r Q"
  obtains x s where "r = Ok x s" and "Q x s"
  using assms by (auto simp: succeeds_iff)

lemma succeeds_OkD: "succeeds r Q \<Longrightarrow> r = Ok x s \<Longrightarrow> Q x s"
  by simp

lemma succeeds_conj: "succeeds r P \<Longrightarrow> succeeds r Q \<Longrightarrow> succeeds r (\<lambda>x s. P x s \<and> Q x s)"
  by (cases r) auto

text \<open>
  Loops over a list of values: \<open>foreach\<close> runs the body for each of them; in \<open>forany\<close> the body may
  return from the enclosing function with a value (\<open>Some\<close>).
\<close>

primrec foreach :: "('i \<Rightarrow> 's \<Rightarrow> (unit, 's) out) \<Rightarrow> 'i list \<Rightarrow> 's \<Rightarrow> (unit, 's) out" where
  "foreach f [] s = Ok () s"
| "foreach f (i # is) s = andthen (f i s) (\<lambda>_ s. foreach f is s)"

primrec forany :: "('i \<Rightarrow> 's \<Rightarrow> ('r option, 's) out) \<Rightarrow> 'i list \<Rightarrow> 's \<Rightarrow> ('r option, 's) out" where
  "forany f [] s = Ok None s"
| "forany f (i # is) s = andthen (f i s) (\<lambda>r s. case r of Some x \<Rightarrow> Ok (Some x) s | None \<Rightarrow> forany f is s)"

lemma foreach_inv:
  assumes "\<And>i s. i \<in> set is \<Longrightarrow> P s \<Longrightarrow> succeeds (f i s) (\<lambda>_. P)" and "P s"
  shows "succeeds (foreach f is s) (\<lambda>_. P)"
  using assms
proof (induction "is" arbitrary: s)
  case (Cons i "is")
  have "succeeds (f i s) (\<lambda>_. P)" and "\<And>s. P s \<Longrightarrow> succeeds (foreach f is s) (\<lambda>_. P)"
    using Cons by auto
  then show ?case by (simp add: succeeds_mono)
qed simp

lemma forany_step:
  assumes "succeeds (f i s) (\<lambda>r t. r = None \<and> P t)" and "\<And>t. P t \<Longrightarrow> succeeds (forany f is t) Q"
  shows "succeeds (forany f (i # is) s) Q"
  using assms by (auto elim!: succeeds_mono)

lemma forany_run:
  assumes "\<And>k t. k < length xs \<Longrightarrow> P k t \<Longrightarrow> succeeds (f (xs ! k) t) (\<lambda>r u. r = None \<and> P (Suc k) u)"
    and "P 0 s"
  shows "succeeds (forany f xs s) (\<lambda>r u. r = None \<and> P (length xs) u)"
  using assms
proof (induction xs arbitrary: P s)
  case (Cons x xs)
  have "succeeds (forany f xs t) (\<lambda>r u. r = None \<and> P (Suc (length xs)) u)" if "P (Suc 0) t" for t
    using that Cons.prems(1) [of "Suc _"] Cons.IH [of "\<lambda>k. P (Suc k)" t] by simp
  then show ?case
    using Cons.prems(1) [of 0 s] Cons.prems(2) by (intro forany_step [where P = "P (Suc 0)"]) auto
qed simp

lemma foreach_run:
  assumes "\<And>k t. k < length xs \<Longrightarrow> P k t \<Longrightarrow> succeeds (f (xs ! k) t) (\<lambda>_. P (Suc k))" and "P 0 s"
  shows "succeeds (foreach f xs s) (\<lambda>_. P (length xs))"
  using assms
proof (induction xs arbitrary: P s)
  case (Cons x xs)
  have "succeeds (foreach f xs t) (\<lambda>_. P (Suc (length xs)))" if "P (Suc 0) t" for t
    using that Cons.prems(1) [of "Suc _"] Cons.IH [of "\<lambda>k. P (Suc k)" t] by simp
  then show ?case using Cons.prems(1) [of 0 s] Cons.prems(2) by (auto elim!: succeeds_mono)
qed simp

lemma succeeds_mid:
  assumes "succeeds r P" and "\<And>x t. P x t \<Longrightarrow> f x t = g x t" and "succeeds (andthen r g) Q"
  shows "succeeds (andthen r f) Q"
  using assms by (cases r) auto

lemma succeeds_pair:
  assumes "succeeds (andthen r (\<lambda>x s. andthen (f x s) (\<lambda>y s. Ok (x, y) s))) P"
    and "\<And>x y t. P (x, y) t \<Longrightarrow> succeeds (K x y t) Q"
  shows "succeeds (andthen r (\<lambda>x s. andthen (f x s) (\<lambda>y s. K x y s))) Q"
  using assms unfolding succeeds_andthen by (auto elim!: succeeds_mono)

section \<open>Lists\<close>

lemma nth_update_if: "i < length xs \<Longrightarrow> xs[j := y] ! i = (if i = j then y else xs ! i)"
  by simp

lemma find_SomeD: "find P xs = Some x \<Longrightarrow> x \<in> set xs \<and> P x"
  by (induction xs) (auto split: if_splits)

lemma find_unique:
  assumes "x \<in> set xs" and "P x" and "\<And>y. y \<in> set xs \<Longrightarrow> P y \<Longrightarrow> y = x"
  shows "find P xs = Some x"
proof (cases "find P xs")
  case None
  then show ?thesis using assms(1,2) by (auto simp: find_None_iff)
next
  case (Some y)
  then show ?thesis using assms(3) find_SomeD [OF Some] by auto
qed

section \<open>Words\<close>

lemma unat_plus_lt:
  fixes a :: u32
  assumes "unat a + unat k < 2 ^ 32"
  shows "unat (a + k) = unat a + unat k"
  using assms by (simp add: unat_word_ariths)

lemma unat_of_nat_small: "n < 2 ^ 32 \<Longrightarrow> unat (of_nat n :: u32) = n"
  by (simp only: unat_of_nat) simp

section \<open>Byte memory\<close>

definition ld32 :: "memory \<Rightarrow> addr \<Rightarrow> u32" where
  "ld32 m a = ucast (m a) OR push_bit 8 (ucast (m (a + 1)))
     OR push_bit 16 (ucast (m (a + 2))) OR push_bit 24 (ucast (m (a + 3)))"

definition st32 :: "memory \<Rightarrow> addr \<Rightarrow> u32 \<Rightarrow> memory" where
  "st32 m a v = m(a := ucast v, a + 1 := ucast (drop_bit 8 v),
     a + 2 := ucast (drop_bit 16 v), a + 3 := ucast (drop_bit 24 v))"

definition aligned4 :: "addr \<Rightarrow> bool" where
  "aligned4 a \<longleftrightarrow> a AND 3 = 0"

lemma bytes_of_word:
  fixes v :: u32
  shows "ucast (ucast v :: byte) OR push_bit 8 (ucast (ucast (drop_bit 8 v) :: byte))
     OR push_bit 16 (ucast (ucast (drop_bit 16 v) :: byte))
     OR push_bit 24 (ucast (ucast (drop_bit 24 v) :: byte)) = v"
proof (rule bit_word_eqI)
  fix n :: nat
  assume n: "n < LENGTH(32)"
  have "n < 8 \<or> 8 \<le> n \<and> n < 16 \<or> 16 \<le> n \<and> n < 24 \<or> 24 \<le> n"
    by arith
  with n show "bit ((ucast (ucast v :: byte) :: u32) OR push_bit 8 (ucast (ucast (drop_bit 8 v) :: byte))
      OR push_bit 16 (ucast (ucast (drop_bit 16 v) :: byte))
      OR push_bit 24 (ucast (ucast (drop_bit 24 v) :: byte))) n = bit v n"
    by (elim disjE) (auto simp: bit_simps)
qed

lemma ld32_st32_same [simp]: "ld32 (st32 m a v) a = v"
  using bytes_of_word [of v] by (simp add: ld32_def st32_def)

lemma st32_other:
  "b \<noteq> a \<Longrightarrow> b \<noteq> a + 1 \<Longrightarrow> b \<noteq> a + 2 \<Longrightarrow> b \<noteq> a + 3 \<Longrightarrow> st32 m a v b = m b"
  by (simp add: st32_def)

end
