(* ===== verification/Mmu.thy ===== *)
theory Mmu
  imports Prelude
begin

text \<open>
  The memory layout and the x86 paging and segmentation formats: the macros and structures of
  mmu.h, memlayout.h and the parts of types.h they use. Numbers are abbreviations, macros are
  definitions on 32-bit words. The lemmas say what the macros compute: the three fields of a linear
  address reassemble it, rounding is to the page, the page number of an address inside a page.
\<close>

section \<open>Layout\<close>

abbreviation (input) "EXTMEM \<equiv> (0x100000 :: u32)"
abbreviation (input) "PHYSTOP \<equiv> (0xE000000 :: u32)"
abbreviation (input) "DEVSPACE \<equiv> (0xFE000000 :: u32)"
abbreviation (input) "KERNBASE \<equiv> (0x80000000 :: u32)"
abbreviation (input) "KERNLINK \<equiv> (0x80100000 :: u32)"

definition V2P :: "addr \<Rightarrow> u32" where
  "V2P a = a - KERNBASE"

definition P2V :: "u32 \<Rightarrow> addr" where
  "P2V a = a + KERNBASE"

section \<open>Paging\<close>

abbreviation (input) "NPDENTRIES \<equiv> (1024 :: u32)"
abbreviation (input) "NPTENTRIES \<equiv> (1024 :: u32)"
abbreviation (input) "PGSIZE \<equiv> (4096 :: u32)"
abbreviation (input) "PGSHIFT \<equiv> (12 :: nat)"
abbreviation (input) "PTXSHIFT \<equiv> (12 :: nat)"
abbreviation (input) "PDXSHIFT \<equiv> (22 :: nat)"

abbreviation (input) "PTE_P \<equiv> (0x001 :: u32)"
abbreviation (input) "PTE_W \<equiv> (0x002 :: u32)"
abbreviation (input) "PTE_U \<equiv> (0x004 :: u32)"
abbreviation (input) "PTE_A \<equiv> (0x020 :: u32)"
abbreviation (input) "PTE_PS \<equiv> (0x080 :: u32)"
abbreviation (input) "PTE_PG \<equiv> (0x200 :: u32)"
abbreviation (input) "PTE_COW \<equiv> (0x400 :: u32)"

definition PDX :: "u32 \<Rightarrow> u32" where
  "PDX va = drop_bit PDXSHIFT va AND 0x3FF"

definition PTX :: "u32 \<Rightarrow> u32" where
  "PTX va = drop_bit PTXSHIFT va AND 0x3FF"

definition PGADDR :: "u32 \<Rightarrow> u32 \<Rightarrow> u32 \<Rightarrow> u32" where
  "PGADDR d t off = push_bit PDXSHIFT d OR push_bit PTXSHIFT t OR off"

definition PGROUNDUP :: "u32 \<Rightarrow> u32" where
  "PGROUNDUP sz = (sz + PGSIZE - 1) AND NOT (PGSIZE - 1)"

definition PGROUNDDOWN :: "u32 \<Rightarrow> u32" where
  "PGROUNDDOWN a = a AND NOT (PGSIZE - 1)"

definition PTE_ADDR :: "u32 \<Rightarrow> u32" where
  "PTE_ADDR pte = pte AND NOT 0xFFF"

definition PTE_FLAGS :: "u32 \<Rightarrow> u32" where
  "PTE_FLAGS pte = pte AND 0xFFF"

section \<open>Segments and gates\<close>

abbreviation (input) "SEG_KCODE \<equiv> (1 :: nat)"
abbreviation (input) "SEG_KDATA \<equiv> (2 :: nat)"
abbreviation (input) "SEG_UCODE \<equiv> (3 :: nat)"
abbreviation (input) "SEG_UDATA \<equiv> (4 :: nat)"
abbreviation (input) "SEG_TSS \<equiv> (5 :: nat)"
abbreviation (input) "NSEGS \<equiv> (6 :: nat)"
abbreviation (input) "DPL_USER \<equiv> (3 :: 2 word)"
abbreviation (input) "STA_X \<equiv> (0x8 :: 4 word)"
abbreviation (input) "STA_W \<equiv> (0x2 :: 4 word)"
abbreviation (input) "STA_R \<equiv> (0x2 :: 4 word)"
abbreviation (input) "STS_T32A \<equiv> (0x9 :: 4 word)"
abbreviation (input) "STS_IG32 \<equiv> (0xE :: 4 word)"
abbreviation (input) "STS_TG32 \<equiv> (0xF :: 4 word)"

record segdesc =
  lim_15_0 :: "16 word"
  base_15_0 :: "16 word"
  base_23_16 :: "8 word"
  sd_type :: "4 word"
  sd_s :: "1 word"
  sd_dpl :: "2 word"
  sd_p :: "1 word"
  lim_19_16 :: "4 word"
  sd_avl :: "1 word"
  sd_rsv1 :: "1 word"
  sd_db :: "1 word"
  sd_g :: "1 word"
  base_31_24 :: "8 word"

definition SEG :: "4 word \<Rightarrow> u32 \<Rightarrow> u32 \<Rightarrow> 2 word \<Rightarrow> segdesc" where
  "SEG ty bas lim dpl = \<lparr>lim_15_0 = ucast (drop_bit 12 lim AND 0xffff),
     base_15_0 = ucast (bas AND 0xffff), base_23_16 = ucast (drop_bit 16 bas AND 0xff),
     sd_type = ty, sd_s = 1, sd_dpl = dpl, sd_p = 1, lim_19_16 = ucast (drop_bit 28 lim),
     sd_avl = 0, sd_rsv1 = 0, sd_db = 1, sd_g = 1, base_31_24 = ucast (drop_bit 24 bas)\<rparr>"

definition SEG16 :: "4 word \<Rightarrow> u32 \<Rightarrow> u32 \<Rightarrow> 2 word \<Rightarrow> segdesc" where
  "SEG16 ty bas lim dpl = \<lparr>lim_15_0 = ucast (lim AND 0xffff),
     base_15_0 = ucast (bas AND 0xffff), base_23_16 = ucast (drop_bit 16 bas AND 0xff),
     sd_type = ty, sd_s = 1, sd_dpl = dpl, sd_p = 1, lim_19_16 = ucast (drop_bit 16 lim),
     sd_avl = 0, sd_rsv1 = 0, sd_db = 1, sd_g = 0, base_31_24 = ucast (drop_bit 24 bas)\<rparr>"

record gatedesc =
  off_15_0 :: "16 word"
  gd_cs :: "16 word"
  gd_args :: "5 word"
  gd_rsv1 :: "3 word"
  gd_type :: "4 word"
  gd_s :: "1 word"
  gd_dpl :: "2 word"
  gd_p :: "1 word"
  off_31_16 :: "16 word"

definition SETGATE :: "bool \<Rightarrow> 16 word \<Rightarrow> u32 \<Rightarrow> 2 word \<Rightarrow> gatedesc" where
  "SETGATE istrap sel off d = \<lparr>off_15_0 = ucast (off AND 0xffff), gd_cs = sel, gd_args = 0,
     gd_rsv1 = 0, gd_type = (if istrap then STS_TG32 else STS_IG32), gd_s = 0, gd_dpl = d,
     gd_p = 1, off_31_16 = ucast (drop_bit 16 off)\<rparr>"

section \<open>What the macros compute\<close>

definition page_aligned :: "addr \<Rightarrow> bool" where
  "page_aligned a \<longleftrightarrow> a AND 0xFFF = 0"

definition pgno :: "addr \<Rightarrow> u32" where
  "pgno a = drop_bit 12 a"

lemma V2P_P2V [simp]: "V2P (P2V a) = a"
  by (simp add: V2P_def P2V_def)

lemma P2V_V2P [simp]: "P2V (V2P a) = a"
  by (simp add: V2P_def P2V_def)

lemma and_not_mask: "a AND NOT (mask n) = push_bit n (drop_bit n a)" for a :: u32
  by (rule bit_word_eqI) (auto simp: bit_simps)

lemma mask_forms:
  fixes a :: u32
  shows "a AND 0xFFF = take_bit 12 a" and "a AND 0x3FF = take_bit 10 a"
    and "a AND NOT 0xFFF = push_bit 12 (drop_bit 12 a)"
  using and_not_mask [of a 12] by (simp_all add: take_bit_eq_mask mask_eq_exp_minus_1)

lemma macro_forms:
  "PDX a = take_bit 10 (drop_bit 22 a)" "PTX a = take_bit 10 (drop_bit 12 a)"
  "PTE_FLAGS a = take_bit 12 a" "PTE_ADDR a = push_bit 12 (drop_bit 12 a)"
  "PGROUNDDOWN a = push_bit 12 (drop_bit 12 a)" "page_aligned a = (take_bit 12 a = 0)"
  unfolding PDX_def PTX_def PTE_FLAGS_def PTE_ADDR_def PGROUNDDOWN_def page_aligned_def
    mask_forms [symmetric] by simp_all

lemma page_fields: "PGADDR (PDX a) (PTX a) (a AND 0xFFF) = a"
  unfolding PGADDR_def macro_forms mask_forms
proof (rule bit_word_eqI)
  fix n :: nat
  assume n: "n < LENGTH(32)"
  have "n < 12 \<or> 12 \<le> n \<and> n < 22 \<or> 22 \<le> n" by arith
  with n show "bit (push_bit 22 (take_bit 10 (drop_bit 22 a)) OR
      push_bit 12 (take_bit 10 (drop_bit 12 a)) OR take_bit 12 a) n = bit a n"
    by (elim disjE) (auto simp: bit_simps)
qed

lemma PTE_parts [simp]: "PTE_ADDR x OR PTE_FLAGS x = x"
  unfolding macro_forms by (rule bit_word_eqI) (auto simp: bit_simps)

lemma low_bits_zero: "take_bit n a = 0 \<Longrightarrow> m < n \<Longrightarrow> \<not> bit a m" for a :: u32
  by (metis bit_0_eq bit_take_bit_iff bot_apply bot_bool_def)

lemma high_bits_zero: "take_bit n a = a \<Longrightarrow> \<not> m < n \<Longrightarrow> \<not> bit a m" for a :: u32
  by (metis bit_take_bit_iff)

lemma PTE_ADDR_or_flags:
  assumes "page_aligned pa" and "PTE_FLAGS f = f"
  shows "PTE_ADDR (pa OR f) = pa" and "PTE_FLAGS (pa OR f) = f"
proof -
  have p: "n < 12 \<Longrightarrow> \<not> bit pa n" and f: "\<not> n < 12 \<Longrightarrow> \<not> bit f n" for n
    using low_bits_zero [of 12 pa n] high_bits_zero [of 12 f n] assms unfolding macro_forms
    by auto
  have "bit (push_bit 12 (drop_bit 12 (pa OR f))) n = bit pa n" if "n < 32" for n
    using that p [of n] f [of n] by (cases "n < 12") (auto simp: bit_simps)
  moreover have "bit (take_bit 12 (pa OR f)) n = bit f n" for n
    using p [of n] f [of n] by (cases "n < 12") (auto simp: bit_simps)
  ultimately show "PTE_ADDR (pa OR f) = pa" "PTE_FLAGS (pa OR f) = f"
    unfolding macro_forms by (auto intro!: bit_word_eqI)
qed

lemma unat_round: "unat (push_bit 12 (drop_bit 12 a)) = unat a div 4096 * 4096" for a :: u32
proof -
  have "unat (push_bit 12 (drop_bit 12 a)) = (unat a div 4096 * 4096) mod 2 ^ 32"
    unfolding unsigned_push_bit_eq unat_drop_bit_eq
    by (simp add: take_bit_eq_mod push_bit_eq_mult drop_bit_eq_div)
  also have "\<dots> = unat a div 4096 * 4096"
  proof (rule mod_less)
    have "unat a div 4096 * 4096 \<le> unat a" by simp
    also have "unat a < 2 ^ 32" using unsigned_less [of a] by simp
    finally show "unat a div 4096 * 4096 < 2 ^ 32" .
  qed
  finally show ?thesis .
qed

lemma unat_PGROUNDDOWN: "unat (PGROUNDDOWN a) = unat a div 4096 * 4096"
  unfolding macro_forms by (rule unat_round)

lemma unat_PTE_ADDR: "unat (PTE_ADDR a) = unat a div 4096 * 4096"
  unfolding macro_forms by (rule unat_round)

lemma PGROUNDUP_down: "PGROUNDUP a = PGROUNDDOWN (a + 4095)"
  by (simp add: PGROUNDUP_def PGROUNDDOWN_def add.commute)

lemma unat_PGROUNDUP:
  assumes "unat a \<le> 0xFFFFF000"
  shows "unat (PGROUNDUP a) = (unat a + 4095) div 4096 * 4096"
proof -
  have "unat (a + 4095) = unat a + 4095"
    using assms by (subst unat_add_lem [THEN iffD1]) simp_all
  then show ?thesis by (simp add: PGROUNDUP_down unat_PGROUNDDOWN)
qed

lemma page_aligned_iff: "page_aligned a \<longleftrightarrow> 4096 dvd unat a"
proof -
  have "page_aligned a \<longleftrightarrow> unat (take_bit 12 a) = 0"
    unfolding macro_forms by (simp add: unat_eq_zero)
  also have "\<dots> \<longleftrightarrow> 4096 dvd unat a"
    unfolding unsigned_take_bit_eq by (simp add: take_bit_eq_mod dvd_eq_mod_eq_0)
  finally show ?thesis .
qed

lemma page_aligned_rounded [simp]:
  "page_aligned (PGROUNDDOWN a)" "page_aligned (PTE_ADDR a)" "page_aligned (PGROUNDUP a)"
  by (simp_all add: page_aligned_iff unat_PGROUNDDOWN unat_PTE_ADDR PGROUNDUP_down)

lemma unat_pgno: "unat (pgno a) = unat a div 4096"
  unfolding pgno_def unat_drop_bit_eq by (simp add: drop_bit_eq_div)

section \<open>Words and pages in memory\<close>

lemma aligned4_iff: "aligned4 a \<longleftrightarrow> 4 dvd unat a"
proof -
  have "a AND 3 = take_bit 2 a" by (simp add: take_bit_eq_mask mask_eq_exp_minus_1)
  then have "aligned4 a \<longleftrightarrow> unat (take_bit 2 a) = 0" by (simp add: aligned4_def unat_eq_zero)
  then show ?thesis by (simp add: take_bit_eq_mod unat_mod dvd_eq_mod_eq_0)
qed

lemma unat_plus_small:
  fixes a :: addr
  assumes "d dvd unat a" and "d dvd 2 ^ 32" and "k < d"
  shows "unat (a + of_nat k) = unat a + k"
proof -
  have "unat a < 2 ^ 32" using unsigned_less [of a, where 'a = nat] by simp
  then have "unat a + d \<le> 2 ^ 32" using assms(1,2)
    by (metis add.commute dvd_add_right_iff dvd_diff_nat dvd_imp_le le_add_diff_inverse less_imp_le_nat
      nat_add_left_cancel_le zero_less_diff)
  moreover from this have "unat (of_nat k :: addr) = k" using assms(3) by (simp add: unat_of_nat)
  ultimately show ?thesis using assms(3) by (simp add: unat_word_ariths)
qed

lemmas unat_aligned4_plus = unat_plus_small [of 4, folded aligned4_iff, simplified]
lemmas unat_page_plus = unat_plus_small [of 4096, folded page_aligned_iff, simplified]

lemma page_aligned_aligned4: "page_aligned a \<Longrightarrow> aligned4 a"
  by (auto simp: page_aligned_iff aligned4_iff elim: dvd_trans [rotated])

lemma PGROUNDDOWN_plus:
  assumes "page_aligned x" and "k < 4096"
  shows "PGROUNDDOWN (x + of_nat k) = x"
proof -
  have "unat (PGROUNDDOWN (x + of_nat k)) = unat x"
    using assms unat_page_plus [OF assms]
    by (simp add: unat_PGROUNDDOWN page_aligned_iff) (auto elim!: dvdE)
  then show ?thesis by (rule unsigned_word_eqI)
qed

lemma PGROUNDDOWN_plus4:
  assumes "aligned4 a" and "k < 4"
  shows "PGROUNDDOWN (a + of_nat k) = PGROUNDDOWN a"
proof -
  have "unat (PGROUNDDOWN (a + of_nat k)) = unat (PGROUNDDOWN a)"
    using assms unat_aligned4_plus [OF assms]
    by (simp add: unat_PGROUNDDOWN aligned4_iff) (auto elim!: dvdE simp: div_mult2_eq [of _ 4 1024, simplified])
  then show ?thesis by (rule unsigned_word_eqI)
qed

lemma in_page_iff:
  assumes "page_aligned x"
  shows "unat (a - x) < 4096 \<longleftrightarrow> PGROUNDDOWN a = x"
proof
  assume "unat (a - x) < 4096"
  then show "PGROUNDDOWN a = x"
    using PGROUNDDOWN_plus [OF assms, of "unat (a - x)"] by simp
next
  assume "PGROUNDDOWN a = x"
  then have "unat x = unat a div 4096 * 4096" by (simp flip: unat_PGROUNDDOWN)
  then have "unat x \<le> unat a" "unat a - unat x < 4096" by (simp_all add: modulo_nat_def [symmetric] minus_div_mult_eq_mod)
  then show "unat (a - x) < 4096" by (simp add: unat_sub word_le_nat_alt)
qed

lemma ld32_cong:
  assumes "\<And>k. k < 4 \<Longrightarrow> m' (a + of_nat k) = m (a + of_nat k)"
  shows "ld32 m' a = ld32 m a"
  using assms [of 0] assms [of 1] assms [of 2] assms [of 3] by (simp add: ld32_def)

lemma ld32_page_cong:
  assumes "aligned4 a" and "\<And>b. PGROUNDDOWN b = PGROUNDDOWN a \<Longrightarrow> m' b = m b"
  shows "ld32 m' a = ld32 m a"
  using assms by (intro ld32_cong) (simp add: PGROUNDDOWN_plus4)

lemma st32_other_page:
  assumes "aligned4 a" and "PGROUNDDOWN b \<noteq> PGROUNDDOWN a"
  shows "st32 m a v b = m b"
  using assms PGROUNDDOWN_plus4 [of a 0] PGROUNDDOWN_plus4 [of a 1] PGROUNDDOWN_plus4 [of a 2]
    PGROUNDDOWN_plus4 [of a 3]
  by (intro st32_other) auto

lemma aligned4_apart:
  assumes "aligned4 a" and "aligned4 b" and "a \<noteq> b" and "j < 4" and "k < 4"
  shows "b + of_nat k \<noteq> a + of_nat j"
proof
  assume "b + of_nat k = a + of_nat j"
  then have "unat b + k = unat a + j" using assms by (metis unat_aligned4_plus)
  then have "(unat b + k) mod 4 = (unat a + j) mod 4" by simp
  then have "k = j" using assms by (auto simp: aligned4_iff elim!: dvdE)
  with \<open>unat b + k = unat a + j\<close> have "b = a" by (simp add: unsigned_word_eqI)
  with assms(3) show False by simp
qed

lemma ld32_st32_other:
  assumes "aligned4 a" and "aligned4 b" and "a \<noteq> b"
  shows "ld32 (st32 m a v) b = ld32 m b"
proof (rule ld32_cong)
  fix k :: nat
  assume "k < 4"
  then show "st32 m a v (b + of_nat k) = m (b + of_nat k)"
    using aligned4_apart [OF assms, of 0 k] aligned4_apart [OF assms, of 1 k]
      aligned4_apart [OF assms, of 2 k] aligned4_apart [OF assms, of 3 k]
    by (intro st32_other) auto
qed

lemma ld32_st32: "aligned4 a \<Longrightarrow> aligned4 b \<Longrightarrow> ld32 (st32 m a v) b = (if a = b then v else ld32 m b)"
  by (simp add: ld32_st32_other)

lemma PGROUNDDOWN_pgno: "PGROUNDDOWN b = PGROUNDDOWN a \<longleftrightarrow> pgno b = pgno a"
proof -
  have "PGROUNDDOWN b = PGROUNDDOWN a \<longleftrightarrow> unat b div 4096 = unat a div 4096"
    by (simp add: word_unat_eq_iff unat_PGROUNDDOWN)
  then show ?thesis by (simp add: word_unat_eq_iff unat_pgno)
qed

lemma PGROUNDDOWN_self: "page_aligned a \<Longrightarrow> PGROUNDDOWN a = a"
  using PGROUNDDOWN_plus [of a 0] by simp

lemma pgno_near: "page_aligned a \<Longrightarrow> pgno b = pgno a \<longleftrightarrow> unat (b - a) < 4096"
  using in_page_iff [of a b] PGROUNDDOWN_pgno [of b a] PGROUNDDOWN_self [of a] by simp

lemma off_next_page:
  fixes d :: u32
  assumes "4096 \<le> unat d"
  shows "unat (d - 4096) = unat d - 4096" and "PGROUNDDOWN (d - 4096) = PGROUNDDOWN d - 4096"
proof -
  show u: "unat (d - 4096) = unat d - 4096" using assms by (subst unat_sub) (auto simp: word_le_nat_alt)
  obtain k where k: "unat d div 4096 = Suc k" using assms by (cases "unat d div 4096") auto
  have le: "4096 \<le> unat (PGROUNDDOWN d)" unfolding unat_PGROUNDDOWN k by simp
  have "unat (PGROUNDDOWN d - 4096) = unat (PGROUNDDOWN d) - 4096"
    using le by (subst unat_sub) (auto simp: word_le_nat_alt)
  moreover have "(unat d - 4096) div 4096 = k" using k assms by (simp add: le_div_geq)
  ultimately show "PGROUNDDOWN (d - 4096) = PGROUNDDOWN d - 4096"
    by (simp add: word_unat_eq_iff unat_PGROUNDDOWN u k)
qed

lemma off_first_page:
  fixes d :: u32
  assumes "unat d < 4096"
  shows "0xFFFFF000 \<le> unat (d - 4096)" and "PGROUNDDOWN d = 0"
proof -
  have "unat (d - 4096) = unat d + 0xFFFFF000" using assms
   by (simp add: unat_sub_if_size word_le_nat_alt word_size)
  then show "0xFFFFF000 \<le> unat (d - 4096)" by simp
  show "PGROUNDDOWN d = 0" using assms by (simp add: word_unat_eq_iff unat_PGROUNDDOWN)
qed

end
