(* ===== verification/Spinlock.thy ===== *)
theory Spinlock
  imports Mmu
begin

text \<open>
  CPUs and spin locks: \<open>struct cpu\<close> (proc.h), \<open>struct spinlock\<close> (spinlock.h), \<open>mycpu\<close>, \<open>cpuid\<close>
  and \<open>myproc\<close> of proc.c and the whole of spinlock.c but \<open>getcallerpcs\<close>, which only records a call
  stack for debugging. The machine state is seen from the CPU that executes: \<open>lapic\<close> is what
  \<open>lapicid()\<close> returns there, \<open>ifl\<close> is the interrupt flag of every CPU by its APIC id.

  \<open>cpu_ok\<close> is the nesting discipline of \<open>pushcli\<close>/\<open>popcli\<close>; under it \<open>acquire\<close> of a free lock and
  \<open>release\<close> of a held one are the total updates \<open>acq\<close> and \<open>rel\<close>, which undo each other. The rest
  of the development runs its critical sections through these rules (\<open>lock_simps\<close>).
\<close>

section \<open>State\<close>

record cpu =
  apicid :: byte
  ts_ss0 :: ushort
  ts_esp0 :: u32
  ts_iomb :: ushort
  gdt :: "segdesc list"
  ncli :: int
  intena :: bool
  cproc :: "nat option"

record spinlock =
  lk_name :: string
  locked :: bool
  lk_cpu :: "nat option"

record machine =
  cpus :: "cpu list"
  lapic :: byte
  ifl :: "byte \<Rightarrow> bool"
  cr3 :: "byte \<Rightarrow> u32"
  locks :: "lockid \<Rightarrow> spinlock"

section \<open>Operations\<close>

definition readeflags :: "machine \<Rightarrow> bool" where
  "readeflags h = ifl h (lapic h)"

definition cli :: "machine \<Rightarrow> machine" where
  "cli h = h\<lparr>ifl := (ifl h)(lapic h := False)\<rparr>"

definition sti :: "machine \<Rightarrow> machine" where
  "sti h = h\<lparr>ifl := (ifl h)(lapic h := True)\<rparr>"

primrec cpu_index :: "byte \<Rightarrow> cpu list \<Rightarrow> nat option" where
  "cpu_index a [] = None"
| "cpu_index a (c # cs) = (if apicid c = a then Some 0 else map_option Suc (cpu_index a cs))"

definition mycpu :: "machine \<Rightarrow> (nat, machine) out" where
  "mycpu h =
     (if readeflags h then Panic ''mycpu called with interrupts enabled''
      else case cpu_index (lapic h) (cpus h) of
        Some i \<Rightarrow> Ok i h
      | None \<Rightarrow> Panic ''unknown apicid'')"

definition cpuid :: "machine \<Rightarrow> (nat, machine) out" where
  "cpuid h = mycpu h"

definition upd_cpu :: "nat \<Rightarrow> (cpu \<Rightarrow> cpu) \<Rightarrow> machine \<Rightarrow> machine" where
  "upd_cpu i f h = h\<lparr>cpus := (cpus h)[i := f (cpus h ! i)]\<rparr>"

definition pushcli :: "machine \<Rightarrow> (unit, machine) out" where
  "pushcli h =
     (let eflags = readeflags h in
      andthen (mycpu (cli h)) (\<lambda>c h.
        let h = (if ncli (cpus h ! c) = 0 then upd_cpu c (\<lambda>k. k\<lparr>intena := eflags\<rparr>) h else h)
        in Ok () (upd_cpu c (\<lambda>k. k\<lparr>ncli := ncli k + 1\<rparr>) h)))"

definition popcli :: "machine \<Rightarrow> (unit, machine) out" where
  "popcli h =
     (if readeflags h then Panic ''popcli - interruptible''
      else andthen (mycpu h) (\<lambda>c h.
        let h = upd_cpu c (\<lambda>k. k\<lparr>ncli := ncli k - 1\<rparr>) h in
        if ncli (cpus h ! c) < 0 then Panic ''popcli''
        else if ncli (cpus h ! c) = 0 \<and> intena (cpus h ! c) then Ok () (sti h)
        else Ok () h))"

definition myproc :: "machine \<Rightarrow> (nat option, machine) out" where
  "myproc h =
     andthen (pushcli h) (\<lambda>_ h.
     andthen (mycpu h) (\<lambda>c h.
     let p = cproc (cpus h ! c) in
     andthen (popcli h) (\<lambda>_ h. Ok p h)))"

definition initlock :: "lockid \<Rightarrow> string \<Rightarrow> machine \<Rightarrow> machine" where
  "initlock lk nm h =
     h\<lparr>locks := (locks h)(lk := \<lparr>lk_name = nm, locked = False, lk_cpu = None\<rparr>)\<rparr>"

definition holding :: "lockid \<Rightarrow> machine \<Rightarrow> (bool, machine) out" where
  "holding lk h =
     andthen (pushcli h) (\<lambda>_ h.
     andthen (mycpu h) (\<lambda>c h.
     let r = (locked (locks h lk) \<and> lk_cpu (locks h lk) = Some c) in
     andthen (popcli h) (\<lambda>_ h. Ok r h)))"

definition set_lock :: "lockid \<Rightarrow> (spinlock \<Rightarrow> spinlock) \<Rightarrow> machine \<Rightarrow> machine" where
  "set_lock lk f h = h\<lparr>locks := (locks h)(lk := f (locks h lk))\<rparr>"

definition acquire :: "lockid \<Rightarrow> machine \<Rightarrow> (unit, machine) out" where
  "acquire lk h =
     andthen (pushcli h) (\<lambda>_ h.
     andthen (holding lk h) (\<lambda>r h.
     if r then Panic ''acquire''
     else if locked (locks h lk) then Spin lk
     else let h = set_lock lk (\<lambda>l. l\<lparr>locked := True\<rparr>) h in
       andthen (mycpu h) (\<lambda>c h. Ok () (set_lock lk (\<lambda>l. l\<lparr>lk_cpu := Some c\<rparr>) h))))"

definition release :: "lockid \<Rightarrow> machine \<Rightarrow> (unit, machine) out" where
  "release lk h =
     andthen (holding lk h) (\<lambda>r h.
     if \<not> r then Panic ''release''
     else popcli (set_lock lk (\<lambda>l. l\<lparr>locked := False, lk_cpu := None\<rparr>) h))"

section \<open>The interrupt discipline and the total view of lock operations\<close>

definition this_cpu :: "machine \<Rightarrow> nat" where
  "this_cpu h = (case cpu_index (lapic h) (cpus h) of Some i \<Rightarrow> i | None \<Rightarrow> 0)"

definition cur :: "machine \<Rightarrow> nat option" where
  "cur h = cproc (cpus h ! this_cpu h)"

definition depth :: "machine \<Rightarrow> int" where
  "depth h = ncli (cpus h ! this_cpu h)"

text \<open>
  \<open>cpu_wf\<close>: the executing CPU is in the table, its nesting is not negative and its interrupts are
  off inside a nest. \<open>cpu_ok\<close> says in addition that outside a nest \<open>intena\<close> is the interrupt flag,
  which every \<open>popcli\<close> that leaves the outermost nest establishes.
\<close>

definition cpu_wf :: "machine \<Rightarrow> bool" where
  "cpu_wf h \<longleftrightarrow> cpu_index (lapic h) (cpus h) \<noteq> None \<and> 0 \<le> depth h \<and>
     (readeflags h \<longrightarrow> depth h = 0)"

definition cpu_ok :: "machine \<Rightarrow> bool" where
  "cpu_ok h \<longleftrightarrow> cpu_index (lapic h) (cpus h) \<noteq> None \<and> 0 \<le> depth h \<and>
     readeflags h = (depth h = 0 \<and> intena (cpus h ! this_cpu h))"

definition free :: "lockid \<Rightarrow> machine \<Rightarrow> bool" where
  "free lk h \<longleftrightarrow> cpu_ok h \<and> \<not> locked (locks h lk) \<and> lk_cpu (locks h lk) = None"

definition held :: "lockid \<Rightarrow> machine \<Rightarrow> bool" where
  "held lk h \<longleftrightarrow> cpu_ok h \<and> 0 < depth h \<and> locked (locks h lk) \<and>
     lk_cpu (locks h lk) = Some (this_cpu h)"

definition push :: "machine \<Rightarrow> machine" where
  "push h = cli (upd_cpu (this_cpu h) (\<lambda>k. k\<lparr>intena := (if ncli k = 0 then readeflags h else intena k),
     ncli := ncli k + 1\<rparr>) h)"

definition acq :: "lockid \<Rightarrow> machine \<Rightarrow> machine" where
  "acq lk h = set_lock lk (\<lambda>l. l\<lparr>locked := True, lk_cpu := Some (this_cpu h)\<rparr>) (push h)"

definition rel :: "lockid \<Rightarrow> machine \<Rightarrow> machine" where
  "rel lk h = set_lock lk (\<lambda>l. l\<lparr>locked := False, lk_cpu := None\<rparr>)
     ((upd_cpu (this_cpu h) (\<lambda>k. k\<lparr>ncli := ncli k - 1\<rparr>) h)
       \<lparr>ifl := (ifl h)(lapic h := depth h = 1 \<and> intena (cpus h ! this_cpu h))\<rparr>)"

lemmas machine_defs =
  readeflags_def cli_def sti_def upd_cpu_def set_lock_def this_cpu_def cur_def depth_def
  cpu_ok_def cpu_wf_def free_def held_def push_def acq_def rel_def

lemma cpu_index_less: "cpu_index a cs = Some i \<Longrightarrow> i < length cs \<and> apicid (cs ! i) = a"
  by (induction cs arbitrary: i) (auto split: if_splits)

lemma cpu_index_update:
  "(\<And>k. apicid (f k) = apicid k) \<Longrightarrow> cpu_index a (cs[i := f (cs ! i)]) = cpu_index a cs"
proof (induction cs arbitrary: i)
  case (Cons c cs)
  then show ?case by (cases i) auto
qed simp

lemma cpu_ok_wf [lock_simps]: "cpu_ok h \<Longrightarrow> cpu_wf h"
  by (simp add: cpu_ok_def cpu_wf_def)

lemma cpu_wf_nested: "cpu_wf h \<Longrightarrow> 0 < depth h \<Longrightarrow> cpu_ok h"
  by (auto simp: cpu_ok_def cpu_wf_def)

lemma this_cpu_index: "cpu_wf h \<Longrightarrow> cpu_index (lapic h) (cpus h) = Some (this_cpu h)"
  by (auto simp: cpu_wf_def this_cpu_def)

lemma this_cpu_bound: "cpu_wf h \<Longrightarrow> this_cpu h < length (cpus h)"
  using this_cpu_index cpu_index_less by blast

lemma pushcli_wf:
  assumes "cpu_wf h"
  shows "pushcli h = Ok () (push h)"
  using assms this_cpu_index [OF assms] this_cpu_bound [OF assms]
  by (auto simp: pushcli_def mycpu_def Let_def push_def upd_cpu_def cli_def readeflags_def)

lemma push_frame:
  assumes "cpu_wf h"
  shows "cpu_ok (push h)" and "depth (push h) = depth h + 1" and "this_cpu (push h) = this_cpu h"
    and "locks (push h) = locks h" and "cur (push h) = cur h"
    and "intena (cpus (push h) ! this_cpu h) =
      (if depth h = 0 then readeflags h else intena (cpus h ! this_cpu h))"
proof -
  note b = this_cpu_bound [OF assms] and i = this_cpu_index [OF assms]
  have "cpu_index (lapic h) (cpus (push h)) = Some (this_cpu h)"
    using i cpu_index_update [of "\<lambda>k. k\<lparr>intena := (if ncli k = 0 then readeflags h else intena k),
     ncli := ncli k + 1\<rparr>"]
    by (simp add: push_def cli_def upd_cpu_def)
  then have t: "cpu_index (lapic (push h)) (cpus (push h)) = Some (this_cpu h)"
    by (simp add: push_def cli_def upd_cpu_def)
  then show t': "this_cpu (push h) = this_cpu h" by (simp add: this_cpu_def)
  show d: "depth (push h) = depth h + 1"
    unfolding depth_def t' using b by (simp add: push_def cli_def upd_cpu_def)
  show "locks (push h) = locks h" by (simp add: push_def cli_def upd_cpu_def)
  show "cur (push h) = cur h"
    unfolding cur_def t' using b by (simp add: push_def cli_def upd_cpu_def)
  show "intena (cpus (push h) ! this_cpu h) =
      (if depth h = 0 then readeflags h else intena (cpus h ! this_cpu h))"
    using b by (simp add: push_def cli_def upd_cpu_def depth_def)
  have "\<not> readeflags (push h)" by (simp add: push_def cli_def upd_cpu_def readeflags_def)
  with t d assms show "cpu_ok (push h)" by (auto simp: cpu_ok_def cpu_wf_def)
qed

lemma mycpu_nested: "cpu_ok h \<Longrightarrow> 0 < depth h \<Longrightarrow> mycpu h = Ok (this_cpu h) h"
  by (auto simp: cpu_ok_def mycpu_def this_cpu_def)

lemma mycpu_push: "cpu_wf h \<Longrightarrow> mycpu (push h) = Ok (this_cpu h) (push h)"
  using push_frame [of h] by (subst mycpu_nested) (auto simp: cpu_wf_def)

lemma popcli_ok:
  assumes "cpu_ok h" and "0 < depth h"
  shows "popcli h = Ok () ((upd_cpu (this_cpu h) (\<lambda>k. k\<lparr>ncli := ncli k - 1\<rparr>) h)
    \<lparr>ifl := (ifl h)(lapic h := depth h = 1 \<and> intena (cpus h ! this_cpu h))\<rparr>)"
proof -
  have "\<not> readeflags h" using assms by (auto simp: cpu_ok_def)
  moreover from this have "(ifl h)(lapic h := False) = ifl h"
    by (auto simp: fun_eq_iff readeflags_def)
  ultimately show ?thesis
    using assms this_cpu_bound [OF cpu_ok_wf [OF assms(1)]]
    by (auto simp: popcli_def mycpu_nested Let_def upd_cpu_def sti_def depth_def)
qed

lemma popcli_push:
  assumes "cpu_ok h"
  shows "popcli (push h) = Ok () h"
proof -
  note wf = cpu_ok_wf [OF assms]
  note f = push_frame [OF wf] and b = this_cpu_bound [OF wf]
  have pos: "0 < depth (push h)" using f(2) assms by (simp add: cpu_ok_def)
  have fl: "(ifl h)(lapic h := depth h = 0 \<and> intena (cpus h ! this_cpu h)) = ifl h"
    using assms by (auto simp: cpu_ok_def readeflags_def fun_eq_iff)
  have i: "(if depth h = 0 then readeflags h else intena (cpus h ! this_cpu h)) =
      intena (cpus h ! this_cpu h)"
    using assms by (auto simp: cpu_ok_def)
  then have c: "(cpus h ! this_cpu h)\<lparr>intena :=
      (if ncli (cpus h ! this_cpu h) = 0 then readeflags h else intena (cpus h ! this_cpu h))\<rparr> =
      cpus h ! this_cpu h"
    by (simp add: depth_def)
  show ?thesis
    unfolding popcli_ok [OF f(1) pos] f(2,3,6) i
    using b fl c by (simp add: push_def cli_def upd_cpu_def)
qed

lemma holding_ok [lock_simps]:
  assumes "cpu_ok h"
  shows "holding lk h = Ok (locked (locks h lk) \<and> lk_cpu (locks h lk) = Some (this_cpu h)) h"
  using cpu_ok_wf [OF assms] push_frame(4) [OF cpu_ok_wf [OF assms]]
  by (simp add: holding_def pushcli_wf mycpu_push popcli_push assms Let_def)

lemma myproc_ok [lock_simps]:
  assumes "cpu_ok h"
  shows "myproc h = Ok (cur h) h"
  using cpu_ok_wf [OF assms] push_frame(3,5) [OF cpu_ok_wf [OF assms]]
  by (simp add: myproc_def pushcli_wf mycpu_push popcli_push assms Let_def cur_def)

lemma free_cpu_ok [lock_simps]: "free lk h \<Longrightarrow> cpu_ok h"
  by (simp add: free_def)

lemma held_cpu_ok [lock_simps]: "held lk h \<Longrightarrow> cpu_ok h"
  by (simp add: held_def)

lemma set_lock_frame [simp]:
  "cpu_ok (set_lock lk f h) = cpu_ok h" "cpu_wf (set_lock lk f h) = cpu_wf h"
  "this_cpu (set_lock lk f h) = this_cpu h" "cur (set_lock lk f h) = cur h"
  "depth (set_lock lk f h) = depth h" "cpus (set_lock lk f h) = cpus h"
  "ifl (set_lock lk f h) = ifl h" "cr3 (set_lock lk f h) = cr3 h" "lapic (set_lock lk f h) = lapic h"
  "locks (set_lock lk f h) = (locks h)(lk := f (locks h lk))"
  by (simp_all add: machine_defs)

text \<open>The executing CPU, its process and its nesting are those of the state before a lock was taken.\<close>

lemma acq_frame_wf:
  assumes "cpu_wf h"
  shows "cpu_ok (acq lk h)" and "this_cpu (acq lk h) = this_cpu h" and "cur (acq lk h) = cur h"
    and "depth (acq lk h) = depth h + 1"
    and "locks (acq lk h) = (locks h)(lk := (locks h lk)\<lparr>locked := True, lk_cpu := Some (this_cpu h)\<rparr>)"
  using push_frame [OF assms] by (simp_all add: acq_def)

lemmas acq_frame [lock_simps] = acq_frame_wf [OF cpu_ok_wf]

lemma acquire_wf:
  assumes "cpu_wf h" and "\<not> locked (locks h lk)"
  shows "acquire lk h = Ok () (acq lk h)"
proof -
  note f = push_frame [OF assms(1)]
  have hold: "holding lk (push h) = Ok False (push h)"
    using assms(2) f by (simp add: holding_ok)
  have "mycpu (set_lock lk (\<lambda>l. l\<lparr>locked := True\<rparr>) (push h)) =
      Ok (this_cpu h) (set_lock lk (\<lambda>l. l\<lparr>locked := True\<rparr>) (push h))"
    using f assms(1) by (subst mycpu_nested) (auto simp: cpu_wf_def)
  then show ?thesis
    using assms f(4)
    by (simp add: acquire_def pushcli_wf hold Let_def acq_def set_lock_def)
qed

lemma acquire_free [lock_simps]: "free lk h \<Longrightarrow> acquire lk h = Ok () (acq lk h)"
  by (simp add: acquire_wf cpu_ok_wf free_def)

lemma acquire_held:
  assumes "held lk h"
  shows "acquire lk h = Panic ''acquire''"
  using assms push_frame [of h]
  by (simp add: acquire_def pushcli_wf holding_ok held_def cpu_ok_wf)

lemma acquire_busy:
  assumes "cpu_wf h" and "locked (locks h lk)" and "lk_cpu (locks h lk) \<noteq> Some (this_cpu h)"
  shows "acquire lk h = Spin lk"
  using assms push_frame [of h] by (simp add: acquire_def pushcli_wf holding_ok)

lemma release_held [lock_simps]:
  assumes "held lk h"
  shows "release lk h = Ok () (rel lk h)"
  using assms
  by (simp add: release_def holding_ok [of h] popcli_ok held_def)
    (rule machine.equality; simp add: rel_def upd_cpu_def set_lock_def)

lemma holding_wf:
  assumes "cpu_wf h"
  obtains h' where
    "holding lk h = Ok (locked (locks h lk) \<and> lk_cpu (locks h lk) = Some (this_cpu h)) h'"
proof -
  note f = push_frame [OF assms]
  have pos: "0 < depth (push h)" using f(2) assms by (simp add: cpu_wf_def)
  show thesis
    using that assms f(4)
    by (simp add: holding_def pushcli_wf mycpu_push Let_def popcli_ok [OF f(1) pos])
qed

lemma release_not_held:
  assumes "cpu_wf h" and "\<not> (locked (locks h lk) \<and> lk_cpu (locks h lk) = Some (this_cpu h))"
  shows "release lk h = Panic ''release''"
  using assms(2) by (rule_tac lk = lk in holding_wf [OF assms(1)]) (auto simp: release_def)

lemma rel_acq [lock_simps]:
  assumes "free lk h"
  shows "rel lk (acq lk h) = h"
proof -
  note ok = free_cpu_ok [OF assms] and f = push_frame [OF cpu_ok_wf [OF free_cpu_ok [OF assms]]]
  have pos: "0 < depth (push h)" using ok f(2) by (simp add: cpu_ok_def)
  have i: "cpu_ok (push h)" "depth (push h) = depth h + 1" by (fact f)+
  have pop: "((upd_cpu (this_cpu (push h)) (\<lambda>k. k\<lparr>ncli := ncli k - 1\<rparr>) (push h))
      \<lparr>ifl := (ifl (push h))(lapic (push h) := depth (push h) = 1 \<and>
        intena (cpus (push h) ! this_cpu (push h)))\<rparr>) = h"
    using popcli_push [OF ok] popcli_ok [OF i(1) pos] by simp
  have "(locks h lk)\<lparr>locked := False, lk_cpu := None\<rparr> = locks h lk"
    using assms by (simp add: free_def)
  then have "set_lock lk (\<lambda>l. l\<lparr>locked := False, lk_cpu := None\<rparr>)
      (set_lock lk (\<lambda>l. l\<lparr>locked := True, lk_cpu := Some (this_cpu h)\<rparr>) h) = h"
    by (simp add: set_lock_def fun_upd_idem)
  moreover have "rel lk (acq lk h) = set_lock lk (\<lambda>l. l\<lparr>locked := False, lk_cpu := None\<rparr>)
      (set_lock lk (\<lambda>l. l\<lparr>locked := True, lk_cpu := Some (this_cpu h)\<rparr>)
        ((upd_cpu (this_cpu (push h)) (\<lambda>k. k\<lparr>ncli := ncli k - 1\<rparr>) (push h))
      \<lparr>ifl := (ifl (push h))(lapic (push h) := depth (push h) = 1 \<and>
        intena (cpus (push h) ! this_cpu (push h)))\<rparr>))"
    by (rule machine.equality) (simp_all add: rel_def acq_def upd_cpu_def)
  ultimately show ?thesis by (simp add: pop)
qed

lemma held_acq [lock_simps]: "free lk h \<Longrightarrow> held lk (acq lk h)"
  by (auto simp: held_def free_def acq_frame) (simp add: cpu_ok_def)

lemma free_acq_other [lock_simps]: "cpu_ok h \<Longrightarrow> lk' \<noteq> lk \<Longrightarrow> free lk' (acq lk h) = free lk' h"
  by (auto simp: free_def acq_frame)

lemma held_acq_other [lock_simps]: "held lk h \<Longrightarrow> lk' \<noteq> lk \<Longrightarrow> held lk (acq lk' h)"
  by (auto simp: held_def acq_frame)

text \<open>No spin lock is held: the state in which system calls start and end their critical sections.\<close>

definition quiet :: "machine \<Rightarrow> bool" where
  "quiet h \<longleftrightarrow> cpu_ok h \<and> (\<forall>lk. \<not> locked (locks h lk) \<and> lk_cpu (locks h lk) = None)"

lemma quiet_simps [lock_simps]:
  assumes "quiet h"
  shows "cpu_ok h" and "free lk h" and "held lk (acq lk h)" and "rel lk (acq lk h) = h"
    and "lk' \<noteq> lk \<Longrightarrow> free lk' (acq lk h)"
    and "lk' \<noteq> lk \<Longrightarrow> held lk (acq lk' (acq lk h))"
    and "lk' \<noteq> lk \<Longrightarrow> held lk' (acq lk' (acq lk h))"
    and "lk' \<noteq> lk \<Longrightarrow> rel lk' (acq lk' (acq lk h)) = acq lk h"
proof -
  show ok: "cpu_ok h" and f: "free lk h" using assms by (simp_all add: quiet_def free_def)
  have f': "free lk' h" using assms by (simp add: quiet_def free_def)
  show h: "held lk (acq lk h)" and "rel lk (acq lk h) = h" by (simp_all add: held_acq rel_acq f)
  show fo: "lk' \<noteq> lk \<Longrightarrow> free lk' (acq lk h)" using f' by (simp add: free_acq_other ok)
  show "lk' \<noteq> lk \<Longrightarrow> held lk (acq lk' (acq lk h))" using h by (rule held_acq_other)
  show "lk' \<noteq> lk \<Longrightarrow> held lk' (acq lk' (acq lk h))" using fo by (simp add: held_acq)
  show "lk' \<noteq> lk \<Longrightarrow> rel lk' (acq lk' (acq lk h)) = acq lk h" using fo by (simp add: rel_acq)
qed

text \<open>Handing over: the first lock may be released while the second one is held.\<close>

lemma acq_sel:
  "cr3 (acq lk h) = cr3 h" "cpus (acq lk h) = (cpus h)[this_cpu h := (cpus h ! this_cpu h)\<lparr>
     intena := (if ncli (cpus h ! this_cpu h) = 0 then readeflags h else intena (cpus h ! this_cpu h)),
     ncli := ncli (cpus h ! this_cpu h) + 1\<rparr>]"
  "ifl (acq lk h) = (ifl h)(lapic h := False)" "lapic (acq lk h) = lapic h"
  by (simp_all add: acq_def push_def cli_def upd_cpu_def)

lemma rel_sel:
  "cr3 (rel lk h) = cr3 h" "cpus (rel lk h) = (cpus h)[this_cpu h := (cpus h ! this_cpu h)\<lparr>
     ncli := ncli (cpus h ! this_cpu h) - 1\<rparr>]"
  "ifl (rel lk h) = (ifl h)(lapic h := depth h = 1 \<and> intena (cpus h ! this_cpu h))"
  "lapic (rel lk h) = lapic h"
  "locks (rel lk h) = (locks h)(lk := (locks h lk)\<lparr>locked := False, lk_cpu := None\<rparr>)"
  by (simp_all add: rel_def upd_cpu_def)

lemma rel_acq_swap:
  assumes "free lk h" and "lk' \<noteq> lk"
  shows "rel lk (acq lk' (acq lk h)) = acq lk' h"
proof (rule machine.equality)
  note ok = free_cpu_ok [OF assms(1)]
  note b = this_cpu_bound [OF cpu_ok_wf [OF ok]]
  note f = acq_frame [OF ok] and f' = acq_frame [OF acq_frame(1) [OF ok, of lk]]
  have d: "0 \<le> ncli (cpus h ! this_cpu h)" using ok by (simp add: cpu_ok_def depth_def)
  have l: "(locks h lk)\<lparr>locked := False, lk_cpu := None\<rparr> = locks h lk"
    using assms by (simp add: free_def)
  show "cpus (rel lk (acq lk' (acq lk h))) = cpus (acq lk' h)"
    using b d by (simp add: rel_sel acq_sel f f' add.commute)
  show "ifl (rel lk (acq lk' (acq lk h))) = ifl (acq lk' h)"
    using d by (simp add: rel_sel acq_sel f f' depth_def [of h])
  show "locks (rel lk (acq lk' (acq lk h))) = locks (acq lk' h)"
    using assms(2) l by (simp add: rel_sel f f' fun_upd_twist fun_upd_idem)
qed (simp_all add: rel_sel acq_sel)

section \<open>Mutual exclusion between CPUs\<close>

text \<open>
  CPUs interleave at the granularity of lock operations. Next to the machine, \<open>own i\<close> lists the
  locks CPU \<open>i\<close> has acquired and not yet released. \<open>enable\<close> is the \<open>sti\<close> of the scheduler loop.
\<close>

inductive lock_step ::
  "machine \<times> (nat \<Rightarrow> lockid list) \<Rightarrow> machine \<times> (nat \<Rightarrow> lockid list) \<Rightarrow> bool" where
  run_on: "j < length (cpus h) \<Longrightarrow> lock_step (h, own) (h\<lparr>lapic := apicid (cpus h ! j)\<rparr>, own)"
| take: "acquire lk h = Ok () h' \<Longrightarrow>
    lock_step (h, own) (h', own(this_cpu h := lk # own (this_cpu h)))"
| drop: "release lk h = Ok () h' \<Longrightarrow>
    lock_step (h, own) (h', own(this_cpu h := remove1 lk (own (this_cpu h))))"
| enable: "depth h = 0 \<Longrightarrow> lock_step (h, own) (sti h, own)"

inductive lock_reach :: "machine \<Rightarrow> machine \<times> (nat \<Rightarrow> lockid list) \<Rightarrow> bool" for h0 where
  init: "lock_reach h0 (h0, \<lambda>_. [])"
| step: "lock_reach h0 x \<Longrightarrow> lock_step x y \<Longrightarrow> lock_reach h0 y"

definition lock_init :: "machine \<Rightarrow> bool" where
  "lock_init h \<longleftrightarrow> distinct (map apicid (cpus h)) \<and> lapic h \<in> set (map apicid (cpus h)) \<and>
     (\<forall>c \<in> set (cpus h). ncli c = 0) \<and> (\<forall>lk. \<not> locked (locks h lk))"

definition lock_inv :: "machine \<times> (nat \<Rightarrow> lockid list) \<Rightarrow> bool" where
  "lock_inv x \<longleftrightarrow> (case x of (h, own) \<Rightarrow>
     distinct (map apicid (cpus h)) \<and> lapic h \<in> set (map apicid (cpus h)) \<and>
     (\<forall>i < length (cpus h). ncli (cpus h ! i) = int (length (own i)) \<and>
        (own i \<noteq> [] \<longrightarrow> \<not> ifl h (apicid (cpus h ! i)))) \<and>
     (\<forall>i. distinct (own i) \<and> (length (cpus h) \<le> i \<longrightarrow> own i = [])) \<and>
     (\<forall>i lk. lk \<in> set (own i) \<longleftrightarrow> locked (locks h lk) \<and> lk_cpu (locks h lk) = Some i))"

inductive_cases lock_stepE: "lock_step (h, own) y"

lemma cpu_index_distinct:
  "distinct (map apicid cs) \<Longrightarrow> i < length cs \<Longrightarrow> cpu_index (apicid (cs ! i)) cs = Some i"
proof (induction cs arbitrary: i)
  case (Cons c cs)
  then show ?case by (cases i) (auto dest: nth_mem)
qed simp

lemma lock_inv_cpu:
  assumes "lock_inv (h, own)"
  shows "cpu_wf h" and "lapic h = apicid (cpus h ! this_cpu h)"
    and "depth h = int (length (own (this_cpu h)))"
proof -
  from assms obtain i where i: "i < length (cpus h)" "lapic h = apicid (cpus h ! i)"
    by (auto simp: lock_inv_def in_set_conv_nth)
  with assms have idx: "cpu_index (lapic h) (cpus h) = Some i"
    by (simp add: lock_inv_def cpu_index_distinct)
  then have t: "this_cpu h = i" by (simp add: this_cpu_def)
  with i show "lapic h = apicid (cpus h ! this_cpu h)" by simp
  from assms i t show d: "depth h = int (length (own (this_cpu h)))"
    by (simp add: lock_inv_def depth_def)
  from assms i have "own i \<noteq> [] \<longrightarrow> \<not> ifl h (lapic h)" by (simp add: lock_inv_def)
  with idx d t show "cpu_wf h" by (auto simp: cpu_wf_def readeflags_def)
qed

lemma lock_inv_update:
  assumes inv: "lock_inv (h, own)"
    and m: "map apicid (cpus h') = map apicid (cpus h)" and l: "lapic h' = lapic h"
    and n: "\<And>i. i < length (cpus h) \<Longrightarrow> ncli (cpus h' ! i) =
      (if i = this_cpu h then int (length ls) else ncli (cpus h ! i))"
    and f: "\<And>a. a \<noteq> lapic h \<Longrightarrow> ifl h' a = ifl h a" and f': "ls \<noteq> [] \<Longrightarrow> \<not> ifl h' (lapic h)"
    and d: "distinct ls"
    and k: "\<And>i lk. (lk \<in> set ((own(this_cpu h := ls)) i)) =
      (locked (locks h' lk) \<and> lk_cpu (locks h' lk) = Some i)"
  shows "lock_inv (h', own(this_cpu h := ls))"
proof -
  have len: "length (cpus h') = length (cpus h)" using m by (metis length_map)
  have ap: "apicid (cpus h' ! i) = apicid (cpus h ! i)" if "i < length (cpus h)" for i
    using that m len by (metis nth_map)
  have la: "lapic h = apicid (cpus h ! this_cpu h)" by (rule lock_inv_cpu(2) [OF inv])
  have b: "this_cpu h < length (cpus h)" by (rule this_cpu_bound [OF lock_inv_cpu(1) [OF inv]])
  have ne: "apicid (cpus h ! i) \<noteq> lapic h" if "i < length (cpus h)" "i \<noteq> this_cpu h" for i
    using that inv b la by (auto simp: lock_inv_def distinct_conv_nth)
  have "\<forall>i < length (cpus h'). ncli (cpus h' ! i) = int (length ((own(this_cpu h := ls)) i)) \<and>
      ((own(this_cpu h := ls)) i \<noteq> [] \<longrightarrow> \<not> ifl h' (apicid (cpus h' ! i)))"
    using inv n f f' ap len ne la by (auto simp: lock_inv_def)
  moreover have "\<forall>i. distinct ((own(this_cpu h := ls)) i) \<and>
      (length (cpus h') \<le> i \<longrightarrow> (own(this_cpu h := ls)) i = [])"
    using inv d b len by (auto simp: lock_inv_def)
  moreover have "distinct (map apicid (cpus h')) \<and> lapic h' \<in> set (map apicid (cpus h'))"
    using inv m l by (simp add: lock_inv_def)
  ultimately show ?thesis using k by (simp add: lock_inv_def)
qed

lemma lock_inv_held:
  assumes inv: "lock_inv (h, own)"
    and "locked (locks h lk)" and "lk_cpu (locks h lk) = Some (this_cpu h)"
  shows "held lk h"
proof -
  from assms have "lk \<in> set (own (this_cpu h))" by (simp add: lock_inv_def)
  with lock_inv_cpu(3) [OF inv] have "0 < depth h" by (cases "own (this_cpu h)") auto
  with assms lock_inv_cpu(1) [OF inv] show ?thesis by (simp add: held_def cpu_wf_nested)
qed

lemma lock_inv_take:
  assumes inv: "lock_inv (h, own)" and a: "acquire lk h = Ok () h'"
  shows "lock_inv (h', own(this_cpu h := lk # own (this_cpu h)))"
proof -
  note wf = lock_inv_cpu(1) [OF inv]
  have nl: "\<not> locked (locks h lk)"
    using a acquire_held [OF lock_inv_held [OF inv]] acquire_busy [OF wf] by force
  with a have h': "h' = acq lk h" by (simp add: acquire_wf [OF wf])
  have nin: "lk \<notin> set (own i)" for i using inv nl by (auto simp: lock_inv_def)
  note simps = h' acq_def push_def cli_def upd_cpu_def nth_update_if
  show ?thesis
  proof (rule lock_inv_update [OF inv])
    show "map apicid (cpus h') = map apicid (cpus h)"
      by (rule nth_equalityI) (auto simp: simps)
    show "ncli (cpus h' ! i) = (if i = this_cpu h then int (length (lk # own (this_cpu h)))
        else ncli (cpus h ! i))" if "i < length (cpus h)" for i
      using that lock_inv_cpu(3) [OF inv] by (auto simp: simps depth_def)
    show "(lk' \<in> set ((own(this_cpu h := lk # own (this_cpu h))) i)) =
        (locked (locks h' lk') \<and> lk_cpu (locks h' lk') = Some i)" for i lk'
      using inv nin nl by (auto simp: h' acq_frame_wf [OF wf] lock_inv_def)
    show "distinct (lk # own (this_cpu h))" using inv nin by (simp add: lock_inv_def)
  qed (auto simp: simps)
qed

lemma lock_inv_drop:
  assumes inv: "lock_inv (h, own)" and r: "release lk h = Ok () h'"
  shows "lock_inv (h', own(this_cpu h := remove1 lk (own (this_cpu h))))"
proof -
  let ?o = "own (this_cpu h)"
  note wf = lock_inv_cpu(1) [OF inv]
  have hd: "held lk h"
    using r release_not_held [OF wf, of lk] lock_inv_held [OF inv, of lk] by force
  with r have h': "h' = rel lk h" by (simp add: release_held)
  note simps = h' rel_def cli_def upd_cpu_def nth_update_if
  have inn: "lk \<in> set ?o" using inv hd by (simp add: lock_inv_def held_def)
  have len: "int (length ?o - 1) = int (length ?o) - 1"
    using length_pos_if_in_set [OF inn] by linarith
  have dist: "distinct (own i)" for i using inv by (simp add: lock_inv_def)
  have nin: "lk \<notin> set (own i)" if "i \<noteq> this_cpu h" for i
    using inv hd that by (auto simp: lock_inv_def held_def)
  show ?thesis
  proof (rule lock_inv_update [OF inv])
    show "map apicid (cpus h') = map apicid (cpus h)"
      by (rule nth_equalityI) (auto simp: simps)
    show "ncli (cpus h' ! i) = (if i = this_cpu h then int (length (remove1 lk ?o))
        else ncli (cpus h ! i))" if "i < length (cpus h)" for i
      using that lock_inv_cpu(3) [OF inv] inn len by (auto simp: simps depth_def length_remove1)
    show "(lk' \<in> set ((own(this_cpu h := remove1 lk ?o)) i)) =
        (locked (locks h' lk') \<and> lk_cpu (locks h' lk') = Some i)" for i lk'
      using inv nin dist by (auto simp: h' rel_def upd_cpu_def lock_inv_def)
    show "distinct (remove1 lk ?o)" using dist by simp
    assume "remove1 lk ?o \<noteq> []"
    with inn have "1 < length ?o" by (cases ?o) (auto split: if_splits)
    with lock_inv_cpu(3) [OF inv] show "\<not> ifl h' (lapic h)" by (simp add: simps)
  qed (auto simp: simps)
qed

lemma lock_inv_step: "lock_step x y \<Longrightarrow> lock_inv x \<Longrightarrow> lock_inv y"
proof (induction rule: lock_step.induct)
  case (run_on j h own)
  then show ?case by (auto simp: lock_inv_def)
next
  case (take lk h h' own)
  then show ?case by (blast intro: lock_inv_take)
next
  case (drop lk h h' own)
  then show ?case by (blast intro: lock_inv_drop)
next
  case (enable h own)
  have e: "own (this_cpu h) = []" using enable lock_inv_cpu(3) [of h own] by simp
  have "(lk \<in> set (own i)) = (locked (locks h lk) \<and> lk_cpu (locks h lk) = Some i)" for lk i
    using enable by (simp add: lock_inv_def)
  from this [of _ "this_cpu h"] this e have "lock_inv (sti h, own(this_cpu h := []))"
    by (intro lock_inv_update [OF enable(2)])
      (use enable e in \<open>auto simp: sti_def depth_def\<close>)
  with e show ?case by (metis fun_upd_triv)
qed

lemma lock_reach_inv: "lock_reach h0 x \<Longrightarrow> lock_init h0 \<Longrightarrow> lock_inv x"
  by (induction rule: lock_reach.induct)
    (auto simp: lock_init_def lock_inv_def dest: lock_inv_step)

text \<open>
  C11: spin locks give mutual exclusion. In every interleaving of lock operations on any number of
  CPUs, a lock is owned by at most one CPU at a time, and the CPU that owns it runs with interrupts
  disabled.
\<close>

theorem spinlock_mutual_exclusion:
  assumes "lock_init h0" and "lock_reach h0 (h, own)" and "lk \<in> set (own i)"
  shows "(\<forall>j. lk \<in> set (own j) \<longrightarrow> j = i) \<and> locked (locks h lk) \<and>
    \<not> ifl h (apicid (cpus h ! i))"
proof -
  from assms have inv: "lock_inv (h, own)" by (blast intro: lock_reach_inv)
  then have k: "(lk \<in> set (own j)) = (locked (locks h lk) \<and> lk_cpu (locks h lk) = Some j)" for j
    by (simp add: lock_inv_def)
  from assms(3) have ne: "own i \<noteq> []" by auto
  with inv have "i < length (cpus h)" by (auto simp: lock_inv_def not_less [symmetric])
  with inv ne have "\<not> ifl h (apicid (cpus h ! i))" by (simp add: lock_inv_def)
  with k assms(3) show ?thesis by auto
qed

definition boot_cpu :: "byte \<Rightarrow> cpu" where
  "boot_cpu a = \<lparr>apicid = a, ts_ss0 = 0, ts_esp0 = 0, ts_iomb = 0, gdt = [], ncli = 0,
     intena = False, cproc = None\<rparr>"

definition two_cpus :: machine where
  "two_cpus = \<lparr>cpus = [boot_cpu 0, boot_cpu 1], lapic = 0, ifl = (\<lambda>_. False), cr3 = (\<lambda>_. 0),
     locks = (\<lambda>_. \<lparr>lk_name = [], locked = False, lk_cpu = None\<rparr>)\<rparr>"

lemma two_cpus_wf: "cpu_wf two_cpus" "this_cpu two_cpus = 0"
  by (simp_all add: two_cpus_def boot_cpu_def machine_defs)

lemma two_cpus_take:
  "lock_reach two_cpus (acq LK_kmem two_cpus, (\<lambda>_. [])(0 := [LK_kmem]))"
proof -
  have "acquire LK_kmem two_cpus = Ok () (acq LK_kmem two_cpus)"
    by (rule acquire_wf [OF two_cpus_wf(1)]) (simp add: two_cpus_def)
  from lock_reach.step [OF lock_reach.init lock_step.take [OF this]]
  show ?thesis by (simp add: two_cpus_wf)
qed

lemma spinlock_mutual_exclusion_witness:
  "LK_kmem \<in> set (((\<lambda>_. [])(0 := [LK_kmem])) (0::nat)) \<and>
   locked (locks (acq LK_kmem two_cpus) LK_kmem) \<and> \<not> ifl (acq LK_kmem two_cpus) 0"
  using spinlock_mutual_exclusion [OF _ two_cpus_take, of LK_kmem 0]
  by (simp add: lock_init_def two_cpus_def boot_cpu_def machine_defs)

end
