(* ===== verification/Ptable.thy ===== *)
theory Ptable
  imports Spinlock
begin

text \<open>
  The process table and the switch to the scheduler: \<open>struct page\<close>, \<open>struct proc\<close>, \<open>struct context\<close>
  (proc.h), \<open>struct trapframe\<close> (x86.h), and from proc.c the functions that only touch the table:
  \<open>sched\<close>, \<open>yield\<close>, \<open>sleep\<close>, \<open>wakeup1\<close>, \<open>wakeup\<close>, \<open>kill\<close> and one iteration of \<open>scheduler\<close>.

  A pointer to a table entry is its index, a null pointer is \<open>None\<close>; \<open>tf\<close> and \<open>context\<close> hold the
  structures they point to. The record \<open>kst\<close> is the root of the kernel state: every later component
  extends it with its own fields, and operations are polymorphic in the extension.

  \<open>swtch\<close> suspends the running kernel thread: the outcome is \<open>Swtch\<close> with the state the scheduler
  takes over. What a thread does once it is resumed is modelled by its own definition
  (\<open>sched_return\<close>, \<open>sleep_return\<close>, \<open>yield_return\<close>).
\<close>

section \<open>State\<close>

abbreviation (input) "NPROC \<equiv> (64 :: nat)"
abbreviation (input) "NOFILE \<equiv> (16 :: nat)"
abbreviation (input) "MAX_PSYC_PAGES \<equiv> (16 :: nat)"
abbreviation (input) "MAX_TOTAL_PAGES \<equiv> (32 :: u32)"

datatype procstate = UNUSED | EMBRYO | SLEEPING | RUNNABLE | RUNNING | ZOMBIE

record page =
  pg_pgdir :: addr
  pg_va :: u32
  pg_offset :: u32
  pg_is_used :: bool
  pg_time_loaded :: u32
  pg_age :: u32

record trapframe =
  tf_edi :: u32
  tf_esi :: u32
  tf_ebp :: u32
  tf_oesp :: u32
  tf_ebx :: u32
  tf_edx :: u32
  tf_ecx :: u32
  tf_eax :: u32
  tf_gs :: ushort
  tf_fs :: ushort
  tf_es :: ushort
  tf_ds :: ushort
  tf_trapno :: u32
  tf_err :: u32
  tf_eip :: u32
  tf_cs :: ushort
  tf_eflags :: u32
  tf_esp :: u32
  tf_ss :: ushort

record proc_context =
  ctx_edi :: u32
  ctx_esi :: u32
  ctx_ebx :: u32
  ctx_ebp :: u32
  ctx_eip :: u32

record proc =
  p_sz :: u32
  p_pgdir :: addr
  p_kstack :: addr
  p_state :: procstate
  p_pid :: int
  p_parent :: "nat option"
  p_tf :: trapframe
  p_context :: proc_context
  p_chan :: "chan option"
  p_killed :: bool
  p_ofile :: "nat option list"
  p_cwd :: "nat option"
  p_name :: "byte list"
  p_swapFile :: "nat option"
  p_file_pages :: "page list"
  p_memory_pages :: "page list"
  p_page_faults :: u32
  p_paged_out :: u32
  p_timestamp :: u32
  p_r_robin :: u32

record kst =
  hw :: machine
  ptable :: "proc list"
  initproc :: "nat option"
  nextpid :: int

section \<open>Lock operations on the kernel state\<close>

definition on_hw :: "(machine \<Rightarrow> ('a, machine) out) \<Rightarrow> 'z kst_scheme \<Rightarrow> ('a, 'z kst_scheme) out" where
  "on_hw f s = (case f (hw s) of
     Ok x h \<Rightarrow> Ok x (s\<lparr>hw := h\<rparr>)
   | Panic m \<Rightarrow> Panic m
   | Spin l \<Rightarrow> Spin l
   | Swtch h \<Rightarrow> Swtch (s\<lparr>hw := h\<rparr>)
   | Undef m \<Rightarrow> Undef m
   | Hang m \<Rightarrow> Hang m)"

definition kacquire :: "lockid \<Rightarrow> 'z kst_scheme \<Rightarrow> (unit, 'z kst_scheme) out" where
  "kacquire lk = on_hw (acquire lk)"

definition krelease :: "lockid \<Rightarrow> 'z kst_scheme \<Rightarrow> (unit, 'z kst_scheme) out" where
  "krelease lk = on_hw (release lk)"

definition kholding :: "lockid \<Rightarrow> 'z kst_scheme \<Rightarrow> (bool, 'z kst_scheme) out" where
  "kholding lk = on_hw (holding lk)"

definition kmycpu :: "'z kst_scheme \<Rightarrow> (nat, 'z kst_scheme) out" where
  "kmycpu = on_hw mycpu"

definition kmyproc :: "'z kst_scheme \<Rightarrow> (nat option, 'z kst_scheme) out" where
  "kmyproc = on_hw myproc"

text \<open>Dereferencing \<open>myproc()\<close> is undefined when no process runs.\<close>

definition thisproc :: "'z kst_scheme \<Rightarrow> (nat, 'z kst_scheme) out" where
  "thisproc s = andthen (kmyproc s) (\<lambda>p s.
     case p of None \<Rightarrow> Undef ''null proc'' | Some i \<Rightarrow> Ok i s)"

definition upd_proc :: "nat \<Rightarrow> (proc \<Rightarrow> proc) \<Rightarrow> 'z kst_scheme \<Rightarrow> 'z kst_scheme" where
  "upd_proc i f s = s\<lparr>ptable := (ptable s)[i := f (ptable s ! i)]\<rparr>"

section \<open>Scheduling operations\<close>

definition sched :: "'z kst_scheme \<Rightarrow> (unit, 'z kst_scheme) out" where
  "sched s =
     andthen (thisproc s) (\<lambda>p s.
     andthen (kholding LK_ptable s) (\<lambda>hold s.
     if \<not> hold then Panic ''sched ptable.lock''
     else andthen (kmycpu s) (\<lambda>c s.
     if ncli (cpus (hw s) ! c) \<noteq> 1 then Panic ''sched locks''
     else if p_state (ptable s ! p) = RUNNING then Panic ''sched running''
     else if readeflags (hw s) then Panic ''sched interruptible''
     else Swtch s)))"

definition sched_return :: "bool \<Rightarrow> 'z kst_scheme \<Rightarrow> (unit, 'z kst_scheme) out" where
  "sched_return ena s =
     andthen (kmycpu s) (\<lambda>c s. Ok () (s\<lparr>hw := upd_cpu c (\<lambda>k. k\<lparr>intena := ena\<rparr>) (hw s)\<rparr>))"

definition yield :: "'z kst_scheme \<Rightarrow> (unit, 'z kst_scheme) out" where
  "yield s =
     andthen (kacquire LK_ptable s) (\<lambda>_ s.
     andthen (thisproc s) (\<lambda>p s.
     sched (upd_proc p (\<lambda>q. q\<lparr>p_state := RUNNABLE\<rparr>) s)))"

definition yield_return :: "bool \<Rightarrow> 'z kst_scheme \<Rightarrow> (unit, 'z kst_scheme) out" where
  "yield_return ena s = andthen (sched_return ena s) (\<lambda>_ s. krelease LK_ptable s)"

definition sleep :: "chan \<Rightarrow> lockid option \<Rightarrow> 'z kst_scheme \<Rightarrow> (unit, 'z kst_scheme) out" where
  "sleep ch lk s =
     andthen (kmyproc s) (\<lambda>p s.
     case p of None \<Rightarrow> Panic ''sleep'' | Some p \<Rightarrow>
     (case lk of None \<Rightarrow> Panic ''sleep without lk'' | Some lk \<Rightarrow>
      andthen (if lk \<noteq> LK_ptable
               then andthen (kacquire LK_ptable s) (\<lambda>_ s. krelease lk s) else Ok () s) (\<lambda>_ s.
      sched (upd_proc p (\<lambda>q. q\<lparr>p_chan := Some ch, p_state := SLEEPING\<rparr>) s))))"

definition sleep_return ::
  "bool \<Rightarrow> nat \<Rightarrow> lockid \<Rightarrow> 'z kst_scheme \<Rightarrow> (unit, 'z kst_scheme) out" where
  "sleep_return ena p lk s =
     andthen (sched_return ena s) (\<lambda>_ s.
     let s = upd_proc p (\<lambda>q. q\<lparr>p_chan := None\<rparr>) s in
     if lk \<noteq> LK_ptable then andthen (krelease LK_ptable s) (\<lambda>_ s. kacquire lk s) else Ok () s)"

definition wakeup1 :: "chan \<Rightarrow> 'z kst_scheme \<Rightarrow> 'z kst_scheme" where
  "wakeup1 ch s = s\<lparr>ptable := map (\<lambda>p.
     if p_state p = SLEEPING \<and> p_chan p = Some ch then p\<lparr>p_state := RUNNABLE\<rparr> else p) (ptable s)\<rparr>"

definition wakeup :: "chan \<Rightarrow> 'z kst_scheme \<Rightarrow> (unit, 'z kst_scheme) out" where
  "wakeup ch s =
     andthen (kacquire LK_ptable s) (\<lambda>_ s. krelease LK_ptable (wakeup1 ch s))"

text \<open>
  The body of the loop of \<open>scheduler\<close> for one process, up to the switch, and what it does when the
  process switches back. \<open>switchuvm\<close> and \<open>switchkvm\<close> are in vm.c; \<open>kpg\<close> is \<open>kpgdir\<close> and \<open>ts\<close> the
  address of the task state segment of the CPU.
\<close>

definition lcr3 :: "u32 \<Rightarrow> machine \<Rightarrow> machine" where
  "lcr3 v h = h\<lparr>cr3 := (cr3 h)(lapic h := v)\<rparr>"

definition switchkvm :: "addr \<Rightarrow> 'z kst_scheme \<Rightarrow> 'z kst_scheme" where
  "switchkvm kpg s = s\<lparr>hw := lcr3 (V2P kpg) (hw s)\<rparr>"

definition switchuvm :: "u32 \<Rightarrow> nat option \<Rightarrow> 'z kst_scheme \<Rightarrow> (unit, 'z kst_scheme) out" where
  "switchuvm ts q s =
     (case q of None \<Rightarrow> Panic ''switchuvm: no process'' | Some i \<Rightarrow>
      let p = ptable s ! i in
      if p_kstack p = 0 then Panic ''switchuvm: no kstack''
      else if p_pgdir p = 0 then Panic ''switchuvm: no pgdir''
      else on_hw (\<lambda>h.
        andthen (pushcli h) (\<lambda>_ h.
        andthen (mycpu h) (\<lambda>c h.
        let h = upd_cpu c (\<lambda>k. k\<lparr>
          gdt := (gdt k)[SEG_TSS := (SEG16 STS_T32A ts 103 0)\<lparr>sd_s := 0\<rparr>],
          ts_ss0 := push_bit 3 (of_nat SEG_KDATA), ts_esp0 := p_kstack p + 4096,
          ts_iomb := 0xFFFF\<rparr>) h
        in popcli (lcr3 (V2P (p_pgdir p)) h)))) s)"

definition scheduler_run :: "u32 \<Rightarrow> nat \<Rightarrow> 'z kst_scheme \<Rightarrow> (unit, 'z kst_scheme) out" where
  "scheduler_run ts i s =
     (if p_state (ptable s ! i) \<noteq> RUNNABLE then Ok () s
      else andthen (kmycpu s) (\<lambda>c s.
        let s = s\<lparr>hw := upd_cpu c (\<lambda>k. k\<lparr>cproc := Some i\<rparr>) (hw s)\<rparr> in
        andthen (switchuvm ts (Some i) s) (\<lambda>_ s.
        Swtch (upd_proc i (\<lambda>q. q\<lparr>p_state := RUNNING\<rparr>) s))))"

definition scheduler_return :: "addr \<Rightarrow> 'z kst_scheme \<Rightarrow> (unit, 'z kst_scheme) out" where
  "scheduler_return kpg s =
     andthen (kmycpu (switchkvm kpg s)) (\<lambda>c s.
     Ok () (s\<lparr>hw := upd_cpu c (\<lambda>k. k\<lparr>cproc := None\<rparr>) (hw s)\<rparr>))"

primrec kill_scan :: "int \<Rightarrow> proc list \<Rightarrow> proc list option" where
  "kill_scan n [] = None"
| "kill_scan n (p # ps) =
     (if p_pid p = n
      then Some (p\<lparr>p_killed := True,
        p_state := (if p_state p = SLEEPING then RUNNABLE else p_state p)\<rparr> # ps)
      else map_option (Cons p) (kill_scan n ps))"

definition kill :: "int \<Rightarrow> 'z kst_scheme \<Rightarrow> (int, 'z kst_scheme) out" where
  "kill n s =
     andthen (kacquire LK_ptable s) (\<lambda>_ s.
     case kill_scan n (ptable s) of
       Some ps \<Rightarrow> andthen (krelease LK_ptable (s\<lparr>ptable := ps\<rparr>)) (\<lambda>_ s. Ok 0 s)
     | None \<Rightarrow> andthen (krelease LK_ptable s) (\<lambda>_ s. Ok (- 1) s))"

section \<open>Evaluation rules\<close>

lemma on_hw_ok [lock_simps]:
  "free lk (hw s) \<Longrightarrow> kacquire lk s = Ok () (s\<lparr>hw := acq lk (hw s)\<rparr>)"
  "held lk (hw s) \<Longrightarrow> krelease lk s = Ok () (s\<lparr>hw := rel lk (hw s)\<rparr>)"
  "cpu_ok (hw s) \<Longrightarrow> kholding lk s = Ok (locked (locks (hw s) lk) \<and>
     lk_cpu (locks (hw s) lk) = Some (this_cpu (hw s))) s"
  "cpu_ok (hw s) \<Longrightarrow> kmyproc s = Ok (cur (hw s)) s"
  "cpu_ok (hw s) \<Longrightarrow> cur (hw s) = Some p \<Longrightarrow> thisproc s = Ok p s"
  by (simp_all add: kacquire_def krelease_def kholding_def kmyproc_def thisproc_def on_hw_def
    acquire_free release_held holding_ok myproc_ok)

lemma kmycpu_nested [lock_simps]:
  "cpu_ok (hw s) \<Longrightarrow> 0 < depth (hw s) \<Longrightarrow> kmycpu s = Ok (this_cpu (hw s)) s"
  by (simp add: kmycpu_def on_hw_def mycpu_nested)

lemma kacquire_held: "held lk (hw s) \<Longrightarrow> kacquire lk s = Panic ''acquire''"
  by (simp add: kacquire_def on_hw_def acquire_held)

lemma wakeup1_frame [simp]:
  "hw (wakeup1 ch s) = hw s" "length (ptable (wakeup1 ch s)) = length (ptable s)"
  "initproc (wakeup1 ch s) = initproc s" "nextpid (wakeup1 ch s) = nextpid s"
  "kst.more (wakeup1 ch s) = kst.more s"
  "wakeup1 ch (s\<lparr>hw := h\<rparr>) = (wakeup1 ch s)\<lparr>hw := h\<rparr>"
  by (simp_all add: wakeup1_def)

lemma wakeup_free [lock_simps]:
  "free LK_ptable (hw s) \<Longrightarrow> wakeup ch s = Ok () (wakeup1 ch s)"
  by (simp add: wakeup_def lock_simps held_acq rel_acq)

lemma upd_proc_frame [simp]:
  "hw (upd_proc i f s) = hw s" "length (ptable (upd_proc i f s)) = length (ptable s)"
  "initproc (upd_proc i f s) = initproc s" "nextpid (upd_proc i f s) = nextpid s"
  "kst.more (upd_proc i f s) = kst.more s"
  "j < length (ptable s) \<Longrightarrow>
     ptable (upd_proc i f s) ! j = (if i = j then f (ptable s ! i) else ptable s ! j)"
  by (auto simp: upd_proc_def nth_update_if)

lemma sched_ok:
  assumes "held LK_ptable (hw s)" and "depth (hw s) = 1" and "cur (hw s) = Some p"
    and "p_state (ptable s ! p) \<noteq> RUNNING"
  shows "sched s = Swtch s"
proof -
  have ok: "cpu_ok (hw s)" using assms(1) by (rule held_cpu_ok)
  then have "\<not> readeflags (hw s)" using assms(2) by (simp add: cpu_ok_def)
  then show ?thesis
    using assms ok by (simp add: sched_def lock_simps depth_def held_def)
qed

lemma sleep_hands_over:
  assumes "quiet h" and "depth h = 0" and "cur h = Some p" and "lk \<noteq> LK_ptable"
    and "hw s = acq lk h" and "p < length (ptable s)"
  shows "sleep ch (Some lk) s = Swtch (upd_proc p
    (\<lambda>q. q\<lparr>p_chan := Some ch, p_state := SLEEPING\<rparr>) (s\<lparr>hw := acq LK_ptable h\<rparr>))"
    (is "_ = Swtch ?t")
proof -
  note q = quiet_simps [OF assms(1)]
  note f = acq_frame [OF q(1)]
  have "kacquire LK_ptable s = Ok () (s\<lparr>hw := acq LK_ptable (acq lk h)\<rparr>)"
    using assms(4,5) q by (simp add: lock_simps)
  moreover have "krelease lk (s\<lparr>hw := acq LK_ptable (acq lk h)\<rparr>) = Ok () (s\<lparr>hw := acq LK_ptable h\<rparr>)"
    using assms(4) q rel_acq_swap [OF q(2) assms(4) [symmetric]] by (simp add: lock_simps)
  moreover have "sched ?t = Swtch ?t"
    using q f assms(2,3,6) by (intro sched_ok) auto
  moreover have "kmyproc s = Ok (Some p) s"
    using assms(3,5) f by (simp add: lock_simps)
  ultimately show ?thesis using assms(4) by (simp add: sleep_def)
qed


text \<open>A process table entry as the loader leaves it, for concrete examples.\<close>

definition zero_tf :: trapframe where
  "zero_tf = \<lparr>tf_edi = 0, tf_esi = 0, tf_ebp = 0, tf_oesp = 0, tf_ebx = 0, tf_edx = 0, tf_ecx = 0,
     tf_eax = 0, tf_gs = 0, tf_fs = 0, tf_es = 0, tf_ds = 0, tf_trapno = 0, tf_err = 0, tf_eip = 0,
     tf_cs = 0, tf_eflags = 0, tf_esp = 0, tf_ss = 0\<rparr>"

definition zero_page :: page where
  "zero_page = \<lparr>pg_pgdir = 0, pg_va = 0, pg_offset = 0, pg_is_used = False, pg_time_loaded = 0,
     pg_age = 0\<rparr>"

definition zero_proc :: proc where
  "zero_proc = \<lparr>p_sz = 0, p_pgdir = 0, p_kstack = 0, p_state = UNUSED, p_pid = 0, p_parent = None,
     p_tf = zero_tf, p_context = \<lparr>ctx_edi = 0, ctx_esi = 0, ctx_ebx = 0, ctx_ebp = 0, ctx_eip = 0\<rparr>,
     p_chan = None, p_killed = False, p_ofile = replicate NOFILE None, p_cwd = None, p_name = [],
     p_swapFile = None, p_file_pages = replicate MAX_PSYC_PAGES zero_page,
     p_memory_pages = replicate MAX_PSYC_PAGES zero_page, p_page_faults = 0, p_paged_out = 0,
     p_timestamp = 0, p_r_robin = 0\<rparr>"

text \<open>One CPU that runs process 0 with interrupts enabled and holds no lock.\<close>

definition cpu0 :: machine where
  "cpu0 = \<lparr>cpus = [(boot_cpu 0)\<lparr>intena := True, cproc := Some 0\<rparr>], lapic = 0, ifl = (\<lambda>_. True),
     cr3 = (\<lambda>_. 0), locks = (\<lambda>_. \<lparr>lk_name = [], locked = False, lk_cpu = None\<rparr>)\<rparr>"

lemma cpu0_quiet: "quiet cpu0" and cpu0_depth: "depth cpu0 = 0" and cpu0_cur: "cur cpu0 = Some 0"
  by (simp_all add: cpu0_def boot_cpu_def quiet_def machine_defs)

definition kst0 :: kst where
  "kst0 = \<lparr>hw = cpu0, ptable = [zero_proc\<lparr>p_state := RUNNING, p_pid := 3\<rparr>], initproc = None,
     nextpid = 4\<rparr>"


lemma kill_scan_first:
  "kill_scan n (as @ p # bs) = Some (as @ p\<lparr>p_killed := True,
     p_state := (if p_state p = SLEEPING then RUNNABLE else p_state p)\<rparr> # bs)"
  if "p_pid p = n" and "\<forall>a \<in> set as. p_pid a \<noteq> n"
  using that by (induction as) auto

lemma kill_scan_none: "\<forall>a \<in> set as. p_pid a \<noteq> n \<Longrightarrow> kill_scan n as = None"
  by (induction as) auto

lemma kill_quiet:
  assumes "quiet (hw s)"
  shows "kill n s = (case kill_scan n (ptable s) of
     Some ps \<Rightarrow> Ok 0 (s\<lparr>ptable := ps\<rparr>) | None \<Rightarrow> Ok (- 1) s)"
  using quiet_simps [OF assms] by (simp add: kill_def lock_simps split: option.split)

text \<open>
  C40: \<open>kill\<close> compares pids only. Called with 0 it finds the first slot whose pid is 0, which the pid of
  every UNUSED slot is, reports success and leaves \<open>killed\<close> set on the unused slot, so that the next
  process placed there starts out killed (\<open>allocproc\<close> does not reset the field).
\<close>

theorem kill_zero_marks_unused_slot:
  assumes "quiet (hw s)" and "ptable s = as @ p # bs"
    and "p_state p = UNUSED" and "p_pid p = 0" and "\<forall>a \<in> set as. p_pid a \<noteq> 0"
  shows "\<exists>t. kill 0 s = Ok 0 t \<and> p_killed (ptable t ! length as) \<and>
    p_state (ptable t ! length as) = UNUSED"
  using assms kill_scan_first [of p 0 as bs] by (simp add: kill_quiet)

lemma kill_zero_marks_unused_slot_witness:
  "\<exists>t. kill 0 (kst0\<lparr>ptable := ptable kst0 @ [zero_proc]\<rparr>) = Ok 0 t \<and> p_killed (ptable t ! 1)"
  using kill_zero_marks_unused_slot [of "kst0\<lparr>ptable := ptable kst0 @ [zero_proc]\<rparr>" "ptable kst0"
      zero_proc "[]"]
  by (auto simp: kst0_def cpu0_quiet zero_proc_def)

end
