(* ===== verification/Sleeplock.thy ===== *)
theory Sleeplock
  imports Ptable
begin

text \<open>
  Sleep locks (sleeplock.c): a flag and the pid of the holder, protected by a spin lock of their own
  (\<open>LK_sleep\<close>), with the lock's address as wait channel. \<open>acquiresleep\<close> on a held lock sleeps; a
  woken thread returns from \<open>sleep\<close> with the spin lock held and tests the flag again
  (\<open>acquiresleep_loop\<close>).
\<close>

record sleeplock =
  sl_locked :: bool
  sl_name :: string
  sl_pid :: int

record slst = kst +
  slocks :: "sleepid \<Rightarrow> sleeplock"

definition upd_slock :: "sleepid \<Rightarrow> (sleeplock \<Rightarrow> sleeplock) \<Rightarrow> 'z slst_scheme \<Rightarrow> 'z slst_scheme" where
  "upd_slock i f s = s\<lparr>slocks := (slocks s)(i := f (slocks s i))\<rparr>"

definition initsleeplock :: "sleepid \<Rightarrow> string \<Rightarrow> 'z slst_scheme \<Rightarrow> 'z slst_scheme" where
  "initsleeplock i nm s =
     upd_slock i (\<lambda>_. \<lparr>sl_locked = False, sl_name = nm, sl_pid = 0\<rparr>)
       (s\<lparr>hw := initlock (LK_sleep i) ''sleep lock'' (hw s)\<rparr>)"

definition acquiresleep_loop :: "sleepid \<Rightarrow> 'z slst_scheme \<Rightarrow> (unit, 'z slst_scheme) out" where
  "acquiresleep_loop i s =
     (if sl_locked (slocks s i) then sleep (Ch_sleep i) (Some (LK_sleep i)) s
      else andthen (thisproc s) (\<lambda>p s.
        krelease (LK_sleep i)
          (upd_slock i (\<lambda>l. l\<lparr>sl_locked := True, sl_pid := p_pid (ptable s ! p)\<rparr>) s)))"

definition acquiresleep :: "sleepid \<Rightarrow> 'z slst_scheme \<Rightarrow> (unit, 'z slst_scheme) out" where
  "acquiresleep i s = andthen (kacquire (LK_sleep i) s) (\<lambda>_ s. acquiresleep_loop i s)"

definition releasesleep :: "sleepid \<Rightarrow> 'z slst_scheme \<Rightarrow> (unit, 'z slst_scheme) out" where
  "releasesleep i s =
     andthen (kacquire (LK_sleep i) s) (\<lambda>_ s.
     andthen (wakeup (Ch_sleep i) (upd_slock i (\<lambda>l. l\<lparr>sl_locked := False, sl_pid := 0\<rparr>) s)) (\<lambda>_ s.
     krelease (LK_sleep i) s))"

definition holdingsleep :: "sleepid \<Rightarrow> 'z slst_scheme \<Rightarrow> (bool, 'z slst_scheme) out" where
  "holdingsleep i s =
     andthen (kacquire (LK_sleep i) s) (\<lambda>_ s.
     andthen (thisproc s) (\<lambda>p s.
     let r = (sl_locked (slocks s i) \<and> sl_pid (slocks s i) = p_pid (ptable s ! p)) in
     andthen (krelease (LK_sleep i) s) (\<lambda>_ s. Ok r s)))"

section \<open>Evaluation with no spin lock held\<close>

text \<open>Process \<open>p\<close> runs on the executing CPU and no spin lock is held.\<close>

definition runs :: "machine \<Rightarrow> nat \<Rightarrow> bool" where
  "runs h p \<longleftrightarrow> quiet h \<and> cur h = Some p"

lemma upd_slock_frame [simp]:
  "hw (upd_slock i f s) = hw s" "ptable (upd_slock i f s) = ptable s"
  "slocks (upd_slock i f s) = (slocks s)(i := f (slocks s i))"
  "initproc (upd_slock i f s) = initproc s" "nextpid (upd_slock i f s) = nextpid s"
  "slst.more (upd_slock i f s) = slst.more s"
  "upd_slock i f (s\<lparr>hw := h\<rparr>) = (upd_slock i f s)\<lparr>hw := h\<rparr>"
  by (simp_all add: upd_slock_def)

lemma wakeup1_slst [simp]:
  "slocks (wakeup1 ch s) = slocks s" "slst.more (wakeup1 ch s) = slst.more s"
  by (simp_all add: wakeup1_def)

lemma pid_wakeup1 [simp]:
  "p < length (ptable s) \<Longrightarrow> p_pid (ptable (wakeup1 ch s) ! p) = p_pid (ptable s ! p)"
  by (simp add: wakeup1_def)

lemma holdingsleep_runs [lock_simps]:
  assumes "runs (hw s) p"
  shows "holdingsleep i s =
    Ok (sl_locked (slocks s i) \<and> sl_pid (slocks s i) = p_pid (ptable s ! p)) s"
  using assms quiet_simps [of "hw s"] acq_frame [of "hw s"]
  by (simp add: holdingsleep_def lock_simps runs_def Let_def)

lemma acquiresleep_runs [lock_simps]:
  assumes "runs (hw s) p" and "\<not> sl_locked (slocks s i)"
  shows "acquiresleep i s =
    Ok () (upd_slock i (\<lambda>l. l\<lparr>sl_locked := True, sl_pid := p_pid (ptable s ! p)\<rparr>) s)"
  using assms quiet_simps [of "hw s"] acq_frame [of "hw s"]
  by (simp add: acquiresleep_def acquiresleep_loop_def lock_simps runs_def)

lemma releasesleep_runs [lock_simps]:
  assumes "runs (hw s) p"
  shows "releasesleep i s =
    Ok () (wakeup1 (Ch_sleep i) (upd_slock i (\<lambda>l. l\<lparr>sl_locked := False, sl_pid := 0\<rparr>) s))"
  using assms quiet_simps [of "hw s"]
  by (simp add: releasesleep_def lock_simps runs_def)

text \<open>A held sleep lock suspends the caller, which then holds no lock of its own.\<close>

lemma acquiresleep_blocks:
  assumes "runs (hw s) p" and "depth (hw s) = 0" and "p < length (ptable s)"
    and "sl_locked (slocks s i)"
  shows "acquiresleep i s = Swtch (upd_proc p
    (\<lambda>q. q\<lparr>p_chan := Some (Ch_sleep i), p_state := SLEEPING\<rparr>) (s\<lparr>hw := acq LK_ptable (hw s)\<rparr>))"
  using assms quiet_simps [of "hw s"]
    sleep_hands_over [of "hw s" p "LK_sleep i" "s\<lparr>hw := acq (LK_sleep i) (hw s)\<rparr>" "Ch_sleep i"]
  by (simp add: acquiresleep_def acquiresleep_loop_def lock_simps runs_def)

end
