(* ===== verification/Strings.thy ===== *)
theory Strings
  imports Mmu
begin

text \<open>
  string.c and the two string instructions of x86.h it uses, on byte-addressed memory. Every loop is
  a recursion on its remaining count. The lemmas give each routine its reference meaning:
  \<open>memset\<close> fills exactly the range whichever store instruction it picks, \<open>memmove\<close> copies correctly
  for overlapping ranges, \<open>memcmp\<close> decides equality of two ranges, \<open>safestrcpy\<close> always
  NUL-terminates and never writes past its bound.
\<close>

primrec stosb :: "addr \<Rightarrow> byte \<Rightarrow> nat \<Rightarrow> memory \<Rightarrow> memory" where
  "stosb a c 0 m = m"
| "stosb a c (Suc n) m = stosb (a + 1) c n (m(a := c))"

primrec stosl :: "addr \<Rightarrow> u32 \<Rightarrow> nat \<Rightarrow> memory \<Rightarrow> memory" where
  "stosl a v 0 m = m"
| "stosl a v (Suc n) m = stosl (a + 4) v n (st32 m a v)"

definition memset :: "addr \<Rightarrow> u32 \<Rightarrow> u32 \<Rightarrow> memory \<Rightarrow> memory" where
  "memset dst c n m =
     (if aligned4 dst \<and> n mod 4 = 0
      then let c = c AND 0xFF in
        stosl dst (push_bit 24 c OR push_bit 16 c OR push_bit 8 c OR c) (unat (n div 4)) m
      else stosb dst (ucast c) (unat n) m)"

primrec memcmp_loop :: "addr \<Rightarrow> addr \<Rightarrow> nat \<Rightarrow> memory \<Rightarrow> int" where
  "memcmp_loop s1 s2 0 m = 0"
| "memcmp_loop s1 s2 (Suc n) m =
     (if m s1 \<noteq> m s2 then uint (m s1) - uint (m s2) else memcmp_loop (s1 + 1) (s2 + 1) n m)"

definition memcmp :: "addr \<Rightarrow> addr \<Rightarrow> u32 \<Rightarrow> memory \<Rightarrow> int" where
  "memcmp v1 v2 n m = memcmp_loop v1 v2 (unat n) m"

text \<open>The two loops of \<open>memmove\<close>: ascending, and descending from the ends \<open>d\<close>, \<open>s\<close>.\<close>

primrec copy_up :: "addr \<Rightarrow> addr \<Rightarrow> nat \<Rightarrow> memory \<Rightarrow> memory" where
  "copy_up d s 0 m = m"
| "copy_up d s (Suc n) m = copy_up (d + 1) (s + 1) n (m(d := m s))"

primrec copy_down :: "addr \<Rightarrow> addr \<Rightarrow> nat \<Rightarrow> memory \<Rightarrow> memory" where
  "copy_down d s 0 m = m"
| "copy_down d s (Suc n) m = copy_down (d - 1) (s - 1) n (m(d - 1 := m (s - 1)))"

definition memmove :: "addr \<Rightarrow> addr \<Rightarrow> u32 \<Rightarrow> memory \<Rightarrow> memory" where
  "memmove dst src n m =
     (if src < dst \<and> dst < src + n then copy_down (dst + n) (src + n) (unat n) m
      else copy_up dst src (unat n) m)"

primrec strncmp_loop :: "addr \<Rightarrow> addr \<Rightarrow> nat \<Rightarrow> memory \<Rightarrow> int" where
  "strncmp_loop p q 0 m = 0"
| "strncmp_loop p q (Suc n) m =
     (if m p \<noteq> 0 \<and> m p = m q then strncmp_loop (p + 1) (q + 1) n m
      else uint (m p) - uint (m q))"

definition strncmp :: "addr \<Rightarrow> addr \<Rightarrow> u32 \<Rightarrow> memory \<Rightarrow> int" where
  "strncmp p q n m = strncmp_loop p q (unat n) m"

primrec strncpy_loop :: "addr \<Rightarrow> addr \<Rightarrow> nat \<Rightarrow> memory \<Rightarrow> memory" where
  "strncpy_loop s t 0 m = m"
| "strncpy_loop s t (Suc n) m =
     (let m' = m(s := m t) in
      if m t \<noteq> 0 then strncpy_loop (s + 1) (t + 1) n m' else stosb (s + 1) 0 n m')"

definition strncpy :: "addr \<Rightarrow> addr \<Rightarrow> int \<Rightarrow> memory \<Rightarrow> memory" where
  "strncpy s t n m = strncpy_loop s t (nat n) m"

text \<open>
  The loop of \<open>safestrcpy\<close>: \<open>n\<close> is what \<open>--n > 0\<close> leaves; the result is the memory and the position
  of the final store.
\<close>

primrec safestrcpy_loop :: "addr \<Rightarrow> addr \<Rightarrow> nat \<Rightarrow> memory \<Rightarrow> memory" where
  "safestrcpy_loop s t 0 m = m(s := 0)"
| "safestrcpy_loop s t (Suc n) m =
     (let m' = m(s := m t) in
      if m t \<noteq> 0 then safestrcpy_loop (s + 1) (t + 1) n m' else m'(s + 1 := 0))"

definition safestrcpy :: "addr \<Rightarrow> addr \<Rightarrow> int \<Rightarrow> memory \<Rightarrow> memory" where
  "safestrcpy s t n m = (if n \<le> 0 then m else safestrcpy_loop s t (nat n - 1) m)"

partial_function (option) strlen_loop :: "memory \<Rightarrow> addr \<Rightarrow> nat \<Rightarrow> nat option" where
  "strlen_loop m s n = (if m (s + of_nat n) = 0 then Some n else strlen_loop m s (n + 1))"

definition strlen :: "addr \<Rightarrow> memory \<Rightarrow> nat option" where
  "strlen s m = strlen_loop m s 0"

section \<open>Reference meaning\<close>

text \<open>Position of an address relative to the start of a range.\<close>

lemma off_Suc:
  fixes a d :: addr
  assumes "a \<noteq> d"
  shows "unat (a - d) = Suc (unat (a - (d + 1)))"
proof -
  have "a - d \<noteq> 0" using assms by simp
  then have "unat (a - d - 1) = unat (a - d) - 1" and "0 < unat (a - d)"
    by (simp_all add: unat_minus_one unat_gt_0)
  then show ?thesis by (simp add: diff_diff_eq)
qed

lemma off_self:
  fixes d :: addr
  shows "unat (d - (d + 1)) = 0xFFFFFFFF"
  by (simp add: unsigned_minus_1_eq_mask mask_eq_exp_minus_1)

definition fill :: "addr \<Rightarrow> byte \<Rightarrow> nat \<Rightarrow> memory \<Rightarrow> memory" where
  "fill d c n m = (\<lambda>a. if unat (a - d) < n then c else m a)"

definition move :: "addr \<Rightarrow> addr \<Rightarrow> nat \<Rightarrow> memory \<Rightarrow> memory" where
  "move d s n m = (\<lambda>a. if unat (a - d) < n then m (s + (a - d)) else m a)"

lemma fill_Suc:
  assumes "n < 2 ^ 32"
  shows "fill d c (Suc n) m = fill (d + 1) c n (m(d := c))"
proof
  fix a
  show "fill d c (Suc n) m a = fill (d + 1) c n (m(d := c)) a"
    using assms off_Suc [of a d] off_self [of d] by (cases "a = d") (auto simp: fill_def)
qed

lemma stosb_fill: "n \<le> 2 ^ 32 \<Longrightarrow> stosb d c n m = fill d c n m"
proof (induction n arbitrary: d m)
  case 0
  show ?case by (simp add: fill_def)
next
  case (Suc n)
  then show ?case by (simp add: fill_Suc)
qed

lemma stosl_fill:
  assumes "\<And>k. k < 4 \<Longrightarrow> (ucast (drop_bit (8 * k) v) :: byte) = c" and "4 * n \<le> 2 ^ 32"
  shows "stosl d v n m = fill d c (4 * n) m"
  using assms(2)
proof (induction n arbitrary: d m)
  case 0
  show ?case by (simp add: fill_def)
next
  case (Suc n)
  have "st32 m d v = m(d := c, d + 1 := c, d + 2 := c, d + 3 := c)"
    using assms(1) [of 0] assms(1) [of 1] assms(1) [of 2] assms(1) [of 3] by (simp add: st32_def)
  moreover have "4 * Suc n = Suc (Suc (Suc (Suc (4 * n))))" by simp
  moreover have "d + 1 + 1 = d + 2" "d + 2 + 1 = d + 3" "d + 3 + 1 = d + 4" by simp_all
  ultimately show ?case
    using Suc by (simp only: stosl.simps fill_Suc)
qed

lemma splat_byte:
  fixes c :: u32
  assumes "k < 4"
  shows "(ucast (drop_bit (8 * k) (push_bit 24 (take_bit 8 c) OR push_bit 16 (take_bit 8 c) OR
    push_bit 8 (take_bit 8 c) OR take_bit 8 c)) :: byte) = ucast c"
proof -
  have "k = 0 \<or> k = 1 \<or> k = 2 \<or> k = 3" using assms by arith
  then show ?thesis by (elim disjE) (auto intro!: bit_word_eqI simp: bit_simps)
qed

theorem memset_fill: "memset dst c n m = fill dst (ucast c) (unat n) m"
proof (cases "aligned4 dst \<and> n mod 4 = 0")
  case True
  then have "unat (n mod 4) = 0" by simp
  then have "unat n mod 4 = 0" by (simp add: unat_mod)
  then have "4 * unat (n div 4) = unat n" by (auto simp: unat_div)
  moreover have "unat n \<le> 2 ^ 32" using unsigned_less [of n, where 'a = nat] by simp
  ultimately have "stosl dst (push_bit 24 (take_bit 8 c) OR push_bit 16 (take_bit 8 c) OR
      push_bit 8 (take_bit 8 c) OR take_bit 8 c) (unat (n div 4)) m = fill dst (ucast c) (unat n) m"
    using stosl_fill [OF splat_byte, of "unat (n div 4)" dst c m] by simp
  moreover have "c AND 0xFF = take_bit 8 c" by (simp add: take_bit_eq_mask mask_eq_exp_minus_1)
  ultimately show ?thesis
    unfolding memset_def Let_def if_P [OF True] by metis
next
  case False
  then show ?thesis
    unfolding memset_def if_not_P [OF False]
    using unsigned_less [of n, where 'a = nat] by (simp add: stosb_fill)
qed

lemma copy_up_move:
  assumes "unat s + n < 2 ^ 32" and "unat d \<le> unat s \<or> unat s + n \<le> unat d"
  shows "copy_up d s n m = move d s n m"
  using assms
proof (induction n arbitrary: d s m)
  case 0
  show ?case by (simp add: move_def)
next
  case (Suc n)
  have s1: "unat (s + 1) = unat s + 1"
    using Suc.prems(1) by (simp add: unat_word_ariths)
  have d1: "unat (d + 1) = (if unat d + 1 = 2 ^ 32 then 0 else unat d + 1)"
    using unsigned_less [of d, where 'a = nat] by (auto simp: unat_word_ariths)
  have ih: "copy_up (d + 1) (s + 1) n m' = move (d + 1) (s + 1) n m'" for m'
    using Suc.prems d1 by (intro Suc.IH) (auto simp: s1)
  show ?case
  proof
    fix a
    have ne: "s + 1 + (a - (d + 1)) \<noteq> d" if "unat (a - (d + 1)) < n"
    proof
      assume "s + 1 + (a - (d + 1)) = d"
      then have "unat d = unat (s + 1 + (a - (d + 1)))" by (rule arg_cong [symmetric])
      also have "\<dots> = unat s + 1 + unat (a - (d + 1))"
        using that s1 Suc.prems(1) unat_word_ariths(1) [of "s + 1" "a - (d + 1)"] by simp
      finally show False using that Suc.prems by auto
    qed
    have e: "s + 1 + (a - (d + 1)) = s + (a - d)" by (simp add: algebra_simps)
    show "copy_up d s (Suc n) m a = move d s (Suc n) m a"
    proof (cases "a = d")
      case True
      then show ?thesis using Suc.prems(1) off_self [of d] by (simp add: ih move_def)
    next
      case False
      then show ?thesis using ne off_Suc [of a d] by (simp add: ih move_def e)
    qed
  qed
qed

lemma copy_down_move:
  assumes "unat s + n < 2 ^ 32" and "unat d + n < 2 ^ 32" and "unat s < unat d"
  shows "copy_down (d + of_nat n) (s + of_nat n) n m = move d s n m"
  using assms
proof (induction n arbitrary: m)
  case 0
  show ?case by (simp add: move_def)
next
  case (Suc n)
  have un: "unat (of_nat n :: addr) = n" using Suc.prems(1) by (simp add: unat_of_nat)
  have ih: "copy_down (d + of_nat n) (s + of_nat n) n m' = move d s n m'" for m'
    using Suc by simp
  show ?case
  proof
    fix a
    have ne: "s + (a - d) \<noteq> d + of_nat n" if "unat (a - d) < n"
    proof
      assume e: "s + (a - d) = d + of_nat n"
      have "unat (s + (a - d)) = unat s + unat (a - d)"
        using that Suc.prems(1) unat_word_ariths(1) [of s "a - d"] by simp
      moreover have "unat (d + of_nat n) = unat d + n"
        using un Suc.prems(2) unat_word_ariths(1) [of d "of_nat n"] by simp
      ultimately show False using that Suc.prems(3) e by simp
    qed
    have last: "unat (a - d) = n \<longleftrightarrow> a = d + of_nat n"
      by (metis un add.commute add_diff_cancel_left' diff_add_cancel unsigned_word_eqI)
    show "copy_down (d + of_nat (Suc n)) (s + of_nat (Suc n)) (Suc n) m a = move d s (Suc n) m a"
      using ne last un by (auto simp: ih move_def algebra_simps less_Suc_eq)
  qed
qed

lemma memmove_move:
  assumes "unat src + unat n < 2 ^ 32" and "unat dst + unat n < 2 ^ 32"
  shows "memmove dst src n m = move dst src (unat n) m"
proof -
  have e: "unat (src + n) = unat src + unat n"
    using assms(1) by (simp add: unat_word_ariths)
  show ?thesis
  proof (cases "src < dst \<and> dst < src + n")
    case True
    then show ?thesis
      using assms copy_down_move [of src "unat n" dst m]
      by (simp add: memmove_def word_less_nat_alt)
  next
    case False
    then show ?thesis
      using assms e copy_up_move [of src "unat n" dst m]
      by (auto simp: memmove_def word_less_nat_alt)
  qed
qed

text \<open>
  C33: \<open>memmove\<close> copies correctly whether or not the ranges overlap: when neither range wraps around the
  address space, byte \<open>i\<close> of the destination afterwards is byte \<open>i\<close> of the source before, and every
  other byte of memory is unchanged.
\<close>

theorem memmove_overlap:
  assumes "unat src + unat n < 2 ^ 32" and "unat dst + unat n < 2 ^ 32"
  shows "(\<forall>i. i < unat n \<longrightarrow> memmove dst src n m (dst + of_nat i) = m (src + of_nat i)) \<and>
    (\<forall>a. unat n \<le> unat (a - dst) \<longrightarrow> memmove dst src n m a = m a)"
proof -
  have "unat (of_nat i :: addr) = i" if "i < unat n" for i
    using that assms(1) by (simp add: unat_of_nat)
  then show ?thesis by (simp add: memmove_move [OF assms] move_def)
qed

theorem memmove_overlap_witness:
  "memmove 0x80001002 0x80001000 5 (\<lambda>a. ucast a) 0x80001006 = 4"
proof -
  have "memmove 0x80001002 0x80001000 5 (\<lambda>a. ucast a) (0x80001002 + of_nat 4) =
      ucast ((0x80001000 :: addr) + of_nat 4)"
    using memmove_overlap [of "0x80001000" 5 "0x80001002" "\<lambda>a. ucast a"]
    by (simp del: of_nat_numeral)
  then show ?thesis by simp
qed

lemma memcmp_zero_iff:
  "memcmp a b n m = 0 \<longleftrightarrow> (\<forall>i < unat n. m (a + of_nat i) = m (b + of_nat i))"
proof -
  have "memcmp_loop a b k m = 0 \<longleftrightarrow> (\<forall>i < k. m (a + of_nat i) = m (b + of_nat i))" for k
  proof (induction k arbitrary: a b)
    case (Suc k)
    have "(\<forall>i < Suc k. m (a + of_nat i) = m (b + of_nat i)) \<longleftrightarrow>
        m a = m b \<and> (\<forall>i < k. m (a + 1 + of_nat i) = m (b + 1 + of_nat i))"
      by (auto simp: less_Suc_eq_0_disj add.assoc)
    then show ?case using Suc by (auto simp: unsigned_word_eqI)
  qed simp
  then show ?thesis by (simp add: memcmp_def)
qed

lemma safestrcpy_loop_bound:
  "n < unat (a - s) \<Longrightarrow> safestrcpy_loop s t n m a = m a"
proof (induction n arbitrary: s t m)
  case 0
  then show ?case by (cases "a = s") auto
next
  case (Suc n)
  then have "a \<noteq> s" by auto
  with Suc off_Suc [of a s] have "n < unat (a - (s + 1))" by simp
  moreover from this have "a \<noteq> s + 1" by auto
  ultimately show ?case using Suc \<open>a \<noteq> s\<close> by (simp add: Let_def)
qed

lemma safestrcpy_loop_terminates:
  "n < 2 ^ 32 \<Longrightarrow> \<exists>k \<le> n. safestrcpy_loop s t n m (s + of_nat k) = 0"
proof (induction n arbitrary: s t m)
  case (Suc n)
  show ?case
  proof (cases "m t = 0")
    case True
    then show ?thesis by (intro exI [of _ 0]) (auto simp: Let_def)
  next
    case False
    from Suc obtain k where "k \<le> n"
      "safestrcpy_loop (s + 1) (t + 1) n (m(s := m t)) (s + 1 + of_nat k) = 0" by fastforce
    then show ?thesis using False by (intro exI [of _ "Suc k"]) (simp add: Let_def add.assoc)
  qed
qed simp

text \<open>
  C34: \<open>safestrcpy(s, t, n)\<close> always leaves a NUL within the first \<open>n\<close> bytes of a destination of positive
  size and writes no byte outside them.
\<close>

theorem safestrcpy_safe:
  assumes "0 < n" and "n < 2 ^ 31"
  shows "(\<exists>k < nat n. safestrcpy s t n m (s + of_nat k) = 0) \<and>
    (\<forall>a. nat n \<le> unat (a - s) \<longrightarrow> safestrcpy s t n m a = m a)"
proof -
  obtain k where "k \<le> nat n - 1" "safestrcpy_loop s t (nat n - 1) m (s + of_nat k) = 0"
    using safestrcpy_loop_terminates [of "nat n - 1" s t m] assms by fastforce
  then show ?thesis
    using assms safestrcpy_loop_bound [of "nat n - 1" _ s t m] 
    by (auto simp: safestrcpy_def intro!: exI [of _ k])
qed

theorem safestrcpy_safe_witness:
  "\<exists>k < 16. safestrcpy 0x1000 0x2000 16 (\<lambda>a. 7) (0x1000 + of_nat k) = 0"
  using safestrcpy_safe [of 16 "0x1000" "0x2000" "\<lambda>a. 7"] by simp

lemma strlen_loop_found:
  assumes "\<And>i. n \<le> i \<Longrightarrow> i < k \<Longrightarrow> m (s + of_nat i) \<noteq> 0" and "m (s + of_nat k) = 0" and "n \<le> k"
  shows "strlen_loop m s n = Some k"
  using assms
proof (induction "k - n" arbitrary: n)
  case 0
  then show ?case by (subst strlen_loop.simps) simp
next
  case (Suc d)
  then have "strlen_loop m s (n + 1) = Some k" by (intro Suc.hyps(1)) auto
  moreover have "m (s + of_nat n) \<noteq> 0" using Suc by simp
  ultimately show ?case by (subst strlen_loop.simps) simp
qed

lemma strlen_Some:
  "m (s + of_nat k) = 0 \<Longrightarrow> (\<And>i. i < k \<Longrightarrow> m (s + of_nat i) \<noteq> 0) \<Longrightarrow> strlen s m = Some k"
  by (simp add: strlen_def strlen_loop_found)

end
