(* ===== verification/Kalloc.thy ===== *)
theory Kalloc
  imports Sleeplock Strings
begin

text \<open>
  The physical page allocator (kalloc.c): \<open>struct kmem\<close> with its free list threaded through the free
  pages themselves, the reference count per physical page used by copy-on-write, and the page counter
  behind \<open>free_pages\<close> and \<open>used_pages\<close>. \<open>mem\<close> is the kernel's byte memory. Fixed by the build and never
  changed: \<open>selection\<close>, the paging policy of the Makefile's SELECTION; \<open>kend\<close> and \<open>kdata\<close>, the linker
  symbols \<open>end\<close> and \<open>data\<close>; \<open>kbuffer\<close>, the address of the static page \<open>buffer\<close> of vm.c.

  The locale \<open>page_alloc\<close> is the contract the virtual memory code relies on; it is interpreted on
  \<open>kalloc\<close> and \<open>kfree\<close>.
\<close>

section \<open>Definitions\<close>

datatype policy = NONE | NFUA | LAPA | SCFIFO | AQ | RROBIN

record kmst = slst +
  selection :: policy
  mem :: memory
  kend :: addr
  kdata :: addr
  kbuffer :: addr
  km_use_lock :: bool
  km_freelist :: addr
  km_references_count :: "nat \<Rightarrow> u32"
  km_free_pages :: u32

abbreviation (input) "NFRAMES \<equiv> (0xE000 :: nat)"

definition kmem_lock :: "'z kmst_scheme \<Rightarrow> (unit, 'z kmst_scheme) out" where
  "kmem_lock s = (if km_use_lock s then kacquire LK_kmem s else Ok () s)"

definition kmem_unlock :: "'z kmst_scheme \<Rightarrow> (unit, 'z kmst_scheme) out" where
  "kmem_unlock s = (if km_use_lock s then krelease LK_kmem s else Ok () s)"

text \<open>The array index \<open>v >> PGSHIFT\<close>; the array has \<open>PHYSTOP >> PGSHIFT\<close> entries.\<close>

definition frame :: "u32 \<Rightarrow> nat" where
  "frame v = unat (drop_bit PGSHIFT v)"

definition set_ref :: "u32 \<Rightarrow> u32 \<Rightarrow> 'z kmst_scheme \<Rightarrow> 'z kmst_scheme" where
  "set_ref v c s = s\<lparr>km_references_count := (km_references_count s)(frame v := c)\<rparr>"

definition set_counter :: "u32 \<Rightarrow> u32 \<Rightarrow> 'z kmst_scheme \<Rightarrow> (unit, 'z kmst_scheme) out" where
  "set_counter v i s =
     andthen (kmem_lock s) (\<lambda>_ s.
     if NFRAMES \<le> frame v then Undef ''references_count'' else kmem_unlock (set_ref v i s))"

definition get_ref_counter :: "u32 \<Rightarrow> 'z kmst_scheme \<Rightarrow> (u32, 'z kmst_scheme) out" where
  "get_ref_counter v s =
     andthen (kmem_lock s) (\<lambda>_ s.
     if NFRAMES \<le> frame v then Undef ''references_count'' else
     let counter = km_references_count s (frame v) in
     andthen (kmem_unlock s) (\<lambda>_ s. Ok counter s))"

definition inc_counter :: "u32 \<Rightarrow> 'z kmst_scheme \<Rightarrow> (unit, 'z kmst_scheme) out" where
  "inc_counter v s =
     andthen (kmem_lock s) (\<lambda>_ s.
     if NFRAMES \<le> frame v then Undef ''references_count''
     else kmem_unlock (set_ref v (km_references_count s (frame v) + 1) s))"

definition dec_counter :: "u32 \<Rightarrow> 'z kmst_scheme \<Rightarrow> (unit, 'z kmst_scheme) out" where
  "dec_counter v s =
     andthen (kmem_lock s) (\<lambda>_ s.
     if NFRAMES \<le> frame v then Undef ''references_count''
     else kmem_unlock (set_ref v (km_references_count s (frame v) - 1) s))"

definition total_pages :: "'z kmst_scheme \<Rightarrow> int" where
  "total_pages s = sint (PGROUNDDOWN (PHYSTOP - V2P (kend s))) div 4096"

definition free_pages :: "'z kmst_scheme \<Rightarrow> (int, 'z kmst_scheme) out" where
  "free_pages s =
     andthen (kmem_lock s) (\<lambda>_ s.
     let n = sint (km_free_pages s) in andthen (kmem_unlock s) (\<lambda>_ s. Ok n s))"

definition used_pages :: "'z kmst_scheme \<Rightarrow> (int, 'z kmst_scheme) out" where
  "used_pages s = andthen (free_pages s) (\<lambda>n s. Ok (total_pages s - n) s)"

definition kfree :: "addr \<Rightarrow> 'z kmst_scheme \<Rightarrow> (unit, 'z kmst_scheme) out" where
  "kfree v s =
     (if v mod PGSIZE \<noteq> 0 \<or> v < kend s \<or> PHYSTOP \<le> V2P v then Panic ''kfree''
      else andthen (kmem_lock s) (\<lambda>_ s.
        let s = (if 0 < km_references_count s (frame (V2P v))
                 then set_ref (V2P v) (km_references_count s (frame (V2P v)) - 1) s else s);
            s = s\<lparr>km_free_pages := km_free_pages s + 1\<rparr> in
        if km_references_count s (frame (V2P v)) \<noteq> 0 then kmem_unlock s
        else kmem_unlock (s\<lparr>mem := st32 (memset v 1 PGSIZE (mem s)) v (km_freelist s),
                            km_freelist := v\<rparr>)))"

definition kalloc :: "'z kmst_scheme \<Rightarrow> (addr, 'z kmst_scheme) out" where
  "kalloc s =
     andthen (kmem_lock s) (\<lambda>_ s.
     let r = km_freelist s in
     if r \<noteq> 0 \<and> NFRAMES \<le> frame (V2P r) then Undef ''references_count''
     else andthen (kmem_unlock
         (if r \<noteq> 0 then set_ref (V2P r) 1
            (s\<lparr>km_freelist := ld32 (mem s) r, km_free_pages := km_free_pages s - 1\<rparr>) else s)) (\<lambda>_ s.
       Ok r s))"

text \<open>The loop of \<open>freerange\<close>; the pointer comparison is on addresses, so it does not wrap.\<close>

function freerange_loop :: "addr \<Rightarrow> addr \<Rightarrow> 'z kmst_scheme \<Rightarrow> (unit, 'z kmst_scheme) out" where
  "freerange_loop p vend s =
     (if unat p + 4096 \<le> unat vend
      then if NFRAMES \<le> frame (V2P p) then Undef ''references_count''
        else andthen (kfree p (set_ref (V2P p) 0 s)) (\<lambda>_ s. freerange_loop (p + PGSIZE) vend s)
      else Ok () s)"
  by pat_completeness auto

lemma unat_next_page:
  assumes "unat (p :: addr) + 4096 \<le> unat (vend :: addr)"
  shows "unat (p + 4096) = unat p + 4096"
  using assms unsigned_less [of vend, where 'a = nat] by (simp add: unat_word_ariths)

termination freerange_loop
  by (relation "measure (\<lambda>(p, vend, s). unat vend - unat p)") (auto simp: unat_next_page)

declare freerange_loop.simps [simp del]

definition freerange :: "addr \<Rightarrow> addr \<Rightarrow> 'z kmst_scheme \<Rightarrow> (unit, 'z kmst_scheme) out" where
  "freerange vstart vend s = freerange_loop (PGROUNDUP vstart) vend s"

definition kinit1 :: "addr \<Rightarrow> addr \<Rightarrow> 'z kmst_scheme \<Rightarrow> (unit, 'z kmst_scheme) out" where
  "kinit1 vstart vend s =
     freerange vstart vend
       (s\<lparr>hw := initlock LK_kmem ''kmem'' (hw s), km_use_lock := False, km_free_pages := 0\<rparr>)"

definition kinit2 :: "addr \<Rightarrow> addr \<Rightarrow> 'z kmst_scheme \<Rightarrow> (unit, 'z kmst_scheme) out" where
  "kinit2 vstart vend s =
     andthen (freerange vstart vend s) (\<lambda>_ s. Ok () (s\<lparr>km_use_lock := True\<rparr>))"

section \<open>The free list\<close>

text \<open>\<open>chain m p xs\<close>: following the links from \<open>p\<close> in memory \<open>m\<close> visits the pages \<open>xs\<close> and ends in 0.\<close>

primrec chain :: "memory \<Rightarrow> addr \<Rightarrow> addr list \<Rightarrow> bool" where
  "chain m p [] \<longleftrightarrow> p = 0"
| "chain m p (x # xs) \<longleftrightarrow> p = x \<and> x \<noteq> 0 \<and> chain m (ld32 m x) xs"

definition kpage :: "'z kmst_scheme \<Rightarrow> addr \<Rightarrow> bool" where
  "kpage s x \<longleftrightarrow> page_aligned x \<and> kend s \<le> x \<and> V2P x < PHYSTOP"

definition kmem_inv :: "'z kmst_scheme \<Rightarrow> addr list \<Rightarrow> bool" where
  "kmem_inv s xs \<longleftrightarrow> chain (mem s) (km_freelist s) xs \<and> distinct xs \<and>
     (\<forall>x \<in> set xs. kpage s x \<and> km_references_count s (frame (V2P x)) = 0)"

definition kmem_ready :: "'z kmst_scheme \<Rightarrow> bool" where
  "kmem_ready s \<longleftrightarrow> (km_use_lock s \<longrightarrow> free LK_kmem (hw s))"

lemma chain_cong:
  assumes "\<And>x. x \<in> set xs \<Longrightarrow> ld32 m' x = ld32 m x"
  shows "chain m' p xs = chain m p xs"
  using assms by (induction xs arbitrary: p) auto

lemma chain_head: "chain m p xs \<Longrightarrow> p = (case xs of [] \<Rightarrow> 0 | x # _ \<Rightarrow> x)"
  by (cases xs) auto

lemma frame_div: "frame v = unat v div 4096"
  by (simp add: frame_def unat_drop_bit_eq drop_bit_eq_div unat_div)

lemma unat_V2P:
  assumes "V2P x < PHYSTOP"
  shows "unat x = unat (V2P x) + 0x80000000"
proof -
  have "unat (P2V (V2P x)) = unat (V2P x) + 0x80000000"
    using assms unfolding P2V_def by (simp add: unat_word_ariths word_less_nat_alt)
  then show ?thesis by simp
qed

lemma V2P_page:
  assumes "page_aligned x" and "V2P x < PHYSTOP"
  shows "page_aligned (V2P x)" and "frame (V2P x) < NFRAMES" and "x \<noteq> 0"
proof -
  show "frame (V2P x) < NFRAMES"
    using assms(2) by (auto simp: frame_div word_less_nat_alt)
  have "unat (V2P x) + 0x80000000 = unat x" using unat_V2P [OF assms(2)] by simp
  then show "page_aligned (V2P x)"
    using assms(1) dvd_add_left_iff [of 4096 "0x80000000" "unat (V2P x)"]
    unfolding page_aligned_iff by simp
  show "x \<noteq> 0" using assms(2) by (auto simp: V2P_def)
qed

lemma kpageD:
  assumes "kpage s x"
  shows "page_aligned x" and "x \<noteq> 0" and "frame (V2P x) < NFRAMES" and "page_aligned (V2P x)"
  using assms V2P_page by (auto simp: kpage_def)

lemma frame_inj:
  assumes "page_aligned x" and "page_aligned y"
  shows "frame x = frame y \<longleftrightarrow> x = y"
  using assms by (auto simp: frame_div page_aligned_iff elim!: dvdE) (metis unsigned_word_eqI)

lemma frame_V2P_inj: "kpage s x \<Longrightarrow> kpage s y \<Longrightarrow> frame (V2P x) = frame (V2P y) \<longleftrightarrow> x = y"
  by (metis frame_inj kpageD(4) P2V_V2P)

lemma set_ref_frame [simp]:
  "hw (set_ref v c s) = hw s" "mem (set_ref v c s) = mem s" "kend (set_ref v c s) = kend s"
  "km_use_lock (set_ref v c s) = km_use_lock s" "km_freelist (set_ref v c s) = km_freelist s"
  "km_free_pages (set_ref v c s) = km_free_pages s" "ptable (set_ref v c s) = ptable s"
  "slocks (set_ref v c s) = slocks s" "kmst.more (set_ref v c s) = kmst.more s"
  "selection (set_ref v c s) = selection s" "kdata (set_ref v c s) = kdata s" "kbuffer (set_ref v c s) = kbuffer s"
  "initproc (set_ref v c s) = initproc s" "nextpid (set_ref v c s) = nextpid s"
  "km_references_count (set_ref v c s) = (km_references_count s)(frame v := c)"
  "set_ref v c (s\<lparr>hw := h\<rparr>) = (set_ref v c s)\<lparr>hw := h\<rparr>"
  by (simp_all add: set_ref_def)

text \<open>With the allocator's lock free, the locked sections run to completion.\<close>

lemma kmem_section [lock_simps]:
  assumes "kmem_ready s"
  shows "kmem_lock s = Ok () (if km_use_lock s then s\<lparr>hw := acq LK_kmem (hw s)\<rparr> else s)"
    and "km_use_lock t = km_use_lock s \<Longrightarrow> hw t = (if km_use_lock s then acq LK_kmem (hw s) else hw s) \<Longrightarrow>
      kmem_unlock t = Ok () (t\<lparr>hw := hw s\<rparr>)"
  using assms by (auto simp: kmem_lock_def kmem_unlock_def kmem_ready_def lock_simps)

definition lfree :: "addr \<Rightarrow> 'z kmst_scheme \<Rightarrow> 'z kmst_scheme" where
  "lfree v s = s\<lparr>mem := st32 (memset v 1 PGSIZE (mem s)) v (km_freelist s), km_freelist := v\<rparr>"

definition decref :: "addr \<Rightarrow> 'z kmst_scheme \<Rightarrow> 'z kmst_scheme" where
  "decref v s = (let c = km_references_count s (frame (V2P v)) in
     (if 0 < c then set_ref (V2P v) (c - 1) s else s)\<lparr>km_free_pages := km_free_pages s + 1\<rparr>)"

lemma word_eq_1: "c \<noteq> 0 \<Longrightarrow> \<not> 1 < c \<Longrightarrow> c = 1" for c :: u32
  by (metis linorder_less_linear word_less_1)

lemma kfree_eval:
  assumes "kmem_ready s" and "kpage s v"
  shows "kfree v s = Ok () (if 1 < km_references_count s (frame (V2P v)) then decref v s
    else lfree v (decref v s))"
proof -
  have "v mod 4096 = 0"
    using assms(2) by (simp add: kpage_def macro_forms take_bit_eq_mod)
  then show ?thesis
    using assms word_eq_1 by (auto simp: kfree_def kpage_def lock_simps decref_def lfree_def Let_def word_gt_0)
qed

definition lalloc :: "addr \<Rightarrow> 'z kmst_scheme \<Rightarrow> 'z kmst_scheme" where
  "lalloc x s = set_ref (V2P x) 1
     (s\<lparr>km_freelist := ld32 (mem s) x, km_free_pages := km_free_pages s - 1\<rparr>)"

lemma kmem_inv_nil: "kmem_inv s [] \<longleftrightarrow> km_freelist s = 0"
  by (simp add: kmem_inv_def)

lemma kmem_inv_ConsD:
  "kmem_inv s (x # xs) \<Longrightarrow> km_freelist s = x \<and> kpage s x \<and> x \<notin> set xs"
  by (auto simp: kmem_inv_def)

lemma kalloc_eval:
  assumes "kmem_ready s" and "kmem_inv s xs"
  shows "kalloc s = (case xs of [] \<Rightarrow> Ok 0 s | x # _ \<Rightarrow> Ok x (lalloc x s))"
proof (cases xs)
  case Nil
  then show ?thesis using assms by (simp add: kmem_inv_nil kalloc_def lock_simps)
next
  case (Cons x ys)
  then have x: "km_freelist s = x" "kpage s x" using assms(2) kmem_inv_ConsD by blast+
  note kpageD [OF x(2)]
  then show ?thesis
    using assms(1) x(1) Cons by (auto simp: kalloc_def lock_simps lalloc_def set_ref_def)
qed

lemma kpage_cong [simp]:
  "kpage (lalloc x s) = kpage s" "kpage (decref v s) = kpage s" "kpage (lfree v s) = kpage s"
  "kpage (s\<lparr>km_use_lock := b\<rparr>) = kpage s" "kpage (set_ref v c s) = kpage s"
  "kpage (s\<lparr>km_free_pages := n\<rparr>) = kpage s" "kpage (s\<lparr>hw := h\<rparr>) = kpage s" "kpage (s\<lparr>mem := m\<rparr>) = kpage s"
  by (auto simp: kpage_def lalloc_def decref_def lfree_def Let_def fun_eq_iff)

lemma lalloc_inv:
  assumes "kmem_inv s (x # xs)"
  shows "kmem_inv (lalloc x s) xs"
proof -
  have "frame (V2P y) \<noteq> frame (V2P x)" if "y \<in> set xs" for y
    using that assms frame_V2P_inj [of s y x] by (auto simp: kmem_inv_def)
  then show ?thesis
    using assms unfolding kmem_inv_def kpage_cong by (auto simp: lalloc_def)
qed

lemma lfree_mem:
  assumes "page_aligned v" and "PGROUNDDOWN a \<noteq> v"
  shows "mem (lfree v s) a = mem s a"
proof -
  have "PGROUNDDOWN v = v" using PGROUNDDOWN_plus [OF assms(1), of 0] by simp
  then show ?thesis
    using assms st32_other_page [OF page_aligned_aligned4 [OF assms(1)], of a]
    by (simp add: lfree_def memset_fill fill_def in_page_iff)
qed

lemma lfree_chain:
  assumes "kmem_inv s xs" and "kpage s v" and "v \<notin> set xs"
    and "km_references_count s (frame (V2P v)) = 0"
  shows "kmem_inv (lfree v s) (v # xs)"
proof -
  have "ld32 (mem (lfree v s)) x = ld32 (mem s) x" if "x \<in> set xs" for x
  proof (rule ld32_page_cong)
    have x: "page_aligned x" "x \<noteq> v" using that assms(1,3) kpageD(1) by (auto simp: kmem_inv_def)
    show "aligned4 x" using x(1) by (rule page_aligned_aligned4)
    have "PGROUNDDOWN x = x" using PGROUNDDOWN_plus [OF x(1), of 0] by simp
    then show "mem (lfree v s) b = mem s b" if "PGROUNDDOWN b = PGROUNDDOWN x" for b
      using that x(2) lfree_mem [OF kpageD(1) [OF assms(2)], of b s] by simp
  qed
  then have "chain (mem (lfree v s)) (km_freelist s) xs"
    using assms(1) chain_cong [of xs "mem (lfree v s)" "mem s"] by (simp add: kmem_inv_def)
  then have "chain (mem (lfree v s)) v (v # xs)"
    using kpageD(2) [OF assms(2)] by (simp add: lfree_def)
  then show ?thesis
    using assms unfolding kmem_inv_def kpage_cong by (simp add: lfree_def)
qed

section \<open>Refinement of an abstract allocator\<close>

text \<open>The abstract state: the sequence of free pages and the number of references to each page.\<close>

record pagepool =
  pp_free :: "addr list"
  pp_refs :: "addr \<Rightarrow> nat"

definition pp_alloc :: "pagepool \<Rightarrow> addr \<times> pagepool" where
  "pp_alloc a = (case pp_free a of [] \<Rightarrow> (0, a)
     | x # xs \<Rightarrow> (x, \<lparr>pp_free = xs, pp_refs = (pp_refs a)(x := 1)\<rparr>))"

definition pp_release :: "addr \<Rightarrow> pagepool \<Rightarrow> pagepool" where
  "pp_release v a =
     (if 1 < pp_refs a v then a\<lparr>pp_refs := (pp_refs a)(v := pp_refs a v - 1)\<rparr>
      else \<lparr>pp_free = v # pp_free a, pp_refs = (pp_refs a)(v := 0)\<rparr>)"

definition kmem_abs :: "'z kmst_scheme \<Rightarrow> pagepool \<Rightarrow> bool" where
  "kmem_abs s a \<longleftrightarrow> kmem_inv s (pp_free a) \<and>
     (\<forall>x. kpage s x \<longrightarrow> pp_refs a x = unat (km_references_count s (frame (V2P x))))"

lemma kalloc_refines:
  assumes "kmem_ready s" and "kmem_abs s a"
  shows "succeeds (kalloc s) (\<lambda>r t. r = fst (pp_alloc a) \<and> kmem_abs t (snd (pp_alloc a)) \<and>
    kmem_ready t \<and> mem t = mem s)"
proof -
  have inv: "kmem_inv s (pp_free a)" using assms(2) by (simp add: kmem_abs_def)
  show ?thesis
  proof (cases "pp_free a")
    case Nil
    then show ?thesis using assms kalloc_eval [OF assms(1) inv] by (simp add: pp_alloc_def)
  next
    case (Cons x xs)
    note x = kmem_inv_ConsD [OF inv [unfolded Cons]]
    have "kmem_abs (lalloc x s) (snd (pp_alloc a))"
      using assms(2) lalloc_inv [OF inv [unfolded Cons]] x frame_V2P_inj [of s _ x]
      unfolding kmem_abs_def kpage_cong by (auto simp: pp_alloc_def Cons lalloc_def)
    then show ?thesis
      using kalloc_eval [OF assms(1) inv] Cons assms(1)
      by (simp add: pp_alloc_def kmem_ready_def lalloc_def)
  qed
qed

lemma kfree_refines:
  assumes "kmem_ready s" and "kmem_abs s a" and "kpage s v" and "v \<notin> set (pp_free a)"
  shows "succeeds (kfree v s) (\<lambda>_ t. kmem_abs t (pp_release v a) \<and> kmem_ready t \<and>
    (\<forall>b. PGROUNDDOWN b \<noteq> v \<longrightarrow> mem t b = mem s b))"
proof -
  let ?c = "km_references_count s (frame (V2P v))"
  have inv: "kmem_inv s (pp_free a)" using assms(2) by (simp add: kmem_abs_def)
  have ref: "pp_refs a v = unat ?c" using assms(2,3) by (simp add: kmem_abs_def)
  have fr: "frame (V2P x) \<noteq> frame (V2P v)" if "x \<in> set (pp_free a)" for x
    using that inv assms(3,4) frame_V2P_inj [of s x v] by (auto simp: kmem_inv_def)
  have inv': "kmem_inv (decref v s) (pp_free a)"
    using inv fr unfolding kmem_inv_def kpage_cong by (auto simp: decref_def Let_def)
  have refs: "\<forall>x. kpage s x \<longrightarrow> ((pp_refs a)(v := pp_refs a v - 1)) x =
      unat (km_references_count (decref v s) (frame (V2P x)))"
    using assms(2,3) frame_V2P_inj [of s _ v]
    by (auto simp: kmem_abs_def decref_def Let_def unat_minus_one word_gt_0)
  show ?thesis
  proof (cases "1 < ?c")
    case True
    then have "1 < unat ?c" by (simp add: word_less_nat_alt)
    then show ?thesis
      using kfree_eval [OF assms(1,3)] True refs inv' assms(1) ref
      by (simp add: pp_release_def kmem_abs_def kmem_ready_def) (simp add: decref_def Let_def)
  next
    case False
    then have z: "km_references_count (decref v s) (frame (V2P v)) = 0"
      using word_eq_1 by (auto simp: decref_def Let_def word_gt_0)
    have le: "\<not> 1 < pp_refs a v" using False ref by (simp add: word_less_nat_alt)
    then have rel: "pp_release v a = \<lparr>pp_free = v # pp_free a, pp_refs = (pp_refs a)(v := pp_refs a v - 1)\<rparr>"
      by (simp add: pp_release_def)
    have "kmem_abs (lfree v (decref v s)) (pp_release v a)"
      using lfree_chain [OF inv', of v] assms(3,4) z refs
      unfolding kmem_abs_def rel kpage_cong by (simp add: lfree_def)
    moreover have "mem (lfree v (decref v s)) b = mem s b" if "PGROUNDDOWN b \<noteq> v" for b
      using lfree_mem [OF kpageD(1) [OF assms(3)] that, of "decref v s"] by (simp add: decref_def Let_def)
    ultimately show ?thesis
      using kfree_eval [OF assms(1,3)] False assms(1)
      by (simp add: kmem_ready_def) (simp add: lfree_def decref_def Let_def)
  qed
qed

section \<open>The contract of the allocator\<close>

text \<open>
  What the callers of \<open>kalloc\<close> and \<open>kfree\<close> rely on. \<open>ok\<close> is the invariant of the provider, \<open>avail\<close> its
  set of free pages, \<open>pool\<close> all the pages it manages and \<open>memo\<close> the contents of memory. Allocation
  never changes memory; releasing a page may change that page only.
\<close>

primrec alloc_n :: "('s \<Rightarrow> (addr, 's) out) \<Rightarrow> nat \<Rightarrow> 's \<Rightarrow> (addr list, 's) out" where
  "alloc_n alloc 0 s = Ok [] s"
| "alloc_n alloc (Suc n) s =
     andthen (alloc s) (\<lambda>r s. andthen (alloc_n alloc n s) (\<lambda>rs s. Ok (r # rs) s))"

locale page_alloc =
  fixes ok :: "'s \<Rightarrow> bool"
    and avail :: "'s \<Rightarrow> addr set"
    and pool :: "'s \<Rightarrow> addr set"
    and memo :: "'s \<Rightarrow> memory"
    and alloc :: "'s \<Rightarrow> (addr, 's) out"
    and release :: "addr \<Rightarrow> 's \<Rightarrow> (unit, 's) out"
    and shared :: "'s \<Rightarrow> addr \<Rightarrow> bool"
  assumes avail_pool: "ok s \<Longrightarrow> finite (avail s) \<and> avail s \<subseteq> pool s"
    and pool_page: "x \<in> pool s \<Longrightarrow> page_aligned x \<and> x \<noteq> 0 \<and> V2P x < PHYSTOP"
    and alloc_law: "ok s \<Longrightarrow> succeeds (alloc s) (\<lambda>r t. ok t \<and> memo t = memo s \<and> pool t = pool s \<and>
      (if avail s = {} then r = 0 \<and> t = s else r \<in> avail s \<and> avail t = avail s - {r} \<and> \<not> shared t r))"
    and release_law: "ok s \<Longrightarrow> v \<in> pool s - avail s \<Longrightarrow> succeeds (release v s) (\<lambda>_ t. ok t \<and> pool t = pool s \<and>
      avail t = (if shared s v then avail s else insert v (avail s)) \<and>
      (\<forall>b. PGROUNDDOWN b \<noteq> v \<longrightarrow> memo t b = memo s b))"
begin

lemma alloc_release:
  assumes "ok s" and "avail s \<noteq> {}"
  shows "succeeds (andthen (alloc s) (\<lambda>r t. release r t)) (\<lambda>_ t. ok t \<and> avail t = avail s)"
proof -
  have "succeeds (release r t) (\<lambda>_ u. ok u \<and> avail u = avail s)"
    if "ok t" "pool t = pool s" "r \<in> avail s" "avail t = avail s - {r}" "\<not> shared t r" for r t
    using that avail_pool [OF assms(1)] by (intro succeeds_mono [OF release_law]) auto
  then show ?thesis
    using assms(2) by (auto intro!: succeeds_mono [OF alloc_law [OF assms(1)]] split: if_splits)
qed

lemma alloc_n_fresh:
  assumes "ok s" and "n \<le> card (avail s)"
  shows "succeeds (alloc_n alloc n s) (\<lambda>rs t. ok t \<and> memo t = memo s \<and> pool t = pool s \<and>
    length rs = n \<and> distinct rs \<and> set rs \<subseteq> avail s \<and> avail t = avail s - set rs)"
  using assms
proof (induction n arbitrary: s)
  case (Suc n)
  then have ne: "avail s \<noteq> {}" by auto
  have "succeeds (alloc_n alloc n t) (\<lambda>rs u. ok u \<and> memo u = memo s \<and> pool u = pool s \<and>
      length rs = n \<and> distinct (r # rs) \<and> set (r # rs) \<subseteq> avail s \<and> avail u = avail s - set (r # rs))"
    if "ok t" "memo t = memo s" "pool t = pool s" "r \<in> avail s" "avail t = avail s - {r}" for r t
    using that Suc.prems avail_pool [OF Suc.prems(1)]
    by (intro succeeds_mono [OF Suc.IH [of t]]) (auto simp: card_Diff_singleton)
  then show ?case
    using ne by (auto intro!: succeeds_mono [OF alloc_law [OF Suc.prems(1)]] split: if_splits)
qed simp

end

definition km_ok :: "'z kmst_scheme \<Rightarrow> bool" where
  "km_ok s \<longleftrightarrow> kmem_ready s \<and> (\<exists>xs. kmem_inv s xs)"

definition km_avail :: "'z kmst_scheme \<Rightarrow> addr set" where
  "km_avail s = {x. \<exists>xs. kmem_inv s xs \<and> x \<in> set xs}"

definition km_pool :: "'z kmst_scheme \<Rightarrow> addr set" where
  "km_pool s = {x. kpage s x}"

definition km_shared :: "'z kmst_scheme \<Rightarrow> addr \<Rightarrow> bool" where
  "km_shared s v \<longleftrightarrow> 1 < km_references_count s (frame (V2P v))"

lemma chain_unique: "chain m p xs \<Longrightarrow> chain m p ys \<Longrightarrow> xs = ys"
proof (induction xs arbitrary: p ys)
  case Nil
  then show ?case by (cases ys) auto
next
  case (Cons x xs)
  then show ?case by (cases ys) auto
qed

lemma km_avail_set: "kmem_inv s xs \<Longrightarrow> km_avail s = set xs"
  unfolding km_avail_def kmem_inv_def using chain_unique by blast

definition kmem_pool :: "'z kmst_scheme \<Rightarrow> addr list \<Rightarrow> pagepool" where
  "kmem_pool s xs = \<lparr>pp_free = xs, pp_refs = (\<lambda>x. unat (km_references_count s (frame (V2P x))))\<rparr>"

lemma kmem_abs_pool: "kmem_inv s xs \<Longrightarrow> kmem_abs s (kmem_pool s xs)"
  by (simp add: kmem_abs_def kmem_pool_def)

lemma kalloc_law:
  assumes "km_ok s"
  shows "succeeds (kalloc s) (\<lambda>r t. km_ok t \<and> mem t = mem s \<and> km_pool t = km_pool s \<and>
    (if km_avail s = {} then r = 0 \<and> t = s
     else r \<in> km_avail s \<and> km_avail t = km_avail s - {r} \<and> \<not> km_shared t r))"
proof -
  obtain xs where xs: "kmem_ready s" "kmem_inv s xs" using assms by (auto simp: km_ok_def)
  show ?thesis
  proof (cases xs)
    case Nil
    then show ?thesis using xs assms kalloc_eval [OF xs] km_avail_set [OF xs(2)] by simp
  next
    case (Cons x ys)
    note inv = lalloc_inv [OF xs(2) [unfolded Cons]]
    have "km_avail (lalloc x s) = km_avail s - {x}"
      using km_avail_set [OF xs(2)] km_avail_set [OF inv] kmem_inv_ConsD [OF xs(2) [unfolded Cons]] Cons
      by auto
    moreover have "kmem_ready (lalloc x s)" using xs(1) by (simp add: kmem_ready_def lalloc_def)
    ultimately show ?thesis
      using kalloc_eval [OF xs] km_avail_set [OF xs(2)] inv Cons
      by (auto simp: km_ok_def km_pool_def km_shared_def) (auto simp: lalloc_def)
  qed
qed

lemma kfree_law:
  fixes s :: "'z kmst_scheme"
  assumes "km_ok s" and "v \<in> km_pool s - km_avail s"
  shows "succeeds (kfree v s) (\<lambda>_ t. km_ok t \<and> km_pool t = km_pool s \<and>
    km_avail t = (if km_shared s v then km_avail s else insert v (km_avail s)) \<and>
    (\<forall>b. PGROUNDDOWN b \<noteq> v \<longrightarrow> mem t b = mem s b))"
proof -
  obtain xs where xs: "kmem_ready s" "kmem_inv s xs" using assms by (auto simp: km_ok_def)
  have v: "kpage s v" "v \<notin> set xs" using assms(2) km_avail_set [OF xs(2)] by (auto simp: km_pool_def)
  let ?a = "kmem_pool s xs"
  have ev: "\<exists>t. kfree v s = Ok () t \<and> km_pool t = km_pool s"
    using kfree_eval [OF xs(1) v(1)] by (auto simp: km_pool_def)
  have "succeeds (kfree v s) (\<lambda>_ t. kmem_abs t (pp_release v ?a) \<and> kmem_ready t \<and>
      (\<forall>b. PGROUNDDOWN b \<noteq> v \<longrightarrow> mem t b = mem s b))"
    using v(2) by (intro kfree_refines [OF xs(1) kmem_abs_pool [OF xs(2)] v(1)]) (simp add: kmem_pool_def)
  moreover have "kmem_abs t (pp_release v ?a) \<Longrightarrow> (\<exists>ys. kmem_inv t ys) \<and>
      km_avail t = (if km_shared s v then km_avail s else insert v (km_avail s))" for t :: "'z kmst_scheme"
    using km_avail_set [of t] km_avail_set [OF xs(2)]
    by (auto simp: kmem_abs_def pp_release_def kmem_pool_def km_shared_def word_less_nat_alt)
  ultimately show ?thesis using ev by (auto simp: km_ok_def)
qed

interpretation pa: page_alloc km_ok km_avail km_pool mem kalloc kfree km_shared
proof
  show "finite (km_avail s) \<and> km_avail s \<subseteq> km_pool s" if "km_ok s" for s :: "'z kmst_scheme"
    using that km_avail_set by (fastforce simp: km_ok_def km_pool_def kmem_inv_def)
  show "page_aligned x \<and> x \<noteq> 0 \<and> V2P x < PHYSTOP" if "x \<in> km_pool s" for x and s :: "'z kmst_scheme"
    using that kpageD [of s x] by (auto simp: km_pool_def kpage_def)
qed (fact kalloc_law kfree_law)+

section \<open>Properties\<close>

text \<open>
  C9: the allocator implements the abstract page pool. From a state whose free list, threaded through
  memory, holds the pages of the pool and whose counters hold its reference counts, \<open>kalloc\<close> returns
  the pool's next page (0 when there is none) and leaves memory untouched, and \<open>kfree\<close> of a page that
  is not free drops one reference, puts the page back exactly when that was the last one, and writes
  to no other page; both re-establish the correspondence.
\<close>

theorem allocator_refines_pool:
  assumes "kmem_ready s" and "kmem_abs s a"
  shows "succeeds (kalloc s) (\<lambda>r t. r = fst (pp_alloc a) \<and> kmem_abs t (snd (pp_alloc a)) \<and>
      kmem_ready t \<and> mem t = mem s) \<and>
    (\<forall>v. kpage s v \<and> v \<notin> set (pp_free a) \<longrightarrow> succeeds (kfree v s) (\<lambda>_ t.
      kmem_abs t (pp_release v a) \<and> kmem_ready t \<and> (\<forall>b. PGROUNDDOWN b \<noteq> v \<longrightarrow> mem t b = mem s b)))"
  using kalloc_refines [OF assms] kfree_refines [OF assms] by blast

definition km0 :: kmst where
  "km0 = kst.extend kst0 \<lparr>slocks = \<lambda>_. \<lparr>sl_locked = False, sl_name = [], sl_pid = 0\<rparr>,
     selection = SCFIFO, mem = (\<lambda>_. 0), kend = 0x80120000, kdata = 0x80109000, kbuffer = 0x80110000,
     km_use_lock = True, km_freelist = 0,
     km_references_count = (\<lambda>_. 0), km_free_pages = 0\<rparr>"

lemma km0_sel [simp]:
  "selection km0 = SCFIFO" "kdata km0 = 0x80109000" "kbuffer km0 = 0x80110000"
  "hw km0 = cpu0" "mem km0 = (\<lambda>_. 0)" "kend km0 = 0x80120000" "km_use_lock km0" "km_freelist km0 = 0"
  "km_references_count km0 = (\<lambda>_. 0)" "km_free_pages km0 = 0" "ptable km0 = ptable kst0"
  by (simp_all add: km0_def kst.defs kst0_def)

lemma km0_ready [simp]: "kmem_ready km0"
  using quiet_simps(2) [OF cpu0_quiet] by (simp add: kmem_ready_def)

theorem allocator_refines_pool_witness:
  "succeeds (kalloc km0) (\<lambda>r t. r = 0) \<and>
   succeeds (kfree 0x80200000 km0) (\<lambda>_ t. kmem_abs t \<lparr>pp_free = [0x80200000], pp_refs = \<lambda>_. 0\<rparr>)"
proof -
  let ?a = "\<lparr>pp_free = [], pp_refs = \<lambda>_. 0\<rparr>"
  have a: "kmem_abs km0 ?a" by (simp add: kmem_abs_def kmem_inv_def)
  have v: "kpage km0 0x80200000" by (simp add: kpage_def page_aligned_def V2P_def)
  have r: "pp_release 0x80200000 ?a = \<lparr>pp_free = [0x80200000], pp_refs = \<lambda>_. 0\<rparr>"
    by (auto simp: pp_release_def)
  note t = allocator_refines_pool [OF km0_ready a]
  from t v have "succeeds (kfree 0x80200000 km0) (\<lambda>_ t. kmem_abs t (pp_release 0x80200000 ?a) \<and>
      kmem_ready t \<and> (\<forall>b. PGROUNDDOWN b \<noteq> 0x80200000 \<longrightarrow> mem t b = mem km0 b))" by simp
  then show ?thesis
    using t unfolding r by (auto simp: pp_alloc_def elim: succeeds_mono)
qed

text \<open>Boot: \<open>freerange\<close> frees every whole page of the range.\<close>

lemma kfree_unshared:
  assumes "kmem_ready s" and "kmem_inv s xs" and "kpage s v" and "v \<notin> set xs"
    and "km_references_count s (frame (V2P v)) \<le> 1"
  shows "succeeds (kfree v s) (\<lambda>_ t. kmem_ready t \<and> kmem_inv t (v # xs) \<and>
    km_free_pages t = km_free_pages s + 1 \<and> kend t = kend s)"
proof -
  let ?c = "km_references_count s (frame (V2P v))"
  have z: "?c = 0 \<or> ?c = 1" using assms(5) word_eq_1 by force
  have "kmem_inv (decref v s) xs"
    using assms(2-4) frame_V2P_inj [of s _ v] unfolding kmem_inv_def kpage_cong
    by (auto simp: decref_def Let_def)
  then have "kmem_inv (lfree v (decref v s)) (v # xs)"
    using assms(3,4) z by (intro lfree_chain) (auto simp: decref_def Let_def)
  then show ?thesis
    using kfree_eval [OF assms(1,3)] assms(1) z
    by (auto simp: kmem_ready_def) (auto simp: lfree_def decref_def Let_def)
qed

lemma kpage_in_range:
  assumes "page_aligned p" and "kend s \<le> p" and "0x80000000 \<le> p" and "unat p < 0x8E000000"
  shows "kpage s p"
proof -
  have "unat (V2P p) = unat p - 0x80000000"
    using assms(3) unfolding V2P_def by (subst unat_sub) auto
  then show ?thesis using assms by (simp add: kpage_def word_less_nat_alt)
qed

lemma set_ref_zero_inv: "kmem_inv s xs \<Longrightarrow> kmem_inv (set_ref v 0 s) xs"
  unfolding kmem_inv_def kpage_cong by simp

lemma pages_step:
  fixes p vend :: addr
  assumes "page_aligned p" and "unat p + 4096 \<le> unat vend"
  shows "{x. page_aligned x \<and> p \<le> x \<and> unat x + 4096 \<le> unat vend} =
    insert p {x. page_aligned x \<and> p + 4096 \<le> x \<and> unat x + 4096 \<le> unat vend}"
proof -
  have "p \<le> x \<longleftrightarrow> x = p \<or> p + 4096 \<le> x" if x: "page_aligned x" for x
  proof -
    have "unat p \<le> unat x \<longleftrightarrow> unat x = unat p \<or> unat p + 4096 \<le> unat x"
      using x assms(1) unfolding page_aligned_iff by (elim dvdE) auto
    then show ?thesis
      using unat_next_page [OF assms(2)] unsigned_word_eqI [of x p] by (auto simp: word_le_nat_alt)
  qed
  then show ?thesis using assms by auto
qed

lemma freerange_loop_ok:
  fixes s :: "'z kmst_scheme"
  assumes "kmem_ready s" and "kmem_inv s xs" and "page_aligned p" and "kend s \<le> p"
    and "unat vend \<le> 0x8E000000" and "\<And>x. x \<in> set xs \<Longrightarrow> x < p" and "0x80000000 \<le> p"
  shows "succeeds (freerange_loop p vend s) (\<lambda>_ t. kmem_ready t \<and> kend t = kend s \<and>
    (\<exists>ys. kmem_inv t (ys @ xs) \<and> km_free_pages t = km_free_pages s + of_nat (length ys) \<and>
      set ys = {x. page_aligned x \<and> p \<le> x \<and> unat x + 4096 \<le> unat vend}))"
  using assms
proof (induction p vend s arbitrary: xs rule: freerange_loop.induct)
  case (1 p vend s)
  show ?case
  proof (cases "unat p + 4096 \<le> unat vend")
    case False
    then show ?thesis
      using 1(2,3) by (subst freerange_loop.simps) (auto intro!: exI [of _ "[]"] simp: word_le_nat_alt)
  next
    case True
    note n = unat_next_page [OF True]
    have kp: "kpage s p" using True 1(4-8) by (intro kpage_in_range) auto
    have al: "page_aligned (p + 4096)"
      using 1(4) n unfolding page_aligned_iff by simp
    let ?s = "set_ref (V2P p) 0 s"
    have "succeeds (kfree p ?s) (\<lambda>_ t. kmem_ready t \<and> kmem_inv t (p # xs) \<and>
        km_free_pages t = km_free_pages s + 1 \<and> kend t = kend s)"
      using kfree_unshared [OF _ set_ref_zero_inv [OF 1(3)], of "V2P p" p] kp 1(2,7)
      by (auto simp: kmem_ready_def)
    moreover have "succeeds (freerange_loop (p + 4096) vend t) (\<lambda>_ u. kmem_ready u \<and> kend u = kend s \<and>
      (\<exists>ys. kmem_inv u (ys @ xs) \<and> km_free_pages u = km_free_pages s + of_nat (length ys) \<and>
        set ys = {x. page_aligned x \<and> p \<le> x \<and> unat x + 4096 \<le> unat vend}))"
      if t: "kmem_ready t" "kmem_inv t (p # xs)" "km_free_pages t = km_free_pages s + 1" "kend t = kend s"
      for t :: "'z kmst_scheme"
    proof (rule succeeds_mono [OF 1(1) [OF True _ t(1,2) al _ 1(6)]])
      show "\<not> NFRAMES \<le> frame (V2P p)" using kpageD(3) [OF kp] by simp
      show "kend t \<le> p + 4096" using 1(5) n t(4) by (simp add: word_le_nat_alt)
      show "0x80000000 \<le> p + 4096" using 1(8) n by (simp add: word_le_nat_alt)
      show "x < p + 4096" if "x \<in> set (p # xs)" for x
        using that 1(7) [of x] n by (auto simp: word_less_nat_alt)
    next
      fix u :: "'z kmst_scheme"
      assume u: "kmem_ready u \<and> kend u = kend t \<and> (\<exists>ys. kmem_inv u (ys @ p # xs) \<and>
        km_free_pages u = km_free_pages t + of_nat (length ys) \<and>
        set ys = {x. page_aligned x \<and> p + 4096 \<le> x \<and> unat x + 4096 \<le> unat vend})"
      then obtain ys where "kmem_inv u ((ys @ [p]) @ xs)"
        "km_free_pages u = km_free_pages s + of_nat (length (ys @ [p]))"
        "set (ys @ [p]) = {x. page_aligned x \<and> p \<le> x \<and> unat x + 4096 \<le> unat vend}"
        using t(3) pages_step [OF 1(4) True] by auto
      with u t(4) show "kmem_ready u \<and> kend u = kend s \<and>
        (\<exists>ys. kmem_inv u (ys @ xs) \<and> km_free_pages u = km_free_pages s + of_nat (length ys) \<and>
          set ys = {x. page_aligned x \<and> p \<le> x \<and> unat x + 4096 \<le> unat vend})" by metis
    qed
    ultimately show ?thesis
      using True kpageD(3) [OF kp] by (subst freerange_loop.simps) (auto elim!: succeeds_mono)
  qed
qed

lemma PGROUNDUP_le_iff:
  assumes "page_aligned x" and "unat v \<le> 0xFFFFF000"
  shows "PGROUNDUP v \<le> x \<longleftrightarrow> v \<le> x"
proof -
  obtain k where k: "unat x = 4096 * k" using assms(1) by (auto simp: page_aligned_iff)
  have "(unat v + 4095) div 4096 * 4096 \<le> 4096 * k \<longleftrightarrow> (unat v + 4095) div 4096 < Suc k" by auto
  also have "\<dots> \<longleftrightarrow> unat v \<le> 4096 * k" by (subst div_less_iff_less_mult) auto
  finally have "(unat v + 4095) div 4096 * 4096 \<le> 4096 * k \<longleftrightarrow> unat v \<le> 4096 * k" .
  then show ?thesis using k by (simp add: word_le_nat_alt unat_PGROUNDUP [OF assms(2)])
qed

lemma freerange_ok:
  assumes "kmem_ready s" and "kmem_inv s xs" and "kend s \<le> vstart" and "0x80000000 \<le> vstart"
    and "unat vstart \<le> unat vend" and "unat vend \<le> 0x8E000000" and "\<And>x. x \<in> set xs \<Longrightarrow> x < vstart"
  shows "succeeds (freerange vstart vend s) (\<lambda>_ t. kmem_ready t \<and> kend t = kend s \<and>
    (\<exists>ys. kmem_inv t (ys @ xs) \<and> km_free_pages t = km_free_pages s + of_nat (length ys) \<and>
      set ys = {x. page_aligned x \<and> vstart \<le> x \<and> unat x + 4096 \<le> unat vend}))"
proof -
  have v: "unat vstart \<le> 0xFFFFF000" using assms(5,6) by simp
  have up: "vstart \<le> PGROUNDUP vstart"
    using v by (simp add: word_le_nat_alt unat_PGROUNDUP)
  have "succeeds (freerange_loop (PGROUNDUP vstart) vend s) (\<lambda>_ t. kmem_ready t \<and> kend t = kend s \<and>
    (\<exists>ys. kmem_inv t (ys @ xs) \<and> km_free_pages t = km_free_pages s + of_nat (length ys) \<and>
      set ys = {x. page_aligned x \<and> PGROUNDUP vstart \<le> x \<and> unat x + 4096 \<le> unat vend}))"
    using up assms by (intro freerange_loop_ok) (auto intro: order_trans less_le_trans)
  moreover have "{x. page_aligned x \<and> PGROUNDUP vstart \<le> x \<and> unat x + 4096 \<le> unat vend} =
      {x. page_aligned x \<and> vstart \<le> x \<and> unat x + 4096 \<le> unat vend}"
    using PGROUNDUP_le_iff [OF _ v] by auto
  ultimately show ?thesis by (simp add: freerange_def)
qed

lemma kmem_inv_use_lock [simp]: "kmem_inv (u\<lparr>km_use_lock := b\<rparr>) zs = kmem_inv u zs"
  by (simp add: kmem_inv_def)

lemma kpage_ranges:
  assumes "0x80000000 \<le> kend s" and "kend s \<le> 0x80400000"
  shows "{x. page_aligned x \<and> 0x80400000 \<le> x \<and> unat x + 4096 \<le> 0x8E000000} \<union>
    {x. page_aligned x \<and> kend s \<le> x \<and> unat x + 4096 \<le> 0x80400000} = {x. kpage s x}"
proof -
  have "(page_aligned x \<and> 0x80400000 \<le> x \<and> unat x + 4096 \<le> 0x8E000000) \<or>
      (page_aligned x \<and> kend s \<le> x \<and> unat x + 4096 \<le> 0x80400000) \<longleftrightarrow> kpage s x" for x
  proof (cases "page_aligned x")
    case True
    then obtain k where k: "unat x = 4096 * k" by (auto simp: page_aligned_iff)
    have "V2P x < PHYSTOP" if "0x80000000 \<le> x" "unat x < 0x8E000000"
      using that kpage_in_range [of x "s\<lparr>kend := 0\<rparr>"] True by (simp add: kpage_def)
    moreover have "0x80000000 \<le> unat x \<and> unat x < 0x8E000000" if "V2P x < PHYSTOP"
      using unat_V2P [OF that] that by (simp add: word_less_nat_alt)
    ultimately show ?thesis using True assms k by (auto simp: kpage_def word_le_nat_alt)
  qed (simp add: kpage_def)
  then show ?thesis by blast
qed

text \<open>
  C28: boot hands every page of physical memory above the kernel to the allocator. With an empty list,
  \<open>kinit1(end, P2V(4 MB))\<close> followed by \<open>kinit2(P2V(4 MB), P2V(PHYSTOP))\<close>, as \<open>main\<close> calls them, returns
  with a well-formed free list that holds exactly the page-aligned addresses from \<open>end\<close> to \<open>PHYSTOP\<close>,
  each once, with the page counter equal to the length of the list and locking switched on.
\<close>

theorem boot_frees_all_memory:
  assumes "km_freelist s = 0" and "0x80000000 \<le> kend s" and "kend s \<le> 0x80400000"
    and "quiet (hw s)"
  shows "succeeds (andthen (kinit1 (kend s) (P2V 0x400000) s) (\<lambda>_ s. kinit2 (P2V 0x400000) (P2V PHYSTOP) s))
    (\<lambda>_ t. km_use_lock t \<and> (\<exists>ys. kmem_inv t ys \<and> set ys = {x. kpage s x} \<and>
      km_free_pages t = of_nat (length ys)))"
proof -
  let ?s = "s\<lparr>hw := initlock LK_kmem ''kmem'' (hw s), km_use_lock := False, km_free_pages := 0\<rparr>"
  have "succeeds (freerange (kend s) 0x80400000 ?s) (\<lambda>_ t. kmem_ready t \<and> kend t = kend ?s \<and>
    (\<exists>ys. kmem_inv t (ys @ []) \<and> km_free_pages t = km_free_pages ?s + of_nat (length ys) \<and>
      set ys = {x. page_aligned x \<and> kend s \<le> x \<and> unat x + 4096 \<le> unat (0x80400000 :: addr)}))"
    using assms by (intro freerange_ok) (auto simp: kmem_ready_def kmem_inv_def word_le_nat_alt)
  moreover have "succeeds (kinit2 0x80400000 0x8E000000 t) (\<lambda>_ u. km_use_lock u \<and> (\<exists>ys. kmem_inv u ys \<and>
      set ys = {x. kpage s x} \<and> km_free_pages u = of_nat (length ys)))"
    if t: "kmem_ready t" "kend t = kend s" "kmem_inv t xs" "km_free_pages t = of_nat (length xs)"
      "set xs = {x. page_aligned x \<and> kend s \<le> x \<and> unat x + 4096 \<le> 0x80400000}" for t xs
  proof -
    have "succeeds (freerange 0x80400000 0x8E000000 t) (\<lambda>_ u. kmem_ready u \<and> kend u = kend t \<and>
      (\<exists>ys. kmem_inv u (ys @ xs) \<and> km_free_pages u = km_free_pages t + of_nat (length ys) \<and>
      set ys = {x. page_aligned x \<and> 0x80400000 \<le> x \<and> unat x + 4096 \<le> unat (0x8E000000 :: addr)}))"
      using assms(3) t by (intro freerange_ok) (auto simp: word_le_nat_alt word_less_nat_alt)
    moreover have "set (ys @ xs) = {x. kpage s x}"
      if "set ys = {x. page_aligned x \<and> 0x80400000 \<le> x \<and> unat x + 4096 \<le> unat (0x8E000000 :: addr)}" for ys
      using that t(5) kpage_ranges [OF assms(2,3)] by simp
    ultimately show ?thesis
      using t(4) unfolding kinit2_def succeeds_andthen
      by (elim succeeds_mono) (clarsimp, rule_tac x = "ys @ xs" in exI, simp)
  qed
  ultimately show ?thesis
    by (simp add: kinit1_def P2V_def) (erule succeeds_mono, auto)
qed

theorem boot_frees_all_memory_witness:
  "succeeds (andthen (kinit1 0x80120000 (P2V 0x400000) km0) (\<lambda>_ s. kinit2 (P2V 0x400000) (P2V PHYSTOP) s))
    (\<lambda>_ t. \<exists>ys. kmem_inv t ys \<and> 0x80200000 \<in> set ys)"
proof -
  have "kpage km0 0x80200000" by (simp add: kpage_def page_aligned_def V2P_def)
  then show ?thesis
    using boot_frees_all_memory [of km0] cpu0_quiet by (auto elim!: succeeds_mono)
qed

text \<open>Releasing one page repeatedly, as the owners of a shared page do.\<close>

primrec kfree_times :: "nat \<Rightarrow> addr \<Rightarrow> 'z kmst_scheme \<Rightarrow> (unit, 'z kmst_scheme) out" where
  "kfree_times 0 v s = Ok () s"
| "kfree_times (Suc n) v s = andthen (kfree v s) (\<lambda>_ s. kfree_times n v s)"

lemma kfree_shared:
  assumes "kmem_ready s" and "kpage s v" and "1 < km_references_count s (frame (V2P v))"
  shows "kfree v s = Ok () (decref v s)"
    and "km_references_count (decref v s) = (km_references_count s)
      (frame (V2P v) := km_references_count s (frame (V2P v)) - 1)"
    and "kmem_ready (decref v s)" and "mem (decref v s) = mem s" and "km_freelist (decref v s) = km_freelist s"
proof -
  have "0 < km_references_count s (frame (V2P v))" using assms(3) by (auto simp: word_gt_0)
  then show "kfree v s = Ok () (decref v s)" and "km_references_count (decref v s) = (km_references_count s)
      (frame (V2P v) := km_references_count s (frame (V2P v)) - 1)"
    and "kmem_ready (decref v s)" and "mem (decref v s) = mem s" and "km_freelist (decref v s) = km_freelist s"
    using assms kfree_eval [OF assms(1,2)] by (simp_all add: decref_def kmem_ready_def)
qed

lemma decref_shared_inv:
  assumes "kmem_ready s" and "kmem_inv s xs" and "kpage s v" and "1 < km_references_count s (frame (V2P v))"
  shows "kmem_inv (decref v s) xs"
proof -
  have "frame (V2P x) \<noteq> frame (V2P v)" if "x \<in> set xs" for x
    using that assms(2,4) by (auto simp: kmem_inv_def)
  then show ?thesis
    using assms(2) kfree_shared [OF assms(1,3,4)] unfolding kmem_inv_def kpage_cong by simp
qed

lemma kfree_times_shared:
  assumes "kmem_ready s" and "kmem_inv s xs" and "kpage s v"
    and "k < unat (km_references_count s (frame (V2P v)))"
  shows "succeeds (kfree_times k v s) (\<lambda>_ t. kmem_ready t \<and> kmem_inv t xs \<and> kpage t = kpage s \<and> mem t = mem s \<and>
    unat (km_references_count t (frame (V2P v))) = unat (km_references_count s (frame (V2P v))) - k)"
  using assms
proof (induction k arbitrary: s)
  case (Suc k)
  let ?c = "km_references_count s (frame (V2P v))"
  have c: "1 < ?c" using Suc.prems(4) by (simp add: word_less_nat_alt)
  then have u: "unat (?c - 1) = unat ?c - 1" by (intro unat_minus_one) auto
  note f = kfree_shared [OF Suc.prems(1,3) c]
  have "succeeds (kfree_times k v (decref v s)) (\<lambda>_ t. kmem_ready t \<and> kmem_inv t xs \<and>
      kpage t = kpage (decref v s) \<and> mem t = mem (decref v s) \<and>
      unat (km_references_count t (frame (V2P v))) =
      unat (km_references_count (decref v s) (frame (V2P v))) - k)"
    using Suc.prems f(2,3) u decref_shared_inv [OF Suc.prems(1-3) c] by (intro Suc.IH) auto
  then show ?case using f u by (auto elim: succeeds_mono)
qed simp

lemma kfree_times_last: "kfree_times (Suc n) v s = andthen (kfree_times n v s) (\<lambda>_ s. kfree v s)"
proof (induction n arbitrary: s)
  case 0
  show ?case by (cases "kfree v s") simp_all
next
  case (Suc n)
  have "kfree_times (Suc (Suc n)) v s = andthen (kfree v s) (\<lambda>_ s. kfree_times (Suc n) v s)"
    by (rule kfree_times.simps)
  also have "\<dots> = andthen (andthen (kfree v s) (\<lambda>_ s. kfree_times n v s)) (\<lambda>_ s. kfree v s)"
    unfolding Suc.IH andthen_assoc ..
  finally show ?case by simp
qed

text \<open>
  C21: a page shared by copy-on-write goes back to the free list exactly when its last owner releases
  it. If its reference count is \<open>c > 0\<close> and it is not free, any \<open>k < c\<close> releases leave the free list
  and all of memory unchanged, and the \<open>c\<close>-th puts the page, once, in front of the free list.
\<close>

theorem shared_page_freed_by_last_owner:
  assumes "kmem_ready s" and "kmem_inv s xs" and "kpage s v" and "v \<notin> set xs"
    and "unat (km_references_count s (frame (V2P v))) = c" and "0 < c"
  shows "(\<forall>k < c. succeeds (kfree_times k v s) (\<lambda>_ t. kmem_inv t xs \<and> mem t = mem s)) \<and>
    succeeds (kfree_times c v s) (\<lambda>_ t. kmem_inv t (v # xs))"
proof
  show "\<forall>k < c. succeeds (kfree_times k v s) (\<lambda>_ t. kmem_inv t xs \<and> mem t = mem s)"
    using assms(5) by (auto intro!: succeeds_mono [OF kfree_times_shared [OF assms(1-3)]])
  obtain n where n: "c = Suc n" using assms(6) by (cases c) auto
  have "succeeds (kfree v t) (\<lambda>_ u. kmem_inv u (v # xs))"
    if "kmem_ready t" "kmem_inv t xs" "kpage t = kpage s" "unat (km_references_count t (frame (V2P v))) = 1" for t
    using that assms(3,4) by (auto intro!: succeeds_mono [OF kfree_unshared [of t xs v]] simp: word_le_nat_alt)
  then show "succeeds (kfree_times c v s) (\<lambda>_ t. kmem_inv t (v # xs))"
    unfolding n kfree_times_last succeeds_andthen
    using kfree_times_shared [OF assms(1-3), of n] assms(5) n by (auto elim!: succeeds_mono)
qed

definition km_cow :: kmst where
  "km_cow = set_ref (V2P 0x80200000) 3 km0"

lemma kpage_0x80200000: "kpage km0 0x80200000" "kpage km_cow 0x80200000"
  by (simp_all add: km_cow_def) (simp_all add: kpage_def page_aligned_def V2P_def)

lemma km_cow_ready: "kmem_ready km_cow" "kmem_inv km_cow []"
  using km0_ready by (simp_all add: km_cow_def kmem_ready_def kmem_inv_def)

theorem shared_page_freed_by_last_owner_witness:
  "succeeds (kfree_times 2 0x80200000 km_cow) (\<lambda>_ t. kmem_inv t [] \<and> mem t = mem km_cow) \<and>
   succeeds (kfree_times 3 0x80200000 km_cow) (\<lambda>_ t. kmem_inv t [0x80200000])"
proof -
  have "unat (km_references_count km_cow (frame (V2P 0x80200000))) = 3" by (simp add: km_cow_def)
  then show ?thesis
    using shared_page_freed_by_last_owner [OF km_cow_ready kpage_0x80200000(2), of 3] by simp
qed

text \<open>
  C39: \<open>kfree\<close> adds one to \<open>kmem.free_pages\<close> even when other references keep the page allocated, so the
  counter that \<open>free_pages()\<close> and \<open>used_pages()\<close> report drifts from the free list: if the two agreed
  before releasing a page with more than one reference, the list is unchanged afterwards and the
  counter is one too high.
\<close>

theorem kfree_shared_overcounts:
  assumes "kmem_ready s" and "kmem_inv s xs" and "kpage s v"
    and "1 < km_references_count s (frame (V2P v))" and "km_free_pages s = of_nat (length xs)"
  shows "\<exists>t. kfree v s = Ok () t \<and> kmem_inv t xs \<and> km_free_pages t = of_nat (length xs + 1)"
  using kfree_shared(1) [OF assms(1,3,4)] decref_shared_inv [OF assms(1-4)] assms(5)
  by (simp add: decref_def Let_def)

theorem kfree_shared_overcounts_witness:
  "\<exists>t. kfree 0x80200000 km_cow = Ok () t \<and> kmem_inv t [] \<and> km_free_pages t = 1"
  using kfree_shared_overcounts [OF km_cow_ready kpage_0x80200000(2)]
  by (simp add: km_cow_def)

end
