(* ===== verification/Bio.thy ===== *)
theory Bio
  imports Kalloc
begin

text \<open>
  The buffer cache (bio.c) on the synchronous disk of memide.c. A buffer is named by its index in
  \<open>bcache.buf\<close>; index NBUF is \<open>bcache.head\<close>, and \<open>prev\<close>/\<open>next\<close> are such indices. A block is a list of
  BSIZE bytes. The disk is a map from block numbers to blocks; \<open>dwrites\<close> is a ghost: the sequence of the
  block writes the disk has received, which the crash theorem of the log theory cuts at any point.

  The lemmas show that the links always form one ring through all buffers, in order of last release,
  and that a buffer that is valid and clean agrees with the disk.
\<close>

section \<open>Definitions\<close>

abbreviation (input) "BSIZE \<equiv> (512 :: nat)"
abbreviation (input) "NBUF \<equiv> (30 :: nat)"
abbreviation (input) "B_VALID \<equiv> (0x2 :: u32)"
abbreviation (input) "B_DIRTY \<equiv> (0x4 :: u32)"

type_synonym block = "byte list"

record buf =
  b_flags :: u32
  b_dev :: u32
  b_blockno :: u32
  b_refcnt :: u32
  b_prev :: nat
  b_next :: nat
  b_qnext :: "nat option"
  b_data :: block

record bst = kmst +
  bufs :: "buf list"
  disk :: "u32 \<Rightarrow> block"
  disksize :: u32
  dwrites :: "(u32 \<times> block) list"

definition upd_buf :: "nat \<Rightarrow> (buf \<Rightarrow> buf) \<Rightarrow> 'z bst_scheme \<Rightarrow> 'z bst_scheme" where
  "upd_buf i f s = s\<lparr>bufs := (bufs s)[i := f (bufs s ! i)]\<rparr>"

definition iderw :: "nat \<Rightarrow> 'z bst_scheme \<Rightarrow> (unit, 'z bst_scheme) out" where
  "iderw b s =
     andthen (holdingsleep (SL_buf b) s) (\<lambda>h s.
     let q = bufs s ! b in
     if \<not> h then Panic ''iderw: buf not locked''
     else if b_flags q AND (B_VALID OR B_DIRTY) = B_VALID then Panic ''iderw: nothing to do''
     else if b_dev q \<noteq> 1 then Panic ''iderw: request not for disk 1''
     else if disksize s \<le> b_blockno q then Panic ''iderw: block out of range''
     else let s = (if b_flags q AND B_DIRTY \<noteq> 0
         then (upd_buf b (\<lambda>q. q\<lparr>b_flags := b_flags q AND NOT B_DIRTY\<rparr>) s)
           \<lparr>disk := (disk s)(b_blockno q := b_data q), dwrites := dwrites s @ [(b_blockno q, b_data q)]\<rparr>
         else upd_buf b (\<lambda>q. q\<lparr>b_data := disk s (b_blockno q)\<rparr>) s) in
       Ok () (upd_buf b (\<lambda>q. q\<lparr>b_flags := b_flags q OR B_VALID\<rparr>) s))"

definition link_first :: "nat \<Rightarrow> 'z bst_scheme \<Rightarrow> 'z bst_scheme" where
  "link_first b s =
     (let s = upd_buf b (\<lambda>q. q\<lparr>b_next := b_next (bufs s ! NBUF), b_prev := NBUF\<rparr>) s;
          s = upd_buf (b_next (bufs s ! NBUF)) (\<lambda>q. q\<lparr>b_prev := b\<rparr>) s in
      upd_buf NBUF (\<lambda>q. q\<lparr>b_next := b\<rparr>) s)"

definition binit :: "'z bst_scheme \<Rightarrow> 'z bst_scheme" where
  "binit s =
     (let s = s\<lparr>hw := initlock LK_bcache ''bcache'' (hw s)\<rparr>;
          s = upd_buf NBUF (\<lambda>q. q\<lparr>b_prev := NBUF, b_next := NBUF\<rparr>) s in
      foldl (\<lambda>s b. link_first b (initsleeplock (SL_buf b) ''buffer'' s)) s [0..<NBUF])"

text \<open>
  The walk over the list from \<open>b\<close>, stopping at the head. The ring has NBUF buffers, so NBUF + 1 steps
  are enough (\<open>ring_find\<close>).
\<close>

primrec bscan ::
  "(buf \<Rightarrow> nat) \<Rightarrow> (buf \<Rightarrow> bool) \<Rightarrow> nat \<Rightarrow> nat \<Rightarrow> 'z bst_scheme \<Rightarrow> (nat option, 'z bst_scheme) out" where
  "bscan step P 0 b s = Hang ''bcache list''"
| "bscan step P (Suc n) b s =
     (if b = NBUF then Ok None s
      else if P (bufs s ! b) then Ok (Some b) s
      else bscan step P n (step (bufs s ! b)) s)"

definition bget :: "u32 \<Rightarrow> u32 \<Rightarrow> 'z bst_scheme \<Rightarrow> (nat, 'z bst_scheme) out" where
  "bget dev blockno s =
     andthen (kacquire LK_bcache s) (\<lambda>_ s.
     andthen (bscan b_next (\<lambda>q. b_dev q = dev \<and> b_blockno q = blockno) (NBUF + 1)
         (b_next (bufs s ! NBUF)) s) (\<lambda>r s.
     case r of
       Some b \<Rightarrow>
         let s = upd_buf b (\<lambda>q. q\<lparr>b_refcnt := b_refcnt q + 1\<rparr>) s in
         andthen (krelease LK_bcache s) (\<lambda>_ s.
         andthen (acquiresleep (SL_buf b) s) (\<lambda>_ s. Ok b s))
     | None \<Rightarrow>
         andthen (bscan b_prev (\<lambda>q. b_refcnt q = 0 \<and> b_flags q AND B_DIRTY = 0) (NBUF + 1)
             (b_prev (bufs s ! NBUF)) s) (\<lambda>r s.
         case r of
           Some b \<Rightarrow>
             let s = upd_buf b (\<lambda>q. q\<lparr>b_dev := dev, b_blockno := blockno, b_flags := 0, b_refcnt := 1\<rparr>) s in
             andthen (krelease LK_bcache s) (\<lambda>_ s.
             andthen (acquiresleep (SL_buf b) s) (\<lambda>_ s. Ok b s))
         | None \<Rightarrow> Panic ''bget: no buffers'')))"

definition bread :: "u32 \<Rightarrow> u32 \<Rightarrow> 'z bst_scheme \<Rightarrow> (nat, 'z bst_scheme) out" where
  "bread dev blockno s =
     andthen (bget dev blockno s) (\<lambda>b s.
     if b_flags (bufs s ! b) AND B_VALID = 0
     then andthen (iderw b s) (\<lambda>_ s. Ok b s) else Ok b s)"

definition bwrite :: "nat \<Rightarrow> 'z bst_scheme \<Rightarrow> (unit, 'z bst_scheme) out" where
  "bwrite b s =
     andthen (holdingsleep (SL_buf b) s) (\<lambda>h s.
     if \<not> h then Panic ''bwrite''
     else iderw b (upd_buf b (\<lambda>q. q\<lparr>b_flags := b_flags q OR B_DIRTY\<rparr>) s))"

definition unlink :: "nat \<Rightarrow> 'z bst_scheme \<Rightarrow> 'z bst_scheme" where
  "unlink b s =
     (let s = upd_buf (b_next (bufs s ! b)) (\<lambda>q. q\<lparr>b_prev := b_prev (bufs s ! b)\<rparr>) s in
      upd_buf (b_prev (bufs s ! b)) (\<lambda>q. q\<lparr>b_next := b_next (bufs s ! b)\<rparr>) s)"

definition brelse :: "nat \<Rightarrow> 'z bst_scheme \<Rightarrow> (unit, 'z bst_scheme) out" where
  "brelse b s =
     andthen (holdingsleep (SL_buf b) s) (\<lambda>h s.
     if \<not> h then Panic ''brelse''
     else andthen (releasesleep (SL_buf b) s) (\<lambda>_ s.
       andthen (kacquire LK_bcache s) (\<lambda>_ s.
       let s = upd_buf b (\<lambda>q. q\<lparr>b_refcnt := b_refcnt q - 1\<rparr>) s;
           s = (if b_refcnt (bufs s ! b) = 0 then link_first b (unlink b s) else s) in
       krelease LK_bcache s)))"

definition set_data :: "nat \<Rightarrow> block \<Rightarrow> 'z bst_scheme \<Rightarrow> 'z bst_scheme" where
  "set_data b d s = upd_buf b (\<lambda>q. q\<lparr>b_data := d\<rparr>) s"

section \<open>The ring of buffers\<close>

fun links :: "(nat \<Rightarrow> nat) \<Rightarrow> (nat \<Rightarrow> nat) \<Rightarrow> nat list \<Rightarrow> bool" where
  "links nx pv (x # y # zs) \<longleftrightarrow> nx x = y \<and> pv y = x \<and> links nx pv (y # zs)"
| "links nx pv _ \<longleftrightarrow> True"

lemma links_append: "links nx pv (xs @ y # zs) \<longleftrightarrow> links nx pv (xs @ [y]) \<and> links nx pv (y # zs)"
proof (induction xs)
  case (Cons x xs)
  then show ?case by (cases xs) auto
qed simp

lemma links_mid [simp]:
  "links nx pv (xs @ y # z # zs) \<longleftrightarrow> links nx pv (xs @ [y]) \<and> nx y = z \<and> pv z = y \<and> links nx pv (z # zs)"
  using links_append [of nx pv xs y "z # zs"] by simp

lemma links_cong:
  "(\<And>x. x \<in> set (butlast zs) \<Longrightarrow> nx x = nx' x) \<Longrightarrow> (\<And>x. x \<in> set (tl zs) \<Longrightarrow> pv x = pv' x) \<Longrightarrow>
   links nx pv zs = links nx' pv' zs"
proof (induction zs)
  case (Cons x zs)
  then show ?case by (cases zs) auto
qed simp

lemma links_rev: "links pv nx (rev zs) = links nx pv zs"
proof (induction zs)
  case (Cons x zs)
  then show ?case by (cases zs) auto
qed simp

lemma links_insert:
  assumes "links nx pv (h # zs @ [h])" and "distinct (b # h # zs)"
  shows "links (nx(b := nx h, h := b)) (pv(b := h, nx h := b)) (h # b # zs @ [h])"
proof -
  obtain n B where nB: "zs @ [h] = n # B" by (cases "zs @ [h]") auto
  have n: "nx h = n" "n \<noteq> b" using assms nB by (auto simp: Cons_eq_append_conv append_eq_Cons_conv)
  have "links (nx(b := nx h, h := b)) (pv(b := h, nx h := b)) (n # B) = links nx pv (n # B)"
  proof (rule links_cong)
    have "butlast (n # B) = zs" "set (tl (n # B)) \<subseteq> insert h (set zs) - {n}"
      using assms(2) unfolding nB [symmetric] by (auto simp: append_eq_Cons_conv nB) (cases zs; use nB in auto)+
    then show "\<And>x. x \<in> set (butlast (n # B)) \<Longrightarrow> (nx(b := nx h, h := b)) x = nx x"
      and "\<And>x. x \<in> set (tl (n # B)) \<Longrightarrow> (pv(b := h, nx h := b)) x = pv x"
      using assms(2) n by auto
  qed
  then show ?thesis using assms n by (simp add: nB)
qed

lemma links_remove:
  assumes "links nx pv (h # xs @ b # ys @ [h])" and "distinct (h # xs @ b # ys)"
  shows "links (nx(pv b := nx b)) (pv(nx b := pv b)) (h # xs @ ys @ [h])"
proof -
  obtain A q where Aq: "h # xs = A @ [q]" by (cases "h # xs" rule: rev_cases) auto
  obtain n B where nB: "ys @ [h] = n # B" by (cases "ys @ [h]") auto
  have eq: "h # xs @ b # ys @ [h] = A @ q # b # n # B" "h # xs @ ys @ [h] = A @ q # n # B"
    using Aq nB by (metis append.assoc append_Cons append_Nil)+
  have l: "links nx pv (A @ [q])" "links nx pv (n # B)" "nx b = n" "pv b = q"
    using assms(1) unfolding eq by simp_all
  have d: "q \<notin> set A" "n \<notin> set xs" "q \<notin> set ys" "n \<notin> set B"
    using assms(2) Aq nB by (cases xs rule: rev_cases; cases ys; auto)+
  have e: "butlast (A @ [q]) = A" "tl (A @ [q]) = xs" "butlast (n # B) = ys" "tl (n # B) = B"
    by (simp, metis Aq list.sel(3), metis nB butlast_snoc, simp)
  have "links (nx(q := n)) (pv(n := q)) (A @ [q]) = links nx pv (A @ [q])"
    using d by (intro links_cong; unfold e) auto
  moreover have "links (nx(q := n)) (pv(n := q)) (n # B) = links nx pv (n # B)"
    using d by (intro links_cong; unfold e) auto
  ultimately have "links (nx(q := n)) (pv(n := q)) (A @ [q])" "links (nx(q := n)) (pv(n := q)) (n # B)"
    using l(1,2) by simp_all
  then show ?thesis unfolding eq l(3,4) by simp
qed

definition ring :: "buf list \<Rightarrow> nat list \<Rightarrow> bool" where
  "ring bs l \<longleftrightarrow> length bs = NBUF + 1 \<and> distinct l \<and> set l = {..<NBUF} \<and>
     links (\<lambda>i. b_next (bs ! i)) (\<lambda>i. b_prev (bs ! i)) (NBUF # l @ [NBUF])"

lemma bscan_find:
  assumes "links (\<lambda>i. step (bufs s ! i)) pv (l @ [NBUF])" and "NBUF \<notin> set l" and "length l < n"
  shows "bscan step P n (hd (l @ [NBUF])) s = Ok (find (\<lambda>i. P (bufs s ! i)) l) s"
  using assms
proof (induction l arbitrary: n)
  case Nil
  then show ?case by (cases n) auto
next
  case (Cons b l)
  obtain m where n: "n = Suc m" using Cons.prems(3) by (cases n) auto
  obtain y zs where y: "l @ [NBUF] = y # zs" by (cases "l @ [NBUF]") auto
  then have "step (bufs s ! b) = hd (l @ [NBUF])" "links (\<lambda>i. step (bufs s ! i)) pv (l @ [NBUF])"
    using Cons.prems(1) by simp_all
  then show ?case using Cons.IH [of m] Cons.prems(2,3) by (auto simp: n)
qed

lemma ring_find:
  assumes "ring (bufs s) l"
  shows "bscan b_next P (NBUF + 1) (b_next (bufs s ! NBUF)) s = Ok (find (\<lambda>i. P (bufs s ! i)) l) s"
    and "bscan b_prev P (NBUF + 1) (b_prev (bufs s ! NBUF)) s = Ok (find (\<lambda>i. P (bufs s ! i)) (rev l)) s"
proof -
  let ?nx = "\<lambda>i. b_next (bufs s ! i)" and ?pv = "\<lambda>i. b_prev (bufs s ! i)"
  have l: "links ?nx ?pv (NBUF # l @ [NBUF])" "NBUF \<notin> set l" "length l = 30"
    using assms distinct_card [of l] by (auto simp: ring_def)
  have r: "links ?pv ?nx (NBUF # rev l @ [NBUF])" using l(1) links_rev [of ?pv ?nx "NBUF # l @ [NBUF]"] by simp
  have "\<exists>y zs. k @ [NBUF] = y # zs" for k :: "nat list" by (cases "k @ [NBUF]") auto
  then have "links nx pv (NBUF # k @ [NBUF]) \<Longrightarrow> nx NBUF = hd (k @ [NBUF]) \<and> links nx pv (k @ [NBUF])" for nx pv k
    by (metis links.simps(1) list.sel(1))
  from this [OF l(1)] this [OF r]
  show "bscan b_next P (NBUF + 1) (b_next (bufs s ! NBUF)) s = Ok (find (\<lambda>i. P (bufs s ! i)) l) s"
    and "bscan b_prev P (NBUF + 1) (b_prev (bufs s ! NBUF)) s = Ok (find (\<lambda>i. P (bufs s ! i)) (rev l)) s"
    using bscan_find [of b_next s ?pv l "NBUF + 1" P] bscan_find [of b_prev s ?nx "rev l" "NBUF + 1" P] l(2,3)
    by simp_all
qed

lemma bufs_upd [simp]:
  "bufs (upd_buf i f s) = (bufs s)[i := f (bufs s ! i)]" "disk (upd_buf i f s) = disk s"
  "dwrites (upd_buf i f s) = dwrites s" "hw (upd_buf i f s) = hw s" "ptable (upd_buf i f s) = ptable s"
  "slocks (upd_buf i f s) = slocks s" "disksize (upd_buf i f s) = disksize s" "bst.more (upd_buf i f s) = bst.more s"
  by (simp_all add: upd_buf_def)

text \<open>The links are independent of the other fields.\<close>

lemma ring_cong:
  "ring bs l \<Longrightarrow> length cs = length bs \<Longrightarrow>
   (\<And>i. i \<le> NBUF \<Longrightarrow> b_next (cs ! i) = b_next (bs ! i) \<and> b_prev (cs ! i) = b_prev (bs ! i)) \<Longrightarrow> ring cs l"
  unfolding ring_def
  by (subst links_cong [where nx' = "\<lambda>i. b_next (bs ! i)" and pv' = "\<lambda>i. b_prev (bs ! i)"]) auto

lemma fun_upd_links:
  "length bs = NBUF + 1 \<Longrightarrow> links nx pv zs \<Longrightarrow> set zs \<subseteq> {..NBUF} \<Longrightarrow>
   (\<And>i. i \<le> NBUF \<Longrightarrow> b_next (bs ! i) = nx i \<and> b_prev (bs ! i) = pv i) \<Longrightarrow>
   links (\<lambda>i. b_next (bs ! i)) (\<lambda>i. b_prev (bs ! i)) zs"
  using in_set_butlastD [of _ zs] list.set_sel(2) [of zs]
  by (subst links_cong [where nx' = nx and pv' = pv]) (cases "zs = []"; auto; blast)+

definition same_but_links :: "buf list \<Rightarrow> buf list \<Rightarrow> bool" where
  "same_but_links bs cs \<longleftrightarrow> length cs = length bs \<and>
     (\<forall>i < length bs. cs ! i = (bs ! i)\<lparr>b_next := b_next (cs ! i), b_prev := b_prev (cs ! i)\<rparr>)"

lemma same_but_links_trans: "same_but_links bs cs \<Longrightarrow> same_but_links cs ds \<Longrightarrow> same_but_links bs ds"
  unfolding same_but_links_def by (metis (no_types, lifting) buf.surjective buf.update_convs(5,6))

lemma same_but_links_upd:
  "f q = q\<lparr>b_next := b_next (f q), b_prev := b_prev (f q)\<rparr> \<Longrightarrow> q = bufs s ! i \<Longrightarrow>
   same_but_links (bufs s) (bufs (upd_buf i f s))"
  by (auto simp: same_but_links_def nth_update_if)

lemma unlink_links:
  assumes "length (bufs s) = NBUF + 1" "b_next (bufs s ! b) \<le> NBUF" "b_prev (bufs s ! b) \<le> NBUF"
    "b_next (bufs s ! b) \<noteq> b" "i \<le> NBUF"
  shows "b_next (bufs (unlink b s) ! i) = ((\<lambda>i. b_next (bufs s ! i))(b_prev (bufs s ! b) := b_next (bufs s ! b))) i"
    and "b_prev (bufs (unlink b s) ! i) = ((\<lambda>i. b_prev (bufs s ! i))(b_next (bufs s ! b) := b_prev (bufs s ! b))) i"
  using assms by (auto simp: unlink_def nth_list_update)

lemma link_first_links:
  assumes "length (bufs s) = NBUF + 1" "b < NBUF" "b_next (bufs s ! NBUF) \<le> NBUF" "i \<le> NBUF"
  shows "b_next (bufs (link_first b s) ! i) =
      ((\<lambda>i. b_next (bufs s ! i))(b := b_next (bufs s ! NBUF), NBUF := b)) i"
    and "b_prev (bufs (link_first b s) ! i) =
      ((\<lambda>i. b_prev (bufs s ! i))(b := NBUF, b_next (bufs s ! NBUF) := b)) i"
  using assms by (auto simp: link_first_def nth_list_update)

lemma link_first_ring:
  assumes len: "length (bufs s) = NBUF + 1" and d: "distinct (b # l)" and sub: "set (b # l) \<subseteq> {..<NBUF}"
    and l: "links (\<lambda>i. b_next (bufs s ! i)) (\<lambda>i. b_prev (bufs s ! i)) (NBUF # l @ [NBUF])"
  shows "links (\<lambda>i. b_next (bufs (link_first b s) ! i)) (\<lambda>i. b_prev (bufs (link_first b s) ! i)) (NBUF # b # l @ [NBUF])"
proof (rule fun_upd_links)
  have "\<exists>y zs. l @ [NBUF] = y # zs \<and> y \<in> set l \<union> {NBUF}" by (cases l) auto
  then have n: "b_next (bufs s ! NBUF) \<le> NBUF" using l sub by auto
  show "length (bufs (link_first b s)) = NBUF + 1" using len by (simp add: link_first_def)
  show "links ((\<lambda>i. b_next (bufs s ! i))(b := b_next (bufs s ! NBUF), NBUF := b))
      ((\<lambda>i. b_prev (bufs s ! i))(b := NBUF, b_next (bufs s ! NBUF) := b)) (NBUF # b # l @ [NBUF])"
    by (rule links_insert [OF l]) (use d sub in auto)
  show "set (NBUF # b # l @ [NBUF]) \<subseteq> {..NBUF}" using sub by auto
  show "b_next (bufs (link_first b s) ! i) = ((\<lambda>i. b_next (bufs s ! i))(b := b_next (bufs s ! NBUF), NBUF := b)) i \<and>
      b_prev (bufs (link_first b s) ! i) = ((\<lambda>i. b_prev (bufs s ! i))(b := NBUF, b_next (bufs s ! NBUF) := b)) i"
    if "i \<le> NBUF" for i using link_first_links [OF len _ n that] sub by auto
qed

lemma unlink_ring:
  assumes len: "length (bufs s) = NBUF + 1" and d: "distinct (xs @ b # ys)" and sub: "set (xs @ b # ys) \<subseteq> {..<NBUF}"
    and l: "links (\<lambda>i. b_next (bufs s ! i)) (\<lambda>i. b_prev (bufs s ! i)) (NBUF # xs @ b # ys @ [NBUF])"
  shows "links (\<lambda>i. b_next (bufs (unlink b s) ! i)) (\<lambda>i. b_prev (bufs (unlink b s) ! i)) (NBUF # xs @ ys @ [NBUF])"
proof (rule fun_upd_links)
  have "\<exists>y zs. ys @ [NBUF] = y # zs \<and> y \<in> set ys \<union> {NBUF}" by (cases ys) auto
  moreover have "\<exists>zs y. NBUF # xs = zs @ [y] \<and> y \<in> set xs \<union> {NBUF}" by (cases xs rule: rev_cases) auto
  ultimately obtain n A B q where e: "ys @ [NBUF] = n # B" "n \<in> set ys \<union> {NBUF}" "NBUF # xs = A @ [q]" "q \<in> set xs \<union> {NBUF}"
    by blast
  have "NBUF # xs @ b # ys @ [NBUF] = A @ q # b # n # B" using e(1,3) by (metis append.assoc append_Cons append_Nil)
  then have nq: "b_next (bufs s ! b) = n" "b_prev (bufs s ! b) = q" using l by simp_all
  have h: "b_next (bufs s ! b) \<le> NBUF" "b_prev (bufs s ! b) \<le> NBUF" "b_next (bufs s ! b) \<noteq> b"
    using e sub d unfolding nq by auto
  show "length (bufs (unlink b s)) = NBUF + 1" using len by (simp add: unlink_def)
  show "links ((\<lambda>i. b_next (bufs s ! i))(b_prev (bufs s ! b) := b_next (bufs s ! b)))
      ((\<lambda>i. b_prev (bufs s ! i))(b_next (bufs s ! b) := b_prev (bufs s ! b))) (NBUF # xs @ ys @ [NBUF])"
    by (rule links_remove [OF l]) (use d sub in auto)
  show "set (NBUF # xs @ ys @ [NBUF]) \<subseteq> {..NBUF}" using sub by auto
  show "b_next (bufs (unlink b s) ! i) = ((\<lambda>i. b_next (bufs s ! i))(b_prev (bufs s ! b) := b_next (bufs s ! b))) i \<and>
      b_prev (bufs (unlink b s) ! i) = ((\<lambda>i. b_prev (bufs s ! i))(b_next (bufs s ! b) := b_prev (bufs s ! b))) i"
    if "i \<le> NBUF" for i using unlink_links [OF len h that] by auto
qed

lemma move_first:
  assumes "ring (bufs s) l" and b: "b < NBUF"
  shows "ring (bufs (link_first b (unlink b s))) (b # remove1 b l)"
    and "same_but_links (bufs s) (bufs (link_first b (unlink b s)))"
proof -
  have "b \<in> set l" using assms by (auto simp: ring_def)
  then obtain xs ys where l: "l = xs @ b # ys" by (auto dest: split_list)
  have d: "distinct (xs @ b # ys)" and st: "set (xs @ b # ys) = {..<NBUF}" and len: "length (bufs s) = NBUF + 1"
    and lk: "links (\<lambda>i. b_next (bufs s ! i)) (\<lambda>i. b_prev (bufs s ! i)) (NBUF # xs @ b # ys @ [NBUF])"
    using assms(1) unfolding ring_def l by simp_all
  have r: "remove1 b l = xs @ ys" using d by (simp add: l remove1_append)
  have len': "length (bufs (unlink b s)) = NBUF + 1" using len by (simp add: unlink_def)
  from unlink_ring [OF len d equalityD1 [OF st] lk]
  have lu: "links (\<lambda>i. b_next (bufs (unlink b s) ! i)) (\<lambda>i. b_prev (bufs (unlink b s) ! i)) (NBUF # (xs @ ys) @ [NBUF])"
    by simp
  have st': "set (b # (xs @ ys)) = {..<NBUF}" and d': "distinct (b # (xs @ ys))" using st d by auto
  have "length (bufs (link_first b (unlink b s))) = NBUF + 1" using len' by (simp add: link_first_def)
  with link_first_ring [OF len' d' equalityD1 [OF st'] lu] st' d'
  show "ring (bufs (link_first b (unlink b s))) (b # remove1 b l)" unfolding ring_def r by simp
  show "same_but_links (bufs s) (bufs (link_first b (unlink b s)))"
    unfolding unlink_def link_first_def Let_def
    by (rule same_but_links_trans [OF same_but_links_trans [OF same_but_links_trans [OF same_but_links_trans]]];
        rule same_but_links_upd) simp_all
qed

section \<open>Sequential behaviour\<close>

lemma hw_upd_buf [simp]: "upd_buf i f (s\<lparr>hw := h\<rparr>) = (upd_buf i f s)\<lparr>hw := h\<rparr>"
  by (simp add: upd_buf_def)

lemma hw_same [simp]: "hw t = h \<Longrightarrow> t\<lparr>hw := h\<rparr> = t"
  by auto

lemma bget_eval:
  assumes "runs (hw s) p" and "ring (bufs s) l"
  shows "bget dev b s = (case find (\<lambda>i. b_dev (bufs s ! i) = dev \<and> b_blockno (bufs s ! i) = b) l of
      Some i \<Rightarrow> andthen (acquiresleep (SL_buf i) (upd_buf i (\<lambda>q. q\<lparr>b_refcnt := b_refcnt q + 1\<rparr>) s)) (\<lambda>_ s. Ok i s)
    | None \<Rightarrow> (case find (\<lambda>i. b_refcnt (bufs s ! i) = 0 \<and> b_flags (bufs s ! i) AND B_DIRTY = 0) (rev l) of
        Some i \<Rightarrow> andthen (acquiresleep (SL_buf i)
          (upd_buf i (\<lambda>q. q\<lparr>b_dev := dev, b_blockno := b, b_flags := 0, b_refcnt := 1\<rparr>) s)) (\<lambda>_ s. Ok i s)
      | None \<Rightarrow> Panic ''bget: no buffers''))"
proof -
  have q: "quiet (hw s)" using assms(1) by (simp add: runs_def)
  note f = ring_find [of "s\<lparr>hw := acq LK_bcache (hw s)\<rparr>" l]
  show ?thesis
    using assms(2) quiet_simps [OF q] f unfolding bget_def
    by (auto simp: lock_simps Let_def split: option.split)
qed

abbreviation (input) valid :: "buf \<Rightarrow> bool" where "valid q \<equiv> b_flags q AND B_VALID \<noteq> 0"
abbreviation (input) dirty :: "buf \<Rightarrow> bool" where "dirty q \<equiv> b_flags q AND B_DIRTY \<noteq> 0"

text \<open>
  The cache while process \<open>p\<close> runs a file system operation alone and holds the buffers \<open>H\<close>: each of
  them is locked by \<open>p\<close> and valid, all others are unreferenced, and a clean one agrees with the disk.
\<close>

definition buf_ok :: "nat \<Rightarrow> nat set \<Rightarrow> 'z bst_scheme \<Rightarrow> nat \<Rightarrow> bool" where
  "buf_ok p H s i \<longleftrightarrow> (let q = bufs s ! i; l = slocks s (SL_buf i) in
     (if i \<in> H then b_refcnt q = 1 \<and> sl_locked l \<and> sl_pid l = p_pid (ptable s ! p) \<and> valid q
      else b_refcnt q = 0 \<and> \<not> sl_locked l \<and> (valid q \<and> \<not> dirty q \<longrightarrow> b_data q = disk s (b_blockno q))) \<and>
     (dirty q \<longrightarrow> valid q) \<and> (valid q \<longrightarrow> b_dev q = 1))"

definition bc_ok :: "nat \<Rightarrow> nat set \<Rightarrow> 'z bst_scheme \<Rightarrow> bool" where
  "bc_ok p H s \<longleftrightarrow> runs (hw s) p \<and> p < length (ptable s) \<and> H \<subseteq> {..<NBUF} \<and> (\<exists>l. ring (bufs s) l) \<and>
     (\<forall>i < NBUF. buf_ok p H s i) \<and>
     (\<forall>i < NBUF. \<forall>j < NBUF. b_dev (bufs s ! i) = 1 \<and> b_dev (bufs s ! j) = 1 \<and>
       b_blockno (bufs s ! i) = b_blockno (bufs s ! j) \<longrightarrow> i = j)"

definition bcached :: "'z bst_scheme \<Rightarrow> u32 \<Rightarrow> nat option" where
  "bcached s b = find (\<lambda>i. valid (bufs s ! i) \<and> b_blockno (bufs s ! i) = b) [0..<NBUF]"

definition bview :: "'z bst_scheme \<Rightarrow> u32 \<Rightarrow> block" where
  "bview s b = (case bcached s b of Some i \<Rightarrow> b_data (bufs s ! i) | None \<Rightarrow> disk s b)"

definition dirties :: "'z bst_scheme \<Rightarrow> u32 set" where
  "dirties s = {b_blockno (bufs s ! i) | i. i < NBUF \<and> dirty (bufs s ! i)}"

definition bio_only :: "'z bst_scheme \<Rightarrow> 'z bst_scheme \<Rightarrow> bool" where
  "bio_only s t \<longleftrightarrow> hw t = hw s \<and> initproc t = initproc s \<and> nextpid t = nextpid s \<and>
     map (p_state_update (\<lambda>_. UNUSED)) (ptable t) = map (p_state_update (\<lambda>_. UNUSED)) (ptable s) \<and>
     (\<forall>i. (\<forall>b. i \<noteq> SL_buf b) \<longrightarrow> slocks t i = slocks s i) \<and> selection t = selection s \<and> mem t = mem s \<and>
     kend t = kend s \<and> kdata t = kdata s \<and> kbuffer t = kbuffer s \<and> km_use_lock t = km_use_lock s \<and>
     km_freelist t = km_freelist s \<and> km_references_count t = km_references_count s \<and>
     km_free_pages t = km_free_pages s \<and> disksize t = disksize s \<and> bst.more t = bst.more s"

lemma bio_only_trans: "bio_only s t \<Longrightarrow> bio_only t u \<Longrightarrow> bio_only s u"
  unfolding bio_only_def by metis

lemma bc_okD:
  assumes "bc_ok p H s"
  shows "runs (hw s) p" "p < length (ptable s)" "H \<subseteq> {..<NBUF}" "i < NBUF \<Longrightarrow> buf_ok p H s i"
    "i < NBUF \<Longrightarrow> j < NBUF \<Longrightarrow> b_dev (bufs s ! i) = 1 \<Longrightarrow> b_dev (bufs s ! j) = 1 \<Longrightarrow>
      b_blockno (bufs s ! i) = b_blockno (bufs s ! j) \<Longrightarrow> i = j"
    "length (bufs s) = NBUF + 1"
  using assms by (auto simp: bc_ok_def ring_def)

lemma bview_cached:
  assumes "bc_ok p H s" and "i < NBUF" and "valid (bufs s ! i)"
  shows "bview s (b_blockno (bufs s ! i)) = b_data (bufs s ! i)"
proof -
  have "bcached s (b_blockno (bufs s ! i)) = Some i"
    unfolding bcached_def using assms bc_okD(4,5) [OF assms(1)]
    by (intro find_unique) (auto simp: buf_ok_def Let_def)
  then show ?thesis by (simp add: bview_def)
qed

lemma bview_uncached: "(\<And>i. i < NBUF \<Longrightarrow> valid (bufs s ! i) \<Longrightarrow> b_blockno (bufs s ! i) \<noteq> b) \<Longrightarrow> bview s b = disk s b"
  by (force simp: bview_def bcached_def split: option.splits dest!: find_SomeD)

text \<open>Two states have the same view if the valid buffers and the disk agree on every block.\<close>

lemma bview_eqI:
  assumes s: "bc_ok p H s" and t: "bc_ok p' H' t"
    and v: "\<And>i. i < NBUF \<Longrightarrow> valid (bufs s ! i) \<Longrightarrow> b_blockno (bufs s ! i) = b \<Longrightarrow>
      (\<exists>j < NBUF. valid (bufs t ! j) \<and> b_blockno (bufs t ! j) = b \<and> b_data (bufs t ! j) = b_data (bufs s ! i)) \<or>
      (disk t b = b_data (bufs s ! i) \<and> (\<forall>j < NBUF. valid (bufs t ! j) \<longrightarrow> b_blockno (bufs t ! j) \<noteq> b))"
    and w: "\<And>j. j < NBUF \<Longrightarrow> valid (bufs t ! j) \<Longrightarrow> b_blockno (bufs t ! j) = b \<Longrightarrow>
      (\<forall>i < NBUF. valid (bufs s ! i) \<longrightarrow> b_blockno (bufs s ! i) \<noteq> b) \<Longrightarrow> b_data (bufs t ! j) = disk s b"
    and d: "(\<forall>i < NBUF. valid (bufs s ! i) \<longrightarrow> b_blockno (bufs s ! i) \<noteq> b) \<Longrightarrow> disk t b = disk s b"
  shows "bview t b = bview s b"
proof (cases "\<exists>i < NBUF. valid (bufs s ! i) \<and> b_blockno (bufs s ! i) = b")
  case True
  then obtain i where i: "i < NBUF" "valid (bufs s ! i)" "b_blockno (bufs s ! i) = b" by blast
  then show ?thesis using v [OF i] bview_cached [OF s i(1,2)] bview_cached [OF t] bview_uncached [of t b] by metis
next
  case False
  then have sv: "bview s b = disk s b" by (intro bview_uncached) auto
  show ?thesis
  proof (cases "\<exists>j < NBUF. valid (bufs t ! j) \<and> b_blockno (bufs t ! j) = b")
    case True
    then show ?thesis using w False sv bview_cached [OF t] by metis
  next
    case F: False
    then have "bview t b = disk t b" by (intro bview_uncached) auto
    moreover have "disk t b = disk s b" by (rule d) (use False in blast)
    ultimately show ?thesis using sv by simp
  qed
qed

definition busy :: "nat set \<Rightarrow> 'z bst_scheme \<Rightarrow> nat set" where
  "busy H s = H \<union> {i. i < NBUF \<and> dirty (bufs s ! i)}"

text \<open>The state after a buffer has been found or recycled for a block and locked.\<close>

definition locked_buf :: "nat \<Rightarrow> nat \<Rightarrow> buf \<Rightarrow> 'z bst_scheme \<Rightarrow> 'z bst_scheme" where
  "locked_buf p i q s = upd_slock (SL_buf i) (\<lambda>l. l\<lparr>sl_locked := True, sl_pid := p_pid (ptable s ! p)\<rparr>)
     (s\<lparr>bufs := (bufs s)[i := q]\<rparr>)"

lemma locked_buf_sel [simp]:
  "hw (locked_buf p i q s) = hw s" "ptable (locked_buf p i q s) = ptable s" "disk (locked_buf p i q s) = disk s"
  "bufs (locked_buf p i q s) = (bufs s)[i := q]" "disksize (locked_buf p i q s) = disksize s"
  "dwrites (locked_buf p i q s) = dwrites s" "sl_locked (slocks (locked_buf p i q s) (SL_buf i))"
  "sl_pid (slocks (locked_buf p i q s) (SL_buf i)) = p_pid (ptable s ! p)"
  "j \<noteq> SL_buf i \<Longrightarrow> slocks (locked_buf p i q s) j = slocks s j"
  by (simp_all add: locked_buf_def upd_slock_def)

lemma bio_only_locked [simp]: "bio_only s (locked_buf p i q s)"
  by (auto simp: bio_only_def locked_buf_def upd_slock_def)

lemma bget_locks:
  assumes ok: "bc_ok p H s" and nh: "\<And>i. i \<in> H \<Longrightarrow> b_blockno (bufs s ! i) \<noteq> b"
    and room: "card (busy H s) < NBUF"
  shows "\<exists>i q. i < NBUF \<and> i \<notin> H \<and> bget 1 b s = Ok i (locked_buf p i q s) \<and>
    b_dev q = 1 \<and> b_blockno q = b \<and> b_refcnt q = 1 \<and> b_next q = b_next (bufs s ! i) \<and> b_prev q = b_prev (bufs s ! i) \<and>
    (\<forall>j < NBUF. b_dev (bufs s ! j) = 1 \<and> b_blockno (bufs s ! j) = b \<longrightarrow> j = i) \<and>
    (if valid q then q = (bufs s ! i)\<lparr>b_refcnt := 1\<rparr>
     else \<not> dirty q \<and> \<not> dirty (bufs s ! i) \<and> (\<forall>j < NBUF. valid (bufs s ! j) \<longrightarrow> b_blockno (bufs s ! j) \<noteq> b))"
proof -
  obtain l where l: "ring (bufs s) l" using ok by (auto simp: bc_ok_def)
  then have sl: "set l = {..<NBUF}" by (simp add: ring_def)
  note ev = bget_eval [OF bc_okD(1) [OF ok] l, of 1 b]
  have free: "\<not> sl_locked (slocks s (SL_buf i))" "b_refcnt (bufs s ! i) = 0"
    if "i < NBUF" "i \<notin> H" for i using bc_okD(4) [OF ok that(1)] that(2) by (auto simp: buf_ok_def Let_def)
  have acq: "acquiresleep (SL_buf i) (upd_buf i f s) = Ok () (locked_buf p i (f (bufs s ! i)) s)"
    if "i < NBUF" "i \<notin> H" for i f
    using acquiresleep_runs [of "upd_buf i f s" p "SL_buf i"] bc_okD(1) [OF ok] free(1) [OF that]
    by (simp add: locked_buf_def upd_buf_def)
  have v: "valid (bufs s ! j) \<Longrightarrow> b_dev (bufs s ! j) = 1" "dirty (bufs s ! j) \<Longrightarrow> valid (bufs s ! j)"
    if "j < NBUF" for j using bc_okD(4) [OF ok that] by (auto simp: buf_ok_def Let_def)
  show ?thesis
  proof (cases "find (\<lambda>i. b_dev (bufs s ! i) = 1 \<and> b_blockno (bufs s ! i) = b) l")
    case (Some i)
    then have i: "i < NBUF" "b_dev (bufs s ! i) = 1" "b_blockno (bufs s ! i) = b" using find_SomeD [OF Some] sl by auto
    then have iH: "i \<notin> H" using nh by auto
    have uniq: "j = i" if "j < NBUF" "b_dev (bufs s ! j) = 1" "b_blockno (bufs s ! j) = b" for j
      using bc_okD(5) [OF ok that(1) i(1)] that i by simp
    let ?q = "(bufs s ! i)\<lparr>b_refcnt := 1\<rparr>"
    have g: "bget 1 b s = Ok i (locked_buf p i ?q s)"
      using ev Some acq [OF i(1) iH] free(2) [OF i(1) iH] by simp
    have u: "\<forall>j < NBUF. b_dev (bufs s ! j) = 1 \<and> b_blockno (bufs s ! j) = b \<longrightarrow> j = i" using uniq by blast
    have nv: "\<forall>j < NBUF. valid (bufs s ! j) \<longrightarrow> b_blockno (bufs s ! j) \<noteq> b" if "\<not> valid (bufs s ! i)"
      using that uniq v(1) by blast
    have nd: "\<not> dirty (bufs s ! i)" if "\<not> valid (bufs s ! i)" using that v(2) [OF i(1)] by blast
    have c: "if valid ?q then ?q = (bufs s ! i)\<lparr>b_refcnt := 1\<rparr>
      else \<not> dirty ?q \<and> \<not> dirty (bufs s ! i) \<and> (\<forall>j < NBUF. valid (bufs s ! j) \<longrightarrow> b_blockno (bufs s ! j) \<noteq> b)"
      using nv nd by simp
    show ?thesis by (intro exI [of _ i] exI [of _ ?q] conjI) (rule g u iH c i(1) | simp add: i)+
  next
    case None
    then have no: "b_blockno (bufs s ! j) \<noteq> b" if "j < NBUF" "b_dev (bufs s ! j) = 1" for j
      using that sl by (auto simp: find_None_iff)
    have "busy H s \<noteq> {..<NBUF}" "busy H s \<subseteq> {..<NBUF}"
      using room bc_okD(3) [OF ok] by (auto simp: busy_def)
    then obtain k where "k < NBUF" "k \<notin> H" "\<not> dirty (bufs s ! k)" by (auto simp: busy_def)
    then have "find (\<lambda>i. b_refcnt (bufs s ! i) = 0 \<and> b_flags (bufs s ! i) AND B_DIRTY = 0) (rev l) \<noteq> None"
      using free(2) sl by (auto simp: find_None_iff)
    then obtain i where fi: "find (\<lambda>i. b_refcnt (bufs s ! i) = 0 \<and> b_flags (bufs s ! i) AND B_DIRTY = 0) (rev l) = Some i"
      by blast
    have i: "i < NBUF" "b_refcnt (bufs s ! i) = 0" "\<not> dirty (bufs s ! i)" using find_SomeD [OF fi] sl by auto
    have iH: "i \<notin> H" using i bc_okD(4) [OF ok i(1)] by (auto simp: buf_ok_def Let_def split: if_splits)
    have "bget 1 b s = Ok i (locked_buf p i ((bufs s ! i)\<lparr>b_dev := 1, b_blockno := b, b_flags := 0, b_refcnt := 1\<rparr>) s)"
      using ev None fi acq [OF i(1) iH] by simp
    then show ?thesis
      using i iH no v(1)
      by (intro exI [of _ i] exI [of _ "(bufs s ! i)\<lparr>b_dev := 1, b_blockno := b, b_flags := 0, b_refcnt := 1\<rparr>"]) auto
  qed
qed

lemma or_flag [simp]: "(x OR m) AND m = m" "(x AND NOT m) AND m = 0" for x m :: u32
  by (rule bit_word_eqI; auto simp: bit_simps)+

lemma other_flag [simp]:
  "(x OR B_VALID) AND B_DIRTY = x AND B_DIRTY" "(x OR B_DIRTY) AND B_VALID = x AND B_VALID"
  "(x AND NOT B_DIRTY) AND B_VALID = x AND B_VALID" for x :: u32
  by (simp_all add: bit.conj_disj_distrib2) (simp add: and.assoc)

lemma not_just_valid: "x AND B_VALID = 0 \<or> x AND B_DIRTY \<noteq> 0 \<Longrightarrow> x AND (B_VALID OR B_DIRTY) \<noteq> B_VALID" for x :: u32
proof (erule contrapos_pn)
  assume e: "x AND (B_VALID OR B_DIRTY) = B_VALID"
  have "x AND B_VALID = (x AND (B_VALID OR B_DIRTY)) AND B_VALID" "x AND B_DIRTY = (x AND (B_VALID OR B_DIRTY)) AND B_DIRTY"
    by (simp_all add: and.assoc)
  then show "\<not> (x AND B_VALID = 0 \<or> x AND B_DIRTY \<noteq> 0)" unfolding e by simp
qed

lemma bread_locks:
  assumes ok: "bc_ok p H s" and nh: "\<And>i. i \<in> H \<Longrightarrow> b_blockno (bufs s ! i) \<noteq> b"
    and room: "card (busy H s) < NBUF" and lim: "b < disksize s"
  shows "\<exists>i q. i < NBUF \<and> i \<notin> H \<and> bread 1 b s = Ok i (locked_buf p i q s) \<and>
    b_dev q = 1 \<and> b_blockno q = b \<and> b_refcnt q = 1 \<and> b_next q = b_next (bufs s ! i) \<and> b_prev q = b_prev (bufs s ! i) \<and>
    (\<forall>j < NBUF. b_dev (bufs s ! j) = 1 \<and> b_blockno (bufs s ! j) = b \<longrightarrow> j = i) \<and>
    valid q \<and> dirty q = dirty (bufs s ! i) \<and> b_data q = bview s b \<and>
    (b_blockno (bufs s ! i) \<noteq> b \<longrightarrow> \<not> dirty (bufs s ! i))"
proof -
  obtain i q where i: "i < NBUF" "i \<notin> H" and g: "bget 1 b s = Ok i (locked_buf p i q s)"
    and q: "b_dev q = 1" "b_blockno q = b" "b_refcnt q = 1" "b_next q = b_next (bufs s ! i)" "b_prev q = b_prev (bufs s ! i)"
    and u: "\<forall>j < NBUF. b_dev (bufs s ! j) = 1 \<and> b_blockno (bufs s ! j) = b \<longrightarrow> j = i"
    and c: "if valid q then q = (bufs s ! i)\<lparr>b_refcnt := 1\<rparr>
     else \<not> dirty q \<and> \<not> dirty (bufs s ! i) \<and> (\<forall>j < NBUF. valid (bufs s ! j) \<longrightarrow> b_blockno (bufs s ! j) \<noteq> b)"
    using bget_locks [OF ok nh room] by blast
  have len: "i < length (bufs s)" using i(1) bc_okD(6) [OF ok] by simp
  let ?t = "locked_buf p i q s"
  have tb: "bufs ?t ! i = q" using len by simp
  show ?thesis
  proof (cases "valid q")
    case True
    then have qe: "q = (bufs s ! i)\<lparr>b_refcnt := 1\<rparr>" using c by (simp only: if_True not_False_eq_True)
    have fl: "b_flags q = b_flags (bufs s ! i)" "b_blockno q = b_blockno (bufs s ! i)" "b_data q = b_data (bufs s ! i)"
      by (simp_all add: qe)
    then have "valid (bufs s ! i)" "b_blockno (bufs s ! i) = b" "b_data q = b_data (bufs s ! i)" "dirty q = dirty (bufs s ! i)"
      using True q(2) by simp_all
    then have d: "b_data q = bview s b" using bview_cached [OF ok i(1)] by simp
    have r: "bread 1 b s = Ok i ?t" using True g tb by (simp add: bread_def)
    show ?thesis
      by (intro exI [of _ i] exI [of _ q] conjI impI)
        (rule i r q u True d | use \<open>dirty q = _\<close> \<open>b_blockno (bufs s ! i) = b\<close> in simp)+
  next
    case False
    have nd: "\<not> dirty q" "\<not> dirty (bufs s ! i)" and nv: "\<forall>j < NBUF. valid (bufs s ! j) \<longrightarrow> b_blockno (bufs s ! j) \<noteq> b"
      using c [unfolded if_not_P [OF False]] by blast+
    let ?q = "q\<lparr>b_data := disk s b, b_flags := b_flags q OR B_VALID\<rparr>"
    have "holdingsleep (SL_buf i) ?t = Ok True ?t"
      using holdingsleep_runs [of ?t p "SL_buf i"] bc_okD(1) [OF ok] by simp
    moreover have "b_flags q AND (B_VALID OR B_DIRTY) \<noteq> B_VALID" using False by (intro not_just_valid) simp
    moreover have "upd_buf i (\<lambda>q. q\<lparr>b_flags := b_flags q OR B_VALID\<rparr>)
        (upd_buf i (\<lambda>q. q\<lparr>b_data := disk s (b_blockno q)\<rparr>) ?t) = locked_buf p i ?q s"
      using len q(2) by (simp add: locked_buf_def upd_slock_def upd_buf_def)
    ultimately have "iderw i ?t = Ok () (locked_buf p i ?q s)"
      using tb q(1,2) nd(1) lim unfolding iderw_def by (simp add: Let_def not_le)
    then have r: "bread 1 b s = Ok i (locked_buf p i ?q s)" using False g tb by (simp add: bread_def)
    have vb: "bview s b = disk s b" using nv by (intro bview_uncached) blast
    have ndq: "b_flags q AND B_DIRTY = 0" "b_flags (bufs s ! i) AND B_DIRTY = 0" using nd by simp_all
    show ?thesis
      by (intro exI [of _ i] exI [of _ ?q] conjI impI) (rule i r u | simp add: q ndq vb)+
  qed
qed

text \<open>The effect of an operation on what the client of the cache sees; \<open>H\<close> are the buffers it keeps.\<close>

definition same_held :: "nat set \<Rightarrow> 'z bst_scheme \<Rightarrow> 'z bst_scheme \<Rightarrow> bool" where
  "same_held H s t \<longleftrightarrow> (\<forall>j \<in> H. b_blockno (bufs t ! j) = b_blockno (bufs s ! j) \<and> b_data (bufs t ! j) = b_data (bufs s ! j))"

definition broom :: "nat set \<Rightarrow> 'z bst_scheme \<Rightarrow> bool" where
  "broom H s \<longleftrightarrow> card H + card (dirties s) < NBUF"

lemma broom_busy:
  assumes "bc_ok p H s" and "broom H s"
  shows "card (busy H s) < NBUF"
proof -
  let ?D = "{i. i < NBUF \<and> dirty (bufs s ! i)}"
  have dev: "b_dev (bufs s ! i) = 1" if "i \<in> ?D" for i
    using that bc_okD(4) [OF assms(1), of i] by (simp add: buf_ok_def Let_def)
  have "inj_on (\<lambda>i. b_blockno (bufs s ! i)) ?D"
    using dev bc_okD(5) [OF assms(1)] by (intro inj_onI) blast
  moreover have "dirties s = (\<lambda>i. b_blockno (bufs s ! i)) ` ?D" by (auto simp: dirties_def)
  ultimately have "card (dirties s) = card ?D" by (simp add: card_image)
  then show ?thesis using assms(2) card_Un_le [of H ?D] by (simp add: busy_def broom_def)
qed

lemma dirties_cong:
  assumes "\<And>i. i < NBUF \<Longrightarrow> dirty (bufs t ! i) = dirty (bufs s ! i)"
    and "\<And>i. i < NBUF \<Longrightarrow> dirty (bufs s ! i) \<Longrightarrow> b_blockno (bufs t ! i) = b_blockno (bufs s ! i)"
  shows "dirties t = dirties s"
  using assms unfolding dirties_def by (metis (mono_tags, lifting))

lemma bc_ok_replace:
  assumes ok: "bc_ok p H s" and i: "i < NBUF"
    and nth: "\<And>j. j \<le> NBUF \<Longrightarrow> bufs t ! j = (if j = i then q else bufs s ! j)" and len: "length (bufs t) = NBUF + 1"
    and lk: "b_next q = b_next (bufs s ! i)" "b_prev q = b_prev (bufs s ! i)"
    and uq: "\<And>j. j < NBUF \<Longrightarrow> j \<noteq> i \<Longrightarrow> b_dev (bufs s ! j) = 1 \<Longrightarrow> b_blockno (bufs s ! j) \<noteq> b_blockno q"
    and oki: "buf_ok p H' t i" and okj: "\<And>j. j < NBUF \<Longrightarrow> j \<noteq> i \<Longrightarrow> buf_ok p H' t j"
    and rest: "H' \<subseteq> {..<NBUF}" "runs (hw t) p" "p < length (ptable t)"
  shows "bc_ok p H' t"
proof -
  obtain l where "ring (bufs s) l" using ok by (auto simp: bc_ok_def)
  then have ring: "ring (bufs t) l" by (rule ring_cong) (use nth lk len bc_okD(6) [OF ok] in auto)
  have "j = k" if "j < NBUF" "k < NBUF" "b_dev (bufs t ! j) = 1" "b_dev (bufs t ! k) = 1"
      "b_blockno (bufs t ! j) = b_blockno (bufs t ! k)" for j k
    using that uq [OF that(1)] uq [OF that(2)] bc_okD(5) [OF ok that(1,2)] nth [of j] nth [of k]
    by (cases "j = i"; cases "k = i") auto
  then have "\<forall>j < NBUF. \<forall>k < NBUF. b_dev (bufs t ! j) = 1 \<and> b_dev (bufs t ! k) = 1 \<and>
      b_blockno (bufs t ! j) = b_blockno (bufs t ! k) \<longrightarrow> j = k" by blast
  moreover have "\<forall>j < NBUF. buf_ok p H' t j" using oki okj by blast
  ultimately show ?thesis unfolding bc_ok_def using rest ring by blast
qed

lemma bread_spec:
  assumes ok: "bc_ok p H s" and nh: "\<And>i. i \<in> H \<Longrightarrow> b_blockno (bufs s ! i) \<noteq> b"
    and room: "broom H s" and lim: "b < disksize s"
  shows "succeeds (bread 1 b s) (\<lambda>i t. i \<notin> H \<and> bc_ok p (insert i H) t \<and> b_blockno (bufs t ! i) = b \<and>
    b_data (bufs t ! i) = bview s b \<and> bview t = bview s \<and> disk t = disk s \<and> dwrites t = dwrites s \<and>
    dirties t = dirties s \<and> same_held H s t \<and> bio_only s t)"
proof -
  obtain i q where i: "i < NBUF" "i \<notin> H" and r: "bread 1 b s = Ok i (locked_buf p i q s)"
    and q: "b_dev q = 1" "b_blockno q = b" "b_refcnt q = 1" "b_next q = b_next (bufs s ! i)" "b_prev q = b_prev (bufs s ! i)"
    and u: "\<forall>j < NBUF. b_dev (bufs s ! j) = 1 \<and> b_blockno (bufs s ! j) = b \<longrightarrow> j = i"
    and v: "valid q" "dirty q = dirty (bufs s ! i)" "b_data q = bview s b"
    and nd: "b_blockno (bufs s ! i) \<noteq> b \<longrightarrow> \<not> dirty (bufs s ! i)"
    using bread_locks [OF ok nh broom_busy [OF ok room] lim] by blast
  let ?t = "locked_buf p i q s"
  have nth: "bufs ?t ! j = (if j = i then q else bufs s ! j)" if "j \<le> NBUF" for j
    using that i(1) bc_okD(6) [OF ok] by (simp add: nth_update_if)
  have oki: "buf_ok p (insert i H) ?t i" using nth [of i] i q v by (simp add: buf_ok_def Let_def)
  have okj: "buf_ok p (insert i H) ?t j" if "j < NBUF" "j \<noteq> i" for j
    using that bc_okD(4) [OF ok that(1)] nth [of j] by (simp add: buf_ok_def Let_def)
  have okt: "bc_ok p (insert i H) ?t"
  proof (rule bc_ok_replace [OF ok i(1) nth _ q(4,5) _ oki okj])
    show "b_blockno (bufs s ! j) \<noteq> b_blockno q" if "j < NBUF" "j \<noteq> i" "b_dev (bufs s ! j) = 1" for j
      using that u q(2) by blast
  qed (use bc_okD [OF ok] i in simp_all)
  have dv: "dirties ?t = dirties s"
    using nth v(2) nd q(2) by (intro dirties_cong) (auto split: if_splits)
  have "bview ?t c = bview s c" for c
  proof (cases "c = b")
    case True
    then show ?thesis using bview_cached [OF okt i(1)] nth [of i] i q(2) v by simp
  next
    case False
    have cl: "b_data (bufs s ! i) = disk s c" if "valid (bufs s ! i)" "b_blockno (bufs s ! i) = c"
      using that False nd bc_okD(4) [OF ok i(1)] i(2) by (simp add: buf_ok_def Let_def)
    have dev: "b_dev (bufs s ! j) = 1" if "j < NBUF" "valid (bufs s ! j)" for j
      using bc_okD(4) [OF ok that(1)] that(2) by (simp add: buf_ok_def Let_def)
    have v': "(\<exists>k < NBUF. valid (bufs ?t ! k) \<and> b_blockno (bufs ?t ! k) = c \<and> b_data (bufs ?t ! k) = b_data (bufs s ! j)) \<or>
      (disk ?t c = b_data (bufs s ! j) \<and> (\<forall>k < NBUF. valid (bufs ?t ! k) \<longrightarrow> b_blockno (bufs ?t ! k) \<noteq> c))"
      if j: "j < NBUF" "valid (bufs s ! j)" "b_blockno (bufs s ! j) = c" for j
    proof (cases "j = i")
      case True
      have "b_blockno (bufs ?t ! k) \<noteq> c" if "k < NBUF" "valid (bufs ?t ! k)" for k
      proof (cases "k = i")
        case True
        then show ?thesis using nth [of k] that(1) q(2) False by simp
      next
        case ki: False
        then have "bufs ?t ! k = bufs s ! k" using nth [of k] that(1) by simp
        then show ?thesis
          using that j dev [OF that(1)] dev [OF j(1)] bc_okD(5) [OF ok that(1) j(1)] ki True by metis
      qed
      then show ?thesis using cl j True by simp
    next
      case ji: False
      then show ?thesis using j nth [of j] by (intro disjI1 exI [of _ j]) simp
    qed
    show ?thesis
    proof (rule bview_eqI [OF ok okt v'])
      show "b_data (bufs ?t ! j) = disk s c" if "j < NBUF" "valid (bufs ?t ! j)" "b_blockno (bufs ?t ! j) = c"
        "\<forall>i < NBUF. valid (bufs s ! i) \<longrightarrow> b_blockno (bufs s ! i) \<noteq> c" for j
        using that nth [of j] q(2) False by (auto split: if_splits)
    qed simp_all
  qed
  then have view: "bview ?t = bview s" by auto
  have held: "same_held H s ?t"
    using nth i bc_okD(3) [OF ok] by (auto simp: same_held_def subset_iff split: if_splits)
  show ?thesis unfolding r succeeds.simps
    using i okt nth [of i] q v view dv held by simp
qed

lemma held_replace:
  assumes ok: "bc_ok p H s" and i: "i \<in> H"
    and nth: "\<And>j. j \<le> NBUF \<Longrightarrow> bufs t ! j = (if j = i then q else bufs s ! j)" and len: "length (bufs t) = NBUF + 1"
    and q: "b_dev q = b_dev (bufs s ! i)" "b_blockno q = b_blockno (bufs s ! i)" "b_refcnt q = b_refcnt (bufs s ! i)"
      "b_next q = b_next (bufs s ! i)" "b_prev q = b_prev (bufs s ! i)" "valid q"
    and d: "\<And>c. c \<noteq> b_blockno (bufs s ! i) \<Longrightarrow> disk t c = disk s c"
    and rest: "slocks t = slocks s" "hw t = hw s" "ptable t = ptable s"
  shows "bc_ok p H t" and "bview t = (bview s)(b_blockno (bufs s ! i) := b_data q)"
proof -
  have iN: "i < NBUF" using i bc_okD(3) [OF ok] by auto
  have bi: "buf_ok p H s i" by (rule bc_okD(4) [OF ok iN])
  then have dev: "b_dev (bufs s ! i) = 1" using i by (simp add: buf_ok_def Let_def)
  have dj: "b_dev (bufs s ! j) = 1" if "j < NBUF" "valid (bufs s ! j)" for j
    using bc_okD(4) [OF ok that(1)] that(2) by (simp add: buf_ok_def Let_def)
  have uq: "b_blockno (bufs s ! j) \<noteq> b_blockno (bufs s ! i)" if "j < NBUF" "j \<noteq> i" "b_dev (bufs s ! j) = 1" for j
    using bc_okD(5) [OF ok that(1) iN] that dev by blast
  show okt: "bc_ok p H t"
  proof (rule bc_ok_replace [OF ok iN nth len q(4,5)])
    show "b_blockno (bufs s ! j) \<noteq> b_blockno q" if "j < NBUF" "j \<noteq> i" "b_dev (bufs s ! j) = 1" for j
      using uq [OF that] q(2) by simp
    show "buf_ok p H t i"
      using bi i iN q dev nth [of i] by (simp add: buf_ok_def Let_def rest)
    show "buf_ok p H t j" if "j < NBUF" "j \<noteq> i" for j
      using bc_okD(4) [OF ok that(1)] that nth [of j] uq [OF that] dj [OF that(1)] d [of "b_blockno (bufs s ! j)"]
      by (auto simp: buf_ok_def Let_def rest)
  qed (use bc_okD(1-3) [OF ok] rest in simp_all)
  show "bview t = (bview s)(b_blockno (bufs s ! i) := b_data q)"
  proof
    fix c
    show "bview t c = ((bview s)(b_blockno (bufs s ! i) := b_data q)) c"
    proof (cases "c = b_blockno (bufs s ! i)")
      case True
      then show ?thesis using bview_cached [OF okt iN] nth [of i] iN q(2,6) by simp
    next
      case False
      have eq: "bufs t ! j = bufs s ! j" if "j < NBUF" "j \<noteq> i" for j using nth [of j] that by simp
      have bt: "b_blockno (bufs t ! i) = b_blockno (bufs s ! i)" using nth [of i] iN q(2) by simp
      have "bview t c = bview s c"
      proof (rule bview_eqI [OF ok okt])
        show "(\<exists>k < NBUF. valid (bufs t ! k) \<and> b_blockno (bufs t ! k) = c \<and> b_data (bufs t ! k) = b_data (bufs s ! j)) \<or>
            (disk t c = b_data (bufs s ! j) \<and> (\<forall>k < NBUF. valid (bufs t ! k) \<longrightarrow> b_blockno (bufs t ! k) \<noteq> c))"
          if "j < NBUF" "valid (bufs s ! j)" "b_blockno (bufs s ! j) = c" for j
        proof -
          have "j \<noteq> i" using that(3) False by auto
          then show ?thesis using that eq [of j] by (intro disjI1 exI [of _ j]) simp
        qed
        show "b_data (bufs t ! j) = disk s c" if "j < NBUF" "valid (bufs t ! j)" "b_blockno (bufs t ! j) = c"
          "\<forall>i < NBUF. valid (bufs s ! i) \<longrightarrow> b_blockno (bufs s ! i) \<noteq> c" for j
          using that False eq [of j] bt by metis
        show "disk t c = disk s c" by (rule d [OF False])
      qed
      then show ?thesis using False by simp
    qed
  qed
qed

lemma dirties_held:
  assumes ok: "bc_ok p H s" and i: "i < NBUF"
    and nth: "\<And>j. j \<le> NBUF \<Longrightarrow> bufs t ! j = (if j = i then q else bufs s ! j)"
    and q: "b_blockno q = b_blockno (bufs s ! i)" and dev: "b_dev (bufs s ! i) = 1"
  shows "dirties t = (if dirty q then insert (b_blockno q) (dirties s) else dirties s - {b_blockno q})"
proof -
  have "b_blockno (bufs s ! j) \<noteq> b_blockno q" if "j < NBUF" "dirty (bufs s ! j)" "j \<noteq> i" for j
    using bc_okD(5) [OF ok that(1) i] bc_okD(4) [OF ok that(1)] that dev q by (auto simp: buf_ok_def Let_def)
  then show ?thesis
    using nth i q unfolding dirties_def by (auto split: if_splits) (metis less_imp_le)+
qed

lemma held_buf:
  assumes "bc_ok p H s" and "i \<in> H"
  shows "i < NBUF" "i < length (bufs s)" "b_dev (bufs s ! i) = 1" "valid (bufs s ! i)" "b_refcnt (bufs s ! i) = 1"
    "sl_locked (slocks s (SL_buf i))" "sl_pid (slocks s (SL_buf i)) = p_pid (ptable s ! p)"
    "holdingsleep (SL_buf i) s = Ok True s" "bview s (b_blockno (bufs s ! i)) = b_data (bufs s ! i)"
proof -
  show i: "i < NBUF" using assms bc_okD(3) [OF assms(1)] by auto
  show "i < length (bufs s)" using i bc_okD(6) [OF assms(1)] by simp
  show v: "valid (bufs s ! i)" and "b_dev (bufs s ! i) = 1" "b_refcnt (bufs s ! i) = 1"
    "sl_locked (slocks s (SL_buf i))" "sl_pid (slocks s (SL_buf i)) = p_pid (ptable s ! p)"
    using bc_okD(4) [OF assms(1) i] assms(2) by (auto simp: buf_ok_def Let_def)
  then show "holdingsleep (SL_buf i) s = Ok True s"
    using holdingsleep_runs [OF bc_okD(1) [OF assms(1)]] by simp
  show "bview s (b_blockno (bufs s ! i)) = b_data (bufs s ! i)" by (rule bview_cached [OF assms(1) i v])
qed

lemma bio_only_upd_buf [simp]: "bio_only s (upd_buf i f s)"
  by (simp add: bio_only_def upd_buf_def)

lemma set_data_spec:
  assumes ok: "bc_ok p H s" and i: "i \<in> H"
  shows "bc_ok p H (set_data i d s)" and "bview (set_data i d s) = (bview s)(b_blockno (bufs s ! i) := d)"
    and "dirties (set_data i d s) = dirties s" and "bufs (set_data i d s) ! i = (bufs s ! i)\<lparr>b_data := d\<rparr>"
    and "same_held (H - {i}) s (set_data i d s)" and "bio_only s (set_data i d s)"
    and "disk (set_data i d s) = disk s" and "dwrites (set_data i d s) = dwrites s"
proof -
  note h = held_buf [OF ok i]
  have nth: "bufs (set_data i d s) ! j = (if j = i then (bufs s ! i)\<lparr>b_data := d\<rparr> else bufs s ! j)" if "j \<le> NBUF" for j
    using that bc_okD(6) [OF ok] by (simp add: set_data_def nth_update_if)
  have len: "length (bufs (set_data i d s)) = NBUF + 1" using bc_okD(6) [OF ok] by (simp add: set_data_def)
  note r = held_replace [OF ok i nth len]
  show "bc_ok p H (set_data i d s)" by (rule r) (use h in \<open>simp_all add: set_data_def\<close>)
  have "bview (set_data i d s) = (bview s)(b_blockno (bufs s ! i) := b_data ((bufs s ! i)\<lparr>b_data := d\<rparr>))"
    by (rule r) (use h in \<open>simp_all add: set_data_def\<close>)
  then show "bview (set_data i d s) = (bview s)(b_blockno (bufs s ! i) := d)" by simp
  show "dirties (set_data i d s) = dirties s" using nth by (intro dirties_cong) auto
  show "bufs (set_data i d s) ! i = (bufs s ! i)\<lparr>b_data := d\<rparr>" using nth [of i] h(1) by simp
  show "same_held (H - {i}) s (set_data i d s)"
    using nth bc_okD(3) [OF ok] by (auto simp: same_held_def subset_iff)
qed (simp_all add: set_data_def)

definition pin :: "nat \<Rightarrow> 'z bst_scheme \<Rightarrow> 'z bst_scheme" where
  "pin b s = upd_buf b (\<lambda>q. q\<lparr>b_flags := b_flags q OR B_DIRTY\<rparr>) s"

lemma pin_spec:
  assumes ok: "bc_ok p H s" and i: "i \<in> H"
  shows "bc_ok p H (pin i s)" and "bview (pin i s) = bview s"
    and "dirties (pin i s) = insert (b_blockno (bufs s ! i)) (dirties s)"
    and "bufs (pin i s) ! i = (bufs s ! i)\<lparr>b_flags := b_flags (bufs s ! i) OR B_DIRTY\<rparr>"
    and "same_held H s (pin i s)" and "bio_only s (pin i s)"
    and "disk (pin i s) = disk s" and "dwrites (pin i s) = dwrites s"
proof -
  note h = held_buf [OF ok i]
  let ?q = "(bufs s ! i)\<lparr>b_flags := b_flags (bufs s ! i) OR B_DIRTY\<rparr>"
  have nth: "bufs (pin i s) ! j = (if j = i then ?q else bufs s ! j)" if "j \<le> NBUF" for j
    using that bc_okD(6) [OF ok] by (simp add: pin_def nth_update_if)
  have len: "length (bufs (pin i s)) = NBUF + 1" using bc_okD(6) [OF ok] by (simp add: pin_def)
  note r = held_replace [OF ok i nth len]
  show "bc_ok p H (pin i s)" by (rule r) (use h in \<open>simp_all add: pin_def\<close>)
  have "bview (pin i s) = (bview s)(b_blockno (bufs s ! i) := b_data ?q)"
    by (rule r) (use h in \<open>simp_all add: pin_def\<close>)
  then show "bview (pin i s) = bview s" using h(9) by (simp add: fun_upd_idem)
  show "dirties (pin i s) = insert (b_blockno (bufs s ! i)) (dirties s)"
    using dirties_held [OF ok h(1) nth _ h(3)] by simp
  show "bufs (pin i s) ! i = ?q" using nth [of i] h(1) by simp
  show "same_held H s (pin i s)"
    using nth bc_okD(3) [OF ok] by (auto simp: same_held_def subset_iff split: if_splits)
qed (simp_all add: pin_def)

lemma bwrite_spec:
  assumes ok: "bc_ok p H s" and i: "i \<in> H" and lim: "b_blockno (bufs s ! i) < disksize s"
  shows "succeeds (bwrite i s) (\<lambda>_ t. bc_ok p H t \<and> bview t = bview s \<and>
    disk t = (disk s)(b_blockno (bufs s ! i) := b_data (bufs s ! i)) \<and>
    dwrites t = dwrites s @ [(b_blockno (bufs s ! i), b_data (bufs s ! i))] \<and>
    dirties t = dirties s - {b_blockno (bufs s ! i)} \<and> same_held H s t \<and> bio_only s t)"
proof -
  note h = held_buf [OF ok i]
  let ?q = "bufs s ! i" and ?p = "pin i s"
  let ?f = "((b_flags ?q OR B_DIRTY) AND NOT B_DIRTY) OR B_VALID"
  define t where "t = ?p\<lparr>bufs := (bufs s)[i := ?q\<lparr>b_flags := ?f\<rparr>],
    disk := (disk s)(b_blockno ?q := b_data ?q), dwrites := dwrites s @ [(b_blockno ?q, b_data ?q)]\<rparr>"
  have pi: "bufs ?p ! i = ?q\<lparr>b_flags := b_flags ?q OR B_DIRTY\<rparr>" by (rule pin_spec(4) [OF ok i])
  have "bwrite i s = iderw i ?p" using h(8) by (simp add: bwrite_def pin_def)
  moreover have "iderw i ?p = Ok () t"
    using held_buf(8) [OF pin_spec(1) [OF ok i] i] h(2,3) lim
      not_just_valid [of "b_flags ?q OR B_DIRTY"] pi
    by (simp add: iderw_def Let_def t_def) (simp add: pin_def upd_buf_def)
  ultimately have e: "bwrite i s = Ok () t" by simp
  have nth: "bufs t ! j = (if j = i then ?q\<lparr>b_flags := ?f\<rparr> else bufs s ! j)" if "j \<le> NBUF" for j
    using that bc_okD(6) [OF ok] by (simp add: t_def nth_update_if)
  have len: "length (bufs t) = NBUF + 1" using bc_okD(6) [OF ok] by (simp add: t_def)
  have v: "?f AND B_VALID \<noteq> 0" by (simp only: or_flag) simp
  have nd: "?f AND B_DIRTY = 0" by (simp only: other_flag or_flag)
  note r = held_replace [OF ok i nth len]
  have "bc_ok p H t" by (rule r) (use v in \<open>simp_all add: t_def pin_def\<close>)
  moreover have "bview t = (bview s)(b_blockno ?q := b_data (?q\<lparr>b_flags := ?f\<rparr>))"
    by (rule r) (use v in \<open>simp_all add: t_def pin_def\<close>)
  then have "bview t = bview s" using h(9) by (simp add: fun_upd_idem)
  moreover have "dirties t = dirties s - {b_blockno ?q}"
    using dirties_held [OF ok h(1) nth _ h(3)] nd by simp
  moreover have "same_held H s t"
    using nth bc_okD(3) [OF ok] by (auto simp: same_held_def subset_iff split: if_splits)
  moreover have "bio_only s t" by (simp add: bio_only_def t_def pin_def upd_buf_def)
  ultimately show ?thesis unfolding e by (simp add: t_def)
qed

lemma link_frame [simp]:
  "link_first b (s\<lparr>hw := h\<rparr>) = (link_first b s)\<lparr>hw := h\<rparr>" "unlink b (s\<lparr>hw := h\<rparr>) = (unlink b s)\<lparr>hw := h\<rparr>"
  "hw (link_first b s) = hw s" "hw (unlink b s) = hw s" "ptable (link_first b s) = ptable s" "ptable (unlink b s) = ptable s"
  "slocks (link_first b s) = slocks s" "slocks (unlink b s) = slocks s" "disk (link_first b s) = disk s"
  "disk (unlink b s) = disk s" "dwrites (link_first b s) = dwrites s" "dwrites (unlink b s) = dwrites s"
  by (simp_all add: link_first_def unlink_def)

lemma bio_only_links: "bio_only s (link_first b (unlink b s))"
  unfolding link_first_def unlink_def Let_def by (intro bio_only_trans [OF _ bio_only_upd_buf] bio_only_upd_buf)

lemma bio_only_wakeup1: "bio_only s (wakeup1 ch s)"
  by (simp add: bio_only_def wakeup1_def comp_def)

lemma bview_cong:
  assumes "\<And>j. j < NBUF \<Longrightarrow> b_flags (bufs t ! j) = b_flags (bufs s ! j) \<and> b_blockno (bufs t ! j) = b_blockno (bufs s ! j) \<and>
      b_data (bufs t ! j) = b_data (bufs s ! j)" and "disk t = disk s"
  shows "bview t = bview s" and "dirties t = dirties s"
proof -
  have "bcached t = bcached s"
    unfolding bcached_def by (intro ext find_cong) (use assms(1) in auto)
  then show "bview t = bview s"
    using assms by (intro ext) (auto simp: bview_def bcached_def split: option.splits dest!: find_SomeD)
  show "dirties t = dirties s" by (rule dirties_cong) (use assms(1) in auto)
qed

lemma brelse_spec:
  assumes ok: "bc_ok p H s" and i: "i \<in> H"
    and c: "b_data (bufs s ! i) = disk s (b_blockno (bufs s ! i)) \<or> b_blockno (bufs s ! i) \<in> dirties s"
  shows "succeeds (brelse i s) (\<lambda>_ t. bc_ok p (H - {i}) t \<and> bview t = bview s \<and> disk t = disk s \<and>
    dwrites t = dwrites s \<and> dirties t = dirties s \<and> same_held (H - {i}) s t \<and> bio_only s t \<and>
    (\<forall>l. ring (bufs s) l \<longrightarrow> ring (bufs t) (i # remove1 i l)))"
proof -
  note h = held_buf [OF ok i]
  have q: "quiet (hw s)" using bc_okD(1) [OF ok] by (simp add: runs_def)
  define s1 where "s1 = wakeup1 (Ch_sleep (SL_buf i)) (upd_slock (SL_buf i) (\<lambda>l. l\<lparr>sl_locked := False, sl_pid := 0\<rparr>) s)"
  define s2 where "s2 = upd_buf i (\<lambda>q. q\<lparr>b_refcnt := b_refcnt q - 1\<rparr>) s1"
  define t where "t = link_first i (unlink i s2)"
  have b1: "bufs s1 = bufs s" "hw s1 = hw s" "disk s1 = disk s" "dwrites s1 = dwrites s"
    and sl: "slocks s1 = (slocks s)(SL_buf i := (slocks s (SL_buf i))\<lparr>sl_locked := False, sl_pid := 0\<rparr>)"
    by (simp_all add: s1_def wakeup1_def upd_slock_def)
  have "releasesleep (SL_buf i) s = Ok () s1"
    using releasesleep_runs [OF bc_okD(1) [OF ok]] by (simp add: s1_def)
  moreover have "b_refcnt (bufs s2 ! i) = 0" using h(2,5) by (simp add: s2_def b1)
  moreover have "hw s2 = hw s" "hw t = hw s" by (simp_all add: t_def s2_def b1)
  ultimately have e: "brelse i s = Ok () t"
    using h(2,5,8) quiet_simps [OF q] b1 by (simp add: brelse_def lock_simps Let_def s2_def [symmetric] t_def [symmetric])
  obtain l where l: "ring (bufs s) l" using ok by (auto simp: bc_ok_def)
  have nth2: "bufs s2 ! j = (if j = i then (bufs s ! i)\<lparr>b_refcnt := 0\<rparr> else bufs s ! j)" if "j \<le> NBUF" for j
    using that bc_okD(6) [OF ok] h(5) by (simp add: s2_def b1 nth_update_if)
  have len2: "length (bufs s2) = length (bufs s)" by (simp add: s2_def b1)
  have r2: "ring (bufs s2) k" if "ring (bufs s) k" for k by (rule ring_cong [OF that len2]) (use nth2 in auto)
  note mv = move_first [OF r2 [OF l] h(1), folded t_def]
  have ex: "\<exists>n v. bufs t ! j = (bufs s2 ! j)\<lparr>b_next := n, b_prev := v\<rparr>" if "j < NBUF" for j
  proof -
    have "j < length (bufs s2)" using that len2 bc_okD(6) [OF ok] by simp
    then show ?thesis using mv(2) unfolding same_but_links_def by blast
  qed
  have feq: "b_flags (bufs t ! j) = b_flags (bufs s ! j) \<and> b_dev (bufs t ! j) = b_dev (bufs s ! j) \<and>
      b_blockno (bufs t ! j) = b_blockno (bufs s ! j) \<and> b_data (bufs t ! j) = b_data (bufs s ! j) \<and>
      b_refcnt (bufs t ! j) = (if j = i then 0 else b_refcnt (bufs s ! j))" if "j < NBUF" for j
    using ex [OF that] nth2 [of j] that by auto
  have td: "disk t = disk s" "dwrites t = dwrites s" "slocks t = slocks s1" "ptable t = ptable s1"
    by (simp_all add: t_def s2_def b1)
  have pid: "p_pid (ptable t ! p) = p_pid (ptable s ! p)" using bc_okD(2) [OF ok] by (simp add: td(4) s1_def wakeup1_def)
  have cl: "\<not> dirty (bufs s ! i) \<Longrightarrow> b_data (bufs s ! i) = disk s (b_blockno (bufs s ! i))"
  proof -
    assume nd: "\<not> dirty (bufs s ! i)"
    have "b_blockno (bufs s ! i) \<notin> dirties s"
    proof
      assume "b_blockno (bufs s ! i) \<in> dirties s"
      then obtain j where j: "j < NBUF" "dirty (bufs s ! j)" "b_blockno (bufs s ! j) = b_blockno (bufs s ! i)" by (auto simp: dirties_def)
      moreover have "b_dev (bufs s ! j) = 1" using j bc_okD(4) [OF ok j(1)] by (simp add: buf_ok_def Let_def)
      ultimately have "j = i" using bc_okD(5) [OF ok j(1) h(1)] h(3) by simp
      then show False using nd j(2) by simp
    qed
    then show ?thesis using c by simp
  qed
  have okj: "buf_ok p (H - {i}) t j" if "j < NBUF" for j
    using bc_okD(4) [OF ok that] feq [OF that] cl h(3,4) by (cases "j = i") (simp_all add: buf_ok_def Let_def td sl pid [unfolded td])
  have uq: "\<forall>j < NBUF. \<forall>k < NBUF. b_dev (bufs t ! j) = 1 \<and> b_dev (bufs t ! k) = 1 \<and>
      b_blockno (bufs t ! j) = b_blockno (bufs t ! k) \<longrightarrow> j = k"
    using feq bc_okD(5) [OF ok] by metis
  have "bc_ok p (H - {i}) t"
    unfolding bc_ok_def using bc_okD(1-3) [OF ok] \<open>hw t = hw s\<close> mv(1) okj uq by (auto simp: td(4) s1_def)
  moreover have "bview t = bview s" "dirties t = dirties s" using bview_cong [of t s] feq td by auto
  moreover have "same_held (H - {i}) s t" using feq bc_okD(3) [OF ok] by (auto simp: same_held_def)
  moreover have "bio_only s t"
    unfolding t_def s2_def s1_def
    by (rule bio_only_trans [OF bio_only_trans [OF bio_only_trans [OF _ bio_only_wakeup1] bio_only_upd_buf] bio_only_links])
      (simp add: bio_only_def upd_slock_def)
  moreover have "\<forall>l. ring (bufs s) l \<longrightarrow> ring (bufs t) (i # remove1 i l)"
    using move_first(1) [OF r2 h(1), folded t_def] by blast
  ultimately show ?thesis unfolding e using td by simp
qed

text \<open>The state of the cache does not depend on the fields of the other components.\<close>

lemma bc_ext:
  assumes "bufs t = bufs s" "disk t = disk s" "slocks t = slocks s" "hw t = hw s" "ptable t = ptable s"
  shows "bc_ok p H t = bc_ok p H s" "bview t = bview s" "dirties t = dirties s"
proof -
  have c: "bcached t = bcached s" unfolding bcached_def assms by (rule refl)
  show "bview t = bview s" unfolding bview_def c assms by (rule refl)
  have "buf_ok p H t i = buf_ok p H s i" for i unfolding buf_ok_def assms by (rule refl)
  then show "bc_ok p H t = bc_ok p H s" unfolding bc_ok_def assms by simp
  show "dirties t = dirties s" unfolding dirties_def assms by (rule refl)
qed

section \<open>The cache as its clients see it\<close>

text \<open>
  What log.c and fs.c rely on: \<open>view\<close> is the content of a block through the cache, \<open>dirt\<close> the blocks whose
  buffers are pinned until they are written, \<open>H\<close> the buffers the client holds. \<open>bread\<close> delivers the view,
  \<open>bwrite\<close> makes it durable, \<open>brelse\<close> may only be called when the block is clean on disk or pinned.
\<close>

locale block_cache =
  fixes inv :: "nat set \<Rightarrow> 's \<Rightarrow> bool" and view dsk :: "'s \<Rightarrow> u32 \<Rightarrow> block" and trace :: "'s \<Rightarrow> (u32 \<times> block) list"
    and dirt :: "'s \<Rightarrow> u32 set" and blk :: "'s \<Rightarrow> nat \<Rightarrow> u32" and dat :: "'s \<Rightarrow> nat \<Rightarrow> block" and lim :: "'s \<Rightarrow> u32"
    and frame :: "'s \<Rightarrow> 's \<Rightarrow> bool" and cap :: nat
    and rd :: "u32 \<Rightarrow> 's \<Rightarrow> (nat, 's) out" and wr rl :: "nat \<Rightarrow> 's \<Rightarrow> (unit, 's) out" and put :: "nat \<Rightarrow> block \<Rightarrow> 's \<Rightarrow> 's"
  assumes rd: "inv H s \<Longrightarrow> (\<And>i. i \<in> H \<Longrightarrow> blk s i \<noteq> b) \<Longrightarrow> card H + card (dirt s) < cap \<Longrightarrow> b < lim s \<Longrightarrow>
      succeeds (rd b s) (\<lambda>i t. i \<notin> H \<and> inv (insert i H) t \<and> blk t i = b \<and> dat t i = view s b \<and>
        view t = view s \<and> dsk t = dsk s \<and> trace t = trace s \<and> dirt t = dirt s \<and>
        (\<forall>j \<in> H. blk t j = blk s j \<and> dat t j = dat s j) \<and> frame s t)"
    and put: "inv H s \<Longrightarrow> i \<in> H \<Longrightarrow> inv H (put i d s) \<and> blk (put i d s) i = blk s i \<and> dat (put i d s) i = d \<and>
        view (put i d s) = (view s)(blk s i := d) \<and> dsk (put i d s) = dsk s \<and> trace (put i d s) = trace s \<and>
        dirt (put i d s) = dirt s \<and> (\<forall>j \<in> H - {i}. blk (put i d s) j = blk s j \<and> dat (put i d s) j = dat s j) \<and>
        frame s (put i d s)"
    and wr: "inv H s \<Longrightarrow> i \<in> H \<Longrightarrow> blk s i < lim s \<Longrightarrow> succeeds (wr i s) (\<lambda>_ t. inv H t \<and> view t = view s \<and>
        dsk t = (dsk s)(blk s i := dat s i) \<and> trace t = trace s @ [(blk s i, dat s i)] \<and>
        dirt t = dirt s - {blk s i} \<and> (\<forall>j \<in> H. blk t j = blk s j \<and> dat t j = dat s j) \<and> frame s t)"
    and rl: "inv H s \<Longrightarrow> i \<in> H \<Longrightarrow> dat s i = dsk s (blk s i) \<or> blk s i \<in> dirt s \<Longrightarrow>
      succeeds (rl i s) (\<lambda>_ t. inv (H - {i}) t \<and> view t = view s \<and> dsk t = dsk s \<and> trace t = trace s \<and>
        dirt t = dirt s \<and> (\<forall>j \<in> H - {i}. blk t j = blk s j \<and> dat t j = dat s j) \<and> frame s t)"
    and clean: "inv {} s \<Longrightarrow> b \<notin> dirt s \<Longrightarrow> view s b = dsk s b"
    and frame_trans: "frame s t \<Longrightarrow> frame t u \<Longrightarrow> frame s u" and frame_lim: "frame s t \<Longrightarrow> lim t = lim s"
begin

lemma write_through:
  assumes "inv H s" and "i \<in> H" and "blk s i < lim s"
  shows "succeeds (wr i (put i d s)) (\<lambda>_ t. inv H t \<and> blk t i = blk s i \<and> dat t i = d \<and>
    view t = (view s)(blk s i := d) \<and> dsk t = (dsk s)(blk s i := d) \<and> trace t = trace s @ [(blk s i, d)] \<and>
    dirt t = dirt s - {blk s i} \<and> (\<forall>j \<in> H - {i}. blk t j = blk s j \<and> dat t j = dat s j) \<and> frame s t)"
proof -
  let ?u = "put i d s"
  note p = put [OF assms(1,2), of d]
  have "blk ?u i < lim ?u" using p assms(3) frame_lim [of s ?u] by simp
  from wr [of H ?u i, OF _ assms(2) this] p show ?thesis
    by (auto elim!: succeeds_mono intro: frame_trans simp: assms(2))
qed

text \<open>Block \<open>b\<close> overwritten with a function of its content and written through.\<close>

lemma rewrite_block:
  assumes "inv {} s" and "card (dirt s) < cap" and "b < lim s"
  shows "succeeds (andthen (rd b s) (\<lambda>x s. andthen (wr x (put x (f (dat s x)) s)) (\<lambda>_ s. rl x s)))
    (\<lambda>_ t. inv {} t \<and> view t = (view s)(b := f (view s b)) \<and> dsk t = (dsk s)(b := f (view s b)) \<and>
      trace t = trace s @ [(b, f (view s b))] \<and> dirt t = dirt s - {b} \<and> frame s t)"
  unfolding succeeds_andthen
proof (rule succeeds_mono [OF rd [OF assms(1) _ _ assms(3)]], simp, simp add: assms(2), elim conjE)
  fix x t
  assume x: "inv (insert x {}) t" "blk t x = b" "dat t x = view s b" "view t = view s" "dsk t = dsk s"
    "trace t = trace s" "dirt t = dirt s" "frame s t"
  have l: "blk t x < lim t" using x(2,8) assms(3) frame_lim by simp
  show "succeeds (wr x (put x (f (dat t x)) t)) (\<lambda>_ t. succeeds (rl x t) (\<lambda>_ t. inv {} t \<and> view t = (view s)(b := f (view s b)) \<and>
      dsk t = (dsk s)(b := f (view s b)) \<and> trace t = trace s @ [(b, f (view s b))] \<and> dirt t = dirt s - {b} \<and> frame s t))"
  proof (rule succeeds_mono [OF write_through [OF x(1) _ l, of "f (dat t x)"]], simp, elim conjE)
    fix u
    assume u: "inv (insert x {}) u" "blk u x = blk t x" "dat u x = f (dat t x)" "view u = (view t)(blk t x := f (dat t x))"
      "dsk u = (dsk t)(blk t x := f (dat t x))" "trace u = trace t @ [(blk t x, f (dat t x))]" "dirt u = dirt t - {blk t x}" "frame t u"
    show "succeeds (rl x u) (\<lambda>_ t. inv {} t \<and> view t = (view s)(b := f (view s b)) \<and>
        dsk t = (dsk s)(b := f (view s b)) \<and> trace t = trace s @ [(b, f (view s b))] \<and> dirt t = dirt s - {b} \<and> frame s t)"
      using u(2-7) x(2-7) frame_trans [OF frame_trans [OF x(8) u(8)]]
      by (intro succeeds_mono [OF rl [OF u(1)]]) simp_all
  qed
qed

text \<open>Block \<open>b\<close> overwritten with the content of \<open>a\<close> and written through; the buffers are read in either order.\<close>

lemma copy_tail:
  assumes i: "inv {x, y} t" "blk t x = a" "blk t y = b" "dat t x = view s a" "a \<noteq> b" "b < lim t"
    and v: "view t = view s" "dsk t = dsk s" "trace t = trace s" "dirt t = dirt s" "frame s t" "inv {} s"
  shows "succeeds (andthen (wr y (put y (dat t x) t)) (\<lambda>_ s. andthen (rl x s) (\<lambda>_ s. rl y s))) (\<lambda>_ t. inv {} t \<and>
    view t = (view s)(b := view s a) \<and> dsk t = (dsk s)(b := view s a) \<and> trace t = trace s @ [(b, view s a)] \<and>
    dirt t = dirt s - {b} \<and> frame s t)"
  unfolding succeeds_andthen
proof (rule succeeds_mono [OF write_through [OF i(1), of y "dat t x"]], simp, simp add: i(3,6), elim conjE)
  fix u
  have xy: "x \<noteq> y" using i(2,3,5) by auto
  assume u: "inv {x, y} u" "blk u y = blk t y" "dat u y = dat t x" "view u = (view t)(blk t y := dat t x)"
    "dsk u = (dsk t)(blk t y := dat t x)" "trace u = trace t @ [(blk t y, dat t x)]" "dirt u = dirt t - {blk t y}" "frame t u"
    "\<forall>j \<in> {x, y} - {y}. blk u j = blk t j \<and> dat u j = dat t j"
  have ux: "blk u x = a" "dat u x = view s a" using u(9) xy i by auto
  have c: "dat u x = dsk u (blk u x) \<or> blk u x \<in> dirt u"
    using clean [OF v(6), of a] ux u(5,7) i(3,5) v(2,4) by auto
  show "succeeds (rl x u) (\<lambda>_ t. succeeds (rl y t) (\<lambda>_ t. inv {} t \<and>
      view t = (view s)(b := view s a) \<and> dsk t = (dsk s)(b := view s a) \<and> trace t = trace s @ [(b, view s a)] \<and>
      dirt t = dirt s - {b} \<and> frame s t))"
  proof (rule succeeds_mono [OF rl [OF u(1) _ c]], simp, elim conjE)
    fix w
    assume w: "inv ({x, y} - {x}) w" "view w = view u" "dsk w = dsk u" "trace w = trace u" "dirt w = dirt u"
      "\<forall>j \<in> {x, y} - {x}. blk w j = blk u j \<and> dat w j = dat u j" "frame u w"
    have w1: "inv {y} w" using w(1) xy by (simp add: insert_Diff_if)
    have wy: "blk w y = b" "dat w y = view s a" using w(6) xy u(2,3) i(3,4) by auto
    show "succeeds (rl y w) (\<lambda>_ t. inv {} t \<and> view t = (view s)(b := view s a) \<and> dsk t = (dsk s)(b := view s a) \<and>
        trace t = trace s @ [(b, view s a)] \<and> dirt t = dirt s - {b} \<and> frame s t)"
      using w(2-5) wy u(4-7) i(3,4) v(1-4) frame_trans [OF frame_trans [OF frame_trans [OF v(5) u(8)] w(7)]]
      by (intro succeeds_mono [OF rl [OF w1]]) simp_all
  qed
qed

lemma copy_block:
  assumes s: "inv {} s" "a \<noteq> b" "a < lim s" "b < lim s" "card (dirt s) + 1 < cap"
  shows "succeeds (andthen (rd a s) (\<lambda>x s. andthen (rd b s) (\<lambda>y s.
      andthen (wr y (put y (dat s x) s)) (\<lambda>_ s. andthen (rl x s) (\<lambda>_ s. rl y s))))) (\<lambda>_ t. inv {} t \<and>
    view t = (view s)(b := view s a) \<and> dsk t = (dsk s)(b := view s a) \<and> trace t = trace s @ [(b, view s a)] \<and>
    dirt t = dirt s - {b} \<and> frame s t)"
    and "succeeds (andthen (rd b s) (\<lambda>y s. andthen (rd a s) (\<lambda>x s.
      andthen (wr y (put y (dat s x) s)) (\<lambda>_ s. andthen (rl x s) (\<lambda>_ s. rl y s))))) (\<lambda>_ t. inv {} t \<and>
    view t = (view s)(b := view s a) \<and> dsk t = (dsk s)(b := view s a) \<and> trace t = trace s @ [(b, view s a)] \<and>
    dirt t = dirt s - {b} \<and> frame s t)"
proof -
  have two: "succeeds (andthen (rd c s) (\<lambda>x s. andthen (rd d s) (\<lambda>y s. Ok (x, y) s))) (\<lambda>(x, y) t. inv {x, y} t \<and>
      blk t x = c \<and> blk t y = d \<and> dat t x = view s c \<and> dat t y = view s d \<and> view t = view s \<and> dsk t = dsk s \<and> trace t = trace s \<and>
      dirt t = dirt s \<and> frame s t)" if cd: "c \<noteq> d" "c < lim s" "d < lim s" for c d
    unfolding succeeds_andthen
  proof (rule succeeds_mono [OF rd [OF s(1) _ _ cd(2)]], simp, use s(5) in simp, elim conjE)
    fix x t
    assume x: "inv (insert x {}) t" "blk t x = c" "dat t x = view s c" "view t = view s" "dsk t = dsk s"
      "trace t = trace s" "dirt t = dirt s" "frame s t"
    have "d < lim t" using frame_lim [OF x(8)] cd(3) by simp
    then show "succeeds (rd d t) (\<lambda>y t. succeeds (Ok (x, y) t) (\<lambda>(x, y) t. inv {x, y} t \<and> blk t x = c \<and>
        blk t y = d \<and> dat t x = view s c \<and> dat t y = view s d \<and> view t = view s \<and> dsk t = dsk s \<and> trace t = trace s \<and> dirt t = dirt s \<and> frame s t))"
      using cd(1) s(5) x(2-7) frame_trans [OF x(8)]
      by (intro succeeds_mono [OF rd [OF x(1)]]) (simp_all add: insert_commute)
  qed
  have l: "lim t = lim s" if "frame s t" for t by (rule frame_lim [OF that])
  show "succeeds (andthen (rd a s) (\<lambda>x s. andthen (rd b s) (\<lambda>y s.
      andthen (wr y (put y (dat s x) s)) (\<lambda>_ s. andthen (rl x s) (\<lambda>_ s. rl y s))))) (\<lambda>_ t. inv {} t \<and>
    view t = (view s)(b := view s a) \<and> dsk t = (dsk s)(b := view s a) \<and> trace t = trace s @ [(b, view s a)] \<and>
    dirt t = dirt s - {b} \<and> frame s t)"
    by (rule succeeds_pair [OF two [OF s(2-4)]], rule copy_tail) (use s l in simp_all)
  show "succeeds (andthen (rd b s) (\<lambda>y s. andthen (rd a s) (\<lambda>x s.
      andthen (wr y (put y (dat s x) s)) (\<lambda>_ s. andthen (rl x s) (\<lambda>_ s. rl y s))))) (\<lambda>_ t. inv {} t \<and>
    view t = (view s)(b := view s a) \<and> dsk t = (dsk s)(b := view s a) \<and> trace t = trace s @ [(b, view s a)] \<and>
    dirt t = dirt s - {b} \<and> frame s t)"
    by (rule succeeds_pair [OF two [OF s(2) [symmetric] s(4,3)]], rule copy_tail) (use s l in \<open>simp_all add: insert_commute\<close>)
qed

end

lemma bc_clean:
  assumes "bc_ok p {} s" and "b \<notin> dirties s"
  shows "bview s b = disk s b"
proof (cases "bcached s b")
  case (Some i)
  then have i: "i < NBUF" "valid (bufs s ! i)" "b_blockno (bufs s ! i) = b"
    by (auto simp: bcached_def dest!: find_SomeD)
  then have "\<not> dirty (bufs s ! i)" using assms(2) by (auto simp: dirties_def)
  then show ?thesis using i bc_okD(4) [OF assms(1) i(1)] Some by (simp add: bview_def buf_ok_def Let_def)
qed (simp add: bview_def)

interpretation bc: block_cache "bc_ok p" bview disk dwrites dirties "\<lambda>s i. b_blockno (bufs s ! i)"
  "\<lambda>s i. b_data (bufs s ! i)" disksize bio_only NBUF "bread 1" bwrite brelse set_data for p
proof
  fix H :: "nat set" and s :: "'a bst_scheme" and b
  assume "bc_ok p H s" "\<And>i. i \<in> H \<Longrightarrow> b_blockno (bufs s ! i) \<noteq> b" "card H + card (dirties s) < NBUF" "b < disksize s"
  then show "succeeds (bread 1 b s) (\<lambda>i t. i \<notin> H \<and> bc_ok p (insert i H) t \<and> b_blockno (bufs t ! i) = b \<and>
      b_data (bufs t ! i) = bview s b \<and> bview t = bview s \<and> disk t = disk s \<and> dwrites t = dwrites s \<and> dirties t = dirties s \<and>
      (\<forall>j \<in> H. b_blockno (bufs t ! j) = b_blockno (bufs s ! j) \<and> b_data (bufs t ! j) = b_data (bufs s ! j)) \<and> bio_only s t)"
    using bread_spec [of p H s b, unfolded same_held_def] by (simp add: broom_def)
next
  fix H :: "nat set" and s :: "'a bst_scheme" and i d
  assume "bc_ok p H s" "i \<in> H"
  note sp = set_data_spec [OF this, where d = d]
  show "bc_ok p H (set_data i d s) \<and> b_blockno (bufs (set_data i d s) ! i) = b_blockno (bufs s ! i) \<and>
      b_data (bufs (set_data i d s) ! i) = d \<and> bview (set_data i d s) = (bview s)(b_blockno (bufs s ! i) := d) \<and>
      disk (set_data i d s) = disk s \<and> dwrites (set_data i d s) = dwrites s \<and> dirties (set_data i d s) = dirties s \<and>
      (\<forall>j \<in> H - {i}. b_blockno (bufs (set_data i d s) ! j) = b_blockno (bufs s ! j) \<and>
        b_data (bufs (set_data i d s) ! j) = b_data (bufs s ! j)) \<and> bio_only s (set_data i d s)"
    using sp by (simp add: same_held_def)
next
  fix H :: "nat set" and s :: "'a bst_scheme" and i
  assume "bc_ok p H s" "i \<in> H" "b_blockno (bufs s ! i) < disksize s"
  then show "succeeds (bwrite i s) (\<lambda>_ t. bc_ok p H t \<and> bview t = bview s \<and>
      disk t = (disk s)(b_blockno (bufs s ! i) := b_data (bufs s ! i)) \<and>
      dwrites t = dwrites s @ [(b_blockno (bufs s ! i), b_data (bufs s ! i))] \<and> dirties t = dirties s - {b_blockno (bufs s ! i)} \<and>
      (\<forall>j \<in> H. b_blockno (bufs t ! j) = b_blockno (bufs s ! j) \<and> b_data (bufs t ! j) = b_data (bufs s ! j)) \<and> bio_only s t)"
    using bwrite_spec [of p H s i, unfolded same_held_def] by simp
next
  fix H :: "nat set" and s :: "'a bst_scheme" and i
  assume "bc_ok p H s" "i \<in> H" "b_data (bufs s ! i) = disk s (b_blockno (bufs s ! i)) \<or> b_blockno (bufs s ! i) \<in> dirties s"
  from brelse_spec [OF this, unfolded same_held_def]
  show "succeeds (brelse i s) (\<lambda>_ t. bc_ok p (H - {i}) t \<and> bview t = bview s \<and> disk t = disk s \<and> dwrites t = dwrites s \<and>
      dirties t = dirties s \<and> (\<forall>j \<in> H - {i}. b_blockno (bufs t ! j) = b_blockno (bufs s ! j) \<and>
        b_data (bufs t ! j) = b_data (bufs s ! j)) \<and> bio_only s t)"
    by (elim succeeds_mono) simp
qed (auto intro: bc_clean bio_only_trans simp: bio_only_def)

section \<open>Initialisation\<close>

lemma initsleeplock_bufs [simp]:
  "bufs (initsleeplock i nm s) = bufs s" "disk (initsleeplock i nm s) = disk s" "ptable (initsleeplock i nm s) = ptable s"
  "hw (initsleeplock i nm s) = initlock (LK_sleep i) ''sleep lock'' (hw s)"
  "slocks (initsleeplock i nm s) = (slocks s)(i := \<lparr>sl_locked = False, sl_name = nm, sl_pid = 0\<rparr>)"
  "disksize (initsleeplock i nm s) = disksize s" "dwrites (initsleeplock i nm s) = dwrites s"
  by (simp_all add: initsleeplock_def upd_slock_def)

lemma runs_initlock: "runs h p \<Longrightarrow> runs (initlock lk nm h) p"
  by (simp add: runs_def quiet_def cpu_ok_def initlock_def cur_def this_cpu_def depth_def readeflags_def)

definition blank :: "buf \<Rightarrow> bool" where
  "blank q \<longleftrightarrow> b_flags q = 0 \<and> b_dev q = 0 \<and> b_refcnt q = 0"

definition binit_upto :: "nat \<Rightarrow> 'z bst_scheme \<Rightarrow> 'z bst_scheme \<Rightarrow> bool" where
  "binit_upto n s t \<longleftrightarrow> length (bufs t) = NBUF + 1 \<and>
     links (\<lambda>i. b_next (bufs t ! i)) (\<lambda>i. b_prev (bufs t ! i)) (NBUF # rev [0..<n] @ [NBUF]) \<and>
     (\<forall>i < NBUF. blank (bufs t ! i)) \<and> (\<forall>i < n. \<not> sl_locked (slocks t (SL_buf i))) \<and>
     (\<forall>p. runs (hw s) p \<longrightarrow> runs (hw t) p) \<and> ptable t = ptable s \<and> disk t = disk s \<and> disksize t = disksize s \<and>
     dwrites t = dwrites s"

lemma binit_step:
  assumes I: "binit_upto n s t" and n: "n < NBUF"
  shows "binit_upto (Suc n) s (link_first n (initsleeplock (SL_buf n) ''buffer'' t))"
proof -
  let ?u = "initsleeplock (SL_buf n) ''buffer'' t"
  define v where "v = link_first n ?u"
  have lk: "links (\<lambda>i. b_next (bufs v ! i)) (\<lambda>i. b_prev (bufs v ! i)) (NBUF # n # rev [0..<n] @ [NBUF])"
    unfolding v_def by (rule link_first_ring) (use I n in \<open>auto simp: binit_upto_def\<close>)
  have sb: "same_but_links (bufs ?u) (bufs v)"
    unfolding v_def link_first_def Let_def
    by (rule same_but_links_trans [OF same_but_links_trans]; rule same_but_links_upd) simp_all
  have bt: "blank (bufs v ! i)" if "i < NBUF" for i
  proof -
    have "i < length (bufs ?u)" using that I by (simp add: binit_upto_def)
    then obtain x y where "bufs v ! i = (bufs ?u ! i)\<lparr>b_next := x, b_prev := y\<rparr>"
      using sb unfolding same_but_links_def by blast
    then show ?thesis using I that by (simp add: binit_upto_def blank_def)
  qed
  have fr: "slocks v = (slocks t)(SL_buf n := \<lparr>sl_locked = False, sl_name = ''buffer'', sl_pid = 0\<rparr>)"
    "hw v = initlock (LK_sleep (SL_buf n)) ''sleep lock'' (hw t)" "disksize v = disksize t"
    "length (bufs v) = length (bufs t)" "ptable v = ptable t" "disk v = disk t" "dwrites v = dwrites t"
    by (simp_all add: v_def link_first_def)
  have "NBUF # rev [0..<Suc n] @ [NBUF] = NBUF # n # rev [0..<n] @ [NBUF]" by simp
  then have "binit_upto (Suc n) s v"
    unfolding binit_upto_def using I lk bt fr runs_initlock by (auto simp: binit_upto_def less_Suc_eq simp del: links.simps upt_Suc)
  then show ?thesis by (simp add: v_def)
qed

lemma binit_steps:
  assumes len: "length (bufs s) = NBUF + 1" and bl: "\<forall>i < NBUF. blank (bufs s ! i)" and n: "n \<le> NBUF"
  shows "binit_upto n s (foldl (\<lambda>s b. link_first b (initsleeplock (SL_buf b) ''buffer'' s))
    (upd_buf NBUF (\<lambda>q. q\<lparr>b_prev := NBUF, b_next := NBUF\<rparr>) (s\<lparr>hw := initlock LK_bcache ''bcache'' (hw s)\<rparr>)) [0..<n])"
  using n
proof (induction n)
  case 0
  show ?case using len bl by (auto simp: binit_upto_def runs_initlock nth_update_if)
next
  case (Suc n)
  then show ?case
    unfolding upt_Suc_append [OF le0] foldl_append foldl.simps by (intro binit_step) simp_all
qed

lemma binit_ok:
  assumes "length (bufs s) = NBUF + 1" and "\<forall>i < NBUF. blank (bufs s ! i)" and "runs (hw s) p" and "p < length (ptable s)"
  shows "bc_ok p {} (binit s)" and "bview (binit s) = disk s" and "dirties (binit s) = {}"
    and "ring (bufs (binit s)) (rev [0..<NBUF])" and "disk (binit s) = disk s" and "disksize (binit s) = disksize s"
    and "ptable (binit s) = ptable s" and "dwrites (binit s) = dwrites s"
proof -
  have I: "binit_upto NBUF s (binit s)"
    using binit_steps [OF assms(1,2) order_refl] by (simp add: binit_def Let_def)
  then show r: "ring (bufs (binit s)) (rev [0..<NBUF])"
    unfolding ring_def binit_upto_def by (metis distinct_rev distinct_upt lessThan_atLeast0 atLeastLessThan_upt set_rev)
  have bl: "blank (bufs (binit s) ! i)" if "i < NBUF" for i using I that by (simp add: binit_upto_def)
  have "buf_ok p {} (binit s) i" if "i < NBUF" for i
    using bl [OF that] I that by (simp add: buf_ok_def Let_def blank_def binit_upto_def)
  then show "bc_ok p {} (binit s)"
    using r I bl assms(3,4) by (auto simp: bc_ok_def binit_upto_def blank_def)
  show d: "disk (binit s) = disk s" "disksize (binit s) = disksize s" "ptable (binit s) = ptable s" "dwrites (binit s) = dwrites s"
    using I by (simp_all add: binit_upto_def)
  show "bview (binit s) = disk s"
    unfolding d [symmetric] by (intro ext bview_uncached) (use bl in \<open>auto simp: blank_def\<close>)
  show "dirties (binit s) = {}" using bl by (auto simp: dirties_def blank_def)
qed

section \<open>Properties\<close>

definition zero_buf :: buf where
  "zero_buf = \<lparr>b_flags = 0, b_dev = 0, b_blockno = 0, b_refcnt = 0, b_prev = 0, b_next = 0, b_qnext = None,
     b_data = replicate BSIZE 0\<rparr>"

definition bio_boot :: "(u32 \<Rightarrow> block) \<Rightarrow> u32 \<Rightarrow> bst" where
  "bio_boot d n = kmst.extend (km0\<lparr>hw := cpu0\<rparr>) (bst.fields (replicate (NBUF + 1) zero_buf) d n [])"

lemma bio_boot_sel [simp]:
  "bufs (bio_boot d n) = replicate 31 zero_buf" "disk (bio_boot d n) = d" "disksize (bio_boot d n) = n"
  "dwrites (bio_boot d n) = []" "hw (bio_boot d n) = cpu0" "ptable (bio_boot d n) = ptable km0"
  by (simp_all add: bio_boot_def kmst.defs bst.defs)

lemma bio_boot_ok:
  "bc_ok 0 {} (binit (bio_boot d n))" "bview (binit (bio_boot d n)) = d" "dirties (binit (bio_boot d n)) = {}"
  "disk (binit (bio_boot d n)) = d" "disksize (binit (bio_boot d n)) = n"
proof -
  have "length (bufs (bio_boot d n)) = NBUF + 1" "\<forall>i < NBUF. blank (bufs (bio_boot d n) ! i)" "runs (hw (bio_boot d n)) 0"
    "0 < length (ptable (bio_boot d n))"
    using cpu0_quiet cpu0_cur by (simp_all add: blank_def zero_buf_def runs_def kst0_def)
  note ok = binit_ok [OF this]
  show "bc_ok 0 {} (binit (bio_boot d n))" "bview (binit (bio_boot d n)) = d" "dirties (binit (bio_boot d n)) = {}"
    "disk (binit (bio_boot d n)) = d" "disksize (binit (bio_boot d n)) = n"
    using ok by simp_all
qed

text \<open>
  C5: When process \<open>p\<close> holds the buffers \<open>H\<close> and some buffer is neither held nor pinned by the log, \<open>bread\<close>
  returns a buffer of the requested block, locked by \<open>p\<close>, with the content of the block: the cached copy
  if there is one, else the disk's. The other buffers \<open>p\<close> holds, the content of every block as seen
  through the cache, and the disk stay as they are.
\<close>

theorem bread_coherent:
  assumes "bc_ok p H s" and "\<And>i. i \<in> H \<Longrightarrow> b_blockno (bufs s ! i) \<noteq> b"
    and "card H + card (dirties s) < NBUF" and "b < disksize s"
  shows "succeeds (bread 1 b s) (\<lambda>i t. i \<notin> H \<and> bc_ok p (insert i H) t \<and> b_blockno (bufs t ! i) = b \<and>
    b_data (bufs t ! i) = bview s b \<and> bview t = bview s \<and> disk t = disk s \<and> same_held H s t)"
  using bread_spec [OF assms(1,2) _ assms(4)] assms(3) by (auto simp: broom_def elim!: succeeds_mono)

theorem bread_coherent_witness:
  "succeeds (bread 1 7 (binit (bio_boot (\<lambda>b. replicate BSIZE (ucast b)) 1000)))
     (\<lambda>i t. b_data (bufs t ! i) = replicate BSIZE 7)"
proof -
  let ?s = "binit (bio_boot (\<lambda>b. replicate BSIZE (ucast b)) 1000)"
  show ?thesis
    using bread_coherent [OF bio_boot_ok(1) [of "\<lambda>b. replicate BSIZE (ucast b)" 1000], of 7]
    by (auto simp: bio_boot_ok elim!: succeeds_mono)
qed

text \<open>
  C24: The links of the buffers form a ring in order of last release. If \<open>l\<close> lists the buffers from
  \<open>head.next\<close> on, then \<open>brelse\<close> of a buffer whose content is on disk or pinned leaves the ring that has
  this buffer first and the others in their order, and the cache consistent.
\<close>

theorem brelse_most_recent:
  assumes "bc_ok p H s" and "i \<in> H" and "ring (bufs s) l"
    and "b_data (bufs s ! i) = disk s (b_blockno (bufs s ! i)) \<or> b_blockno (bufs s ! i) \<in> dirties s"
  shows "succeeds (brelse i s) (\<lambda>_ t. ring (bufs t) (i # remove1 i l) \<and> bc_ok p (H - {i}) t \<and> bview t = bview s)"
  using brelse_spec [OF assms(1,2,4)] assms(3) by (auto elim!: succeeds_mono)

theorem brelse_most_recent_witness:
  "succeeds (andthen (bread 1 7 (binit (bio_boot (\<lambda>b. replicate BSIZE (ucast b)) 1000))) brelse)
     (\<lambda>_ t. \<exists>i l. ring (bufs t) (i # l))"
  unfolding succeeds_andthen
proof (rule succeeds_mono [OF bread_spec [OF bio_boot_ok(1)]], simp, simp add: bio_boot_ok broom_def,
    simp add: bio_boot_ok, elim conjE)
  fix i and t :: bst
  assume i: "bc_ok 0 (insert i {}) t" "b_blockno (bufs t ! i) = 7" "disk t = disk (binit (bio_boot (\<lambda>b. replicate BSIZE (ucast b)) 1000))"
    "b_data (bufs t ! i) = bview (binit (bio_boot (\<lambda>b. replicate BSIZE (ucast b)) 1000)) 7"
  obtain l where "ring (bufs t) l" using i(1) by (auto simp: bc_ok_def)
  then show "succeeds (brelse i t) (\<lambda>_ t. \<exists>i l. ring (bufs t) (i # l))"
    using brelse_most_recent [OF i(1) _ \<open>ring (bufs t) l\<close>] i(2-4) by (auto simp: bio_boot_ok elim!: succeeds_mono)
qed

end
