(* ===== verification/Layout.thy ===== *)
theory Layout
  imports Prelude
begin

text \<open>
  The on-disk format (fs.h, log.c): little-endian fields of a block, the super block, the log header, the
  64-byte inodes and the 16-byte directory entries. A block is a list of bytes. The kernel reads and
  writes these structures through casts of buffer pointers; here each cast is a decoding and each
  assignment through it an encoding at the same offset.
\<close>

section \<open>Definitions\<close>

definition get16 :: "byte list \<Rightarrow> nat \<Rightarrow> ushort" where
  "get16 d k = ucast (d ! k) OR push_bit 8 (ucast (d ! (k + 1)))"

definition put16 :: "byte list \<Rightarrow> nat \<Rightarrow> ushort \<Rightarrow> byte list" where
  "put16 d k v = d[k := ucast v, k + 1 := ucast (drop_bit 8 v)]"

definition get32 :: "byte list \<Rightarrow> nat \<Rightarrow> u32" where
  "get32 d k = ucast (d ! k) OR push_bit 8 (ucast (d ! (k + 1)))
     OR push_bit 16 (ucast (d ! (k + 2))) OR push_bit 24 (ucast (d ! (k + 3)))"

definition put32 :: "byte list \<Rightarrow> nat \<Rightarrow> u32 \<Rightarrow> byte list" where
  "put32 d k v = d[k := ucast v, k + 1 := ucast (drop_bit 8 v),
     k + 2 := ucast (drop_bit 16 v), k + 3 := ucast (drop_bit 24 v)]"

definition get32s :: "byte list \<Rightarrow> nat \<Rightarrow> nat \<Rightarrow> u32 list" where
  "get32s d k n = map (\<lambda>i. get32 d (k + 4 * i)) [0..<n]"

definition put32s :: "byte list \<Rightarrow> nat \<Rightarrow> u32 list \<Rightarrow> byte list" where
  "put32s d k vs = foldl (\<lambda>d i. put32 d (k + 4 * i) (vs ! i)) d [0..<length vs]"

definition put_bytes :: "byte list \<Rightarrow> nat \<Rightarrow> byte list \<Rightarrow> byte list" where
  "put_bytes d k bs = take k d @ bs @ drop (k + length bs) d"

definition get_bytes :: "byte list \<Rightarrow> nat \<Rightarrow> nat \<Rightarrow> byte list" where
  "get_bytes d k n = take n (drop k d)"

record superblock =
  sb_size :: u32
  sb_nblocks :: u32
  sb_ninodes :: u32
  sb_nlog :: u32
  sb_logstart :: u32
  sb_inodestart :: u32
  sb_bmapstart :: u32

definition get_sb :: "byte list \<Rightarrow> superblock" where
  "get_sb d = \<lparr>sb_size = get32 d 0, sb_nblocks = get32 d 4, sb_ninodes = get32 d 8, sb_nlog = get32 d 12,
     sb_logstart = get32 d 16, sb_inodestart = get32 d 20, sb_bmapstart = get32 d 24\<rparr>"

record dinode =
  di_type :: ushort
  di_major :: ushort
  di_minor :: ushort
  di_nlink :: ushort
  di_size :: u32
  di_addrs :: "u32 list"

definition get_dinode :: "byte list \<Rightarrow> nat \<Rightarrow> dinode" where
  "get_dinode d k = \<lparr>di_type = get16 d k, di_major = get16 d (k + 2), di_minor = get16 d (k + 4),
     di_nlink = get16 d (k + 6), di_size = get32 d (k + 8), di_addrs = get32s d (k + 12) 13\<rparr>"

definition put_dinode :: "byte list \<Rightarrow> nat \<Rightarrow> dinode \<Rightarrow> byte list" where
  "put_dinode d k x = put32s (put32 (put16 (put16 (put16 (put16 d k (di_type x)) (k + 2) (di_major x))
     (k + 4) (di_minor x)) (k + 6) (di_nlink x)) (k + 8) (di_size x)) (k + 12) (di_addrs x)"

record dirent =
  de_inum :: ushort
  de_name :: "byte list"

definition get_dirent :: "byte list \<Rightarrow> dirent" where
  "get_dirent d = \<lparr>de_inum = get16 d 0, de_name = get_bytes d 2 14\<rparr>"

definition dirent_bytes :: "dirent \<Rightarrow> byte list" where
  "dirent_bytes x = [ucast (de_inum x), ucast (drop_bit 8 (de_inum x))] @ de_name x"

section \<open>Round trips and independence\<close>

lemma length_put [simp]:
  "length (put16 d k v) = length d" "length (put32 d k w) = length d" "length (put32s d k vs) = length d"
proof -
  show l: "length (put16 d k v) = length d" "length (put32 d k w) = length d" for d k v w
    by (simp_all add: put16_def put32_def)
  have "length (foldl (\<lambda>d i. put32 d (k + 4 * i) (vs ! i)) d is) = length d" for "is"
    by (induction "is" arbitrary: d) (simp_all add: l)
  then show "length (put32s d k vs) = length d" by (simp add: put32s_def)
qed

lemma put_other:
  "j < k \<or> k + 2 \<le> j \<Longrightarrow> put16 d k v ! j = d ! j"
  "j < k \<or> k + 4 \<le> j \<Longrightarrow> put32 d k w ! j = d ! j"
  by (auto simp: put16_def put32_def)

lemma put32s_other: "j < k \<or> k + 4 * length vs \<le> j \<Longrightarrow> put32s d k vs ! j = d ! j"
proof -
  assume j: "j < k \<or> k + 4 * length vs \<le> j"
  have "foldl (\<lambda>d i. put32 d (k + 4 * i) (vs ! i)) d [0..<n] ! j = d ! j" if "n \<le> length vs" for n
    using that j by (induction n) (auto simp: put_other)
  then show ?thesis by (simp add: put32s_def)
qed

lemma get_cong:
  "(\<And>j. k \<le> j \<Longrightarrow> j < k + 2 \<Longrightarrow> d ! j = e ! j) \<Longrightarrow> get16 d k = get16 e k"
  "(\<And>j. k \<le> j \<Longrightarrow> j < k + 4 \<Longrightarrow> d ! j = e ! j) \<Longrightarrow> get32 d k = get32 e k"
  by (simp_all add: get16_def get32_def)

lemma get_put16: "k + 1 < length d \<Longrightarrow> get16 (put16 d k v) k = v"
proof -
  have "ucast (ucast v :: byte) OR push_bit 8 (ucast (ucast (drop_bit 8 v) :: byte)) = v"
  proof (rule bit_word_eqI)
    fix n assume n: "n < LENGTH(16)"
    then show "bit (ucast (ucast v :: byte) OR push_bit 8 (ucast (ucast (drop_bit 8 v) :: byte)) :: ushort) n = bit v n"
      by (cases "n < 8") (auto simp: bit_simps)
  qed
  then show "k + 1 < length d \<Longrightarrow> get16 (put16 d k v) k = v" by (simp add: get16_def put16_def)
qed

lemma get_put32: "k + 3 < length d \<Longrightarrow> get32 (put32 d k v) k = v"
  using bytes_of_word [of v] by (simp add: get32_def put32_def)

lemma get_put_other:
  "j + 2 \<le> k \<or> k + 2 \<le> j \<Longrightarrow> get16 (put16 d k v) j = get16 d j"
  "j + 2 \<le> k \<or> k + 4 \<le> j \<Longrightarrow> get16 (put32 d k w) j = get16 d j"
  "j + 4 \<le> k \<or> k + 2 \<le> j \<Longrightarrow> get32 (put16 d k v) j = get32 d j"
  "j + 4 \<le> k \<or> k + 4 \<le> j \<Longrightarrow> get32 (put32 d k w) j = get32 d j"
  "j + 2 \<le> k \<or> k + 4 * length vs \<le> j \<Longrightarrow> get16 (put32s d k vs) j = get16 d j"
  "j + 4 \<le> k \<or> k + 4 * length vs \<le> j \<Longrightarrow> get32 (put32s d k vs) j = get32 d j"
  by (rule get_cong; auto simp: put_other put32s_other)+

lemma get_put32s: "i < length vs \<Longrightarrow> k + 4 * length vs \<le> length d \<Longrightarrow> get32 (put32s d k vs) (k + 4 * i) = vs ! i"
proof -
  assume i: "i < length vs" and l: "k + 4 * length vs \<le> length d"
  let ?f = "\<lambda>n. foldl (\<lambda>d i. put32 d (k + 4 * i) (vs ! i)) d [0..<n]"
  have len: "length (?f n) = length d" for n by (induction n) simp_all
  have "get32 (?f n) (k + 4 * i) = vs ! i" if "i < n" "n \<le> length vs" for n
    using that
  proof (induction n)
    case (Suc n)
    show ?case
    proof (cases "i = n")
      case True
      then show ?thesis using Suc.prems l len [of n] by (simp add: get_put32)
    next
      case False
      then show ?thesis using Suc by (simp add: get_put_other)
    qed
  qed simp
  then show ?thesis using i by (simp add: put32s_def)
qed

lemma get32s_put32s:
  "k + 4 * length vs \<le> length d \<Longrightarrow> n = length vs \<Longrightarrow> get32s (put32s d k vs) k n = vs"
  by (rule nth_equalityI) (simp_all add: get32s_def get_put32s)

lemma get32s_other:
  "j + 4 * n \<le> k \<or> k + 4 * length vs \<le> j \<Longrightarrow> get32s (put32s d k vs) j n = get32s d j n"
  "j + 4 * n \<le> k \<or> k + 4 \<le> j \<Longrightarrow> get32s (put32 d k w) j n = get32s d j n"
  "j + 4 * n \<le> k \<or> k + 2 \<le> j \<Longrightarrow> get32s (put16 d k v) j n = get32s d j n"
  by (auto simp: get32s_def get_put_other)

lemma get_put_bytes: "k + length bs \<le> length d \<Longrightarrow> n = length bs \<Longrightarrow> get_bytes (put_bytes d k bs) k n = bs"
  by (simp add: get_bytes_def put_bytes_def)

lemma length_put_bytes [simp]: "k + length bs \<le> length d \<Longrightarrow> length (put_bytes d k bs) = length d"
  by (simp add: put_bytes_def)

text \<open>
  C32: The inode format round-trips and inodes of a block are independent: storing an in-memory inode with
  13 addresses into its 64-byte slot and loading the slot again gives the inode back, and leaves every
  other slot of the block as it was.
\<close>

theorem dinode_roundtrip:
  assumes "length (di_addrs x) = 13" and "64 * i + 64 \<le> length d"
  shows "get_dinode (put_dinode d (64 * i) x) (64 * i) = x \<and> length (put_dinode d (64 * i) x) = length d \<and>
    (\<forall>j. j \<noteq> i \<longrightarrow> get_dinode (put_dinode d (64 * i) x) (64 * j) = get_dinode d (64 * j))"
proof (intro conjI allI impI)
  show "get_dinode (put_dinode d (64 * i) x) (64 * i) = x"
    using assms by (intro dinode.equality) (simp_all add: get_dinode_def put_dinode_def get_put_other get_put16 get_put32 get32s_put32s)
  show "length (put_dinode d (64 * i) x) = length d" by (simp add: put_dinode_def)
  fix j assume "j \<noteq> i"
  then have "64 * j + 64 \<le> 64 * i \<or> 64 * i + 64 \<le> 64 * j" by auto
  then show "get_dinode (put_dinode d (64 * i) x) (64 * j) = get_dinode d (64 * j)"
    using assms(1) by (auto simp: get_dinode_def put_dinode_def get_put_other get32s_other)
qed

theorem dinode_roundtrip_witness:
  "get_dinode (put_dinode (replicate 512 0) (64 * 3) \<lparr>di_type = 1, di_major = 0, di_minor = 0, di_nlink = 2,
     di_size = 1024, di_addrs = [70, 71, 0, 0, 0, 0, 0, 0, 0, 0, 0, 0, 90]\<rparr>) (64 * 3) =
   \<lparr>di_type = 1, di_major = 0, di_minor = 0, di_nlink = 2, di_size = 1024,
     di_addrs = [70, 71, 0, 0, 0, 0, 0, 0, 0, 0, 0, 0, 90]\<rparr>"
  using dinode_roundtrip [of "\<lparr>di_type = 1, di_major = 0, di_minor = 0, di_nlink = 2,
     di_size = 1024, di_addrs = [70, 71, 0, 0, 0, 0, 0, 0, 0, 0, 0, 0, 90]\<rparr>" 3 "replicate 512 0"] by simp

text \<open>Directory entries round-trip: the 16 bytes written for an entry with a 14-byte name decode to it.\<close>

lemma dirent_roundtrip:
  assumes "length (de_name x) = 14"
  shows "length (dirent_bytes x) = 16 \<and> get_dirent (dirent_bytes x) = x"
proof -
  have "get16 (put16 [0, 0] 0 (de_inum x)) 0 = de_inum x" by (rule get_put16) simp
  then show ?thesis using assms
    by (simp add: dirent_bytes_def get_dirent_def get_bytes_def get16_def put16_def)
qed

end
