(* ===== verification/Log.thy ===== *)
theory Log
  imports Bio Layout
begin

text \<open>
  The write-ahead log (log.c). File system calls run between \<open>begin_op\<close> and \<open>end_op\<close>; \<open>log_write\<close> pins a
  modified buffer and records its block number; the last \<open>end_op\<close> commits: it copies the blocks to the
  log, writes the header (the commit point), installs the blocks at home and erases the header.

  The main result is crash atomicity: whatever prefix of the block writes of \<open>commit\<close> reaches the disk,
  recovery at the next boot leaves either all or none of the logged blocks with their new content.
\<close>

section \<open>Definitions\<close>

abbreviation (input) "MAXOPBLOCKS \<equiv> (10 :: int)"
abbreviation (input) "LOGSIZE \<equiv> (30 :: nat)"

record lst = bst +
  lg_start :: u32
  lg_size :: int
  lg_outstanding :: int
  lg_committing :: bool
  lg_dev :: u32
  lg_n :: int
  lg_block :: "u32 list"

definition readsb :: "u32 \<Rightarrow> 'z bst_scheme \<Rightarrow> (superblock, 'z bst_scheme) out" where
  "readsb dev s =
     andthen (bread dev 1 s) (\<lambda>bp s.
     let sb = get_sb (b_data (bufs s ! bp)) in
     andthen (brelse bp s) (\<lambda>_ s. Ok sb s))"

definition install_block :: "nat \<Rightarrow> 'z lst_scheme \<Rightarrow> (unit, 'z lst_scheme) out" where
  "install_block tail s =
     andthen (bread (lg_dev s) (lg_start s + of_nat tail + 1) s) (\<lambda>lbuf s.
     andthen (bread (lg_dev s) (lg_block s ! tail) s) (\<lambda>dbuf s.
     andthen (bwrite dbuf (set_data dbuf (b_data (bufs s ! lbuf)) s)) (\<lambda>_ s.
     andthen (brelse lbuf s) (\<lambda>_ s. brelse dbuf s))))"

definition install_trans :: "'z lst_scheme \<Rightarrow> (unit, 'z lst_scheme) out" where
  "install_trans s = foreach install_block [0..<nat (lg_n s)] s"

definition read_head :: "'z lst_scheme \<Rightarrow> (unit, 'z lst_scheme) out" where
  "read_head s =
     andthen (bread (lg_dev s) (lg_start s) s) (\<lambda>buf s.
     let lh = b_data (bufs s ! buf); n = sint (get32 lh 0) in
     if int LOGSIZE < n then Undef ''log header''
     else brelse buf (s\<lparr>lg_n := n,
       lg_block := get32s lh 4 (nat n) @ drop (nat n) (lg_block s)\<rparr>))"

definition head_block :: "int \<Rightarrow> u32 list \<Rightarrow> block \<Rightarrow> block" where
  "head_block n bs d = put32s (put32 d 0 (of_int n)) 4 (take (nat n) bs)"

definition write_head :: "'z lst_scheme \<Rightarrow> (unit, 'z lst_scheme) out" where
  "write_head s =
     andthen (bread (lg_dev s) (lg_start s) s) (\<lambda>buf s.
     andthen (bwrite buf (set_data buf (head_block (lg_n s) (lg_block s) (b_data (bufs s ! buf))) s)) (\<lambda>_ s.
     brelse buf s))"

definition recover_from_log :: "'z lst_scheme \<Rightarrow> (unit, 'z lst_scheme) out" where
  "recover_from_log s =
     andthen (read_head s) (\<lambda>_ s.
     andthen (install_trans s) (\<lambda>_ s.
     write_head (s\<lparr>lg_n := 0\<rparr>)))"

definition initlog :: "u32 \<Rightarrow> 'z lst_scheme \<Rightarrow> (unit, 'z lst_scheme) out" where
  "initlog dev s =
     (if BSIZE \<le> 4 * (1 + LOGSIZE) then Panic ''initlog: too big logheader''
      else andthen (readsb dev (s\<lparr>hw := initlock LK_log ''log'' (hw s)\<rparr>)) (\<lambda>sb s.
        recover_from_log (s\<lparr>lg_start := sb_logstart sb, lg_size := sint (sb_nlog sb), lg_dev := dev\<rparr>)))"

text \<open>
  The body of the loop of \<open>begin_op\<close>; a caller that sleeps runs it again when it has been woken and has
  the lock back.
\<close>

definition begin_op_loop :: "'z lst_scheme \<Rightarrow> (unit, 'z lst_scheme) out" where
  "begin_op_loop s =
     (if lg_committing s then sleep Ch_log (Some LK_log) s
      else if int LOGSIZE < lg_n s + (lg_outstanding s + 1) * MAXOPBLOCKS
      then sleep Ch_log (Some LK_log) s
      else krelease LK_log (s\<lparr>lg_outstanding := lg_outstanding s + 1\<rparr>))"

definition begin_op :: "'z lst_scheme \<Rightarrow> (unit, 'z lst_scheme) out" where
  "begin_op s = andthen (kacquire LK_log s) (\<lambda>_ s. begin_op_loop s)"

definition write_block :: "nat \<Rightarrow> 'z lst_scheme \<Rightarrow> (unit, 'z lst_scheme) out" where
  "write_block tail s =
     andthen (bread (lg_dev s) (lg_start s + of_nat tail + 1) s) (\<lambda>to s.
     andthen (bread (lg_dev s) (lg_block s ! tail) s) (\<lambda>from s.
     andthen (bwrite to (set_data to (b_data (bufs s ! from)) s)) (\<lambda>_ s.
     andthen (brelse from s) (\<lambda>_ s. brelse to s))))"

definition write_log :: "'z lst_scheme \<Rightarrow> (unit, 'z lst_scheme) out" where
  "write_log s = foreach write_block [0..<nat (lg_n s)] s"

definition commit :: "'z lst_scheme \<Rightarrow> (unit, 'z lst_scheme) out" where
  "commit s =
     (if 0 < lg_n s
      then andthen (write_log s) (\<lambda>_ s.
        andthen (write_head s) (\<lambda>_ s.
        andthen (install_trans s) (\<lambda>_ s.
        write_head (s\<lparr>lg_n := 0\<rparr>))))
      else Ok () s)"

definition end_op :: "'z lst_scheme \<Rightarrow> (unit, 'z lst_scheme) out" where
  "end_op s =
     andthen (kacquire LK_log s) (\<lambda>_ s.
     let s = s\<lparr>lg_outstanding := lg_outstanding s - 1\<rparr> in
     if lg_committing s then Panic ''log.committing''
     else let do_commit = (lg_outstanding s = 0) in
       andthen (if do_commit then Ok () (s\<lparr>lg_committing := True\<rparr>) else wakeup Ch_log s) (\<lambda>_ s.
       andthen (krelease LK_log s) (\<lambda>_ s.
       if do_commit
       then andthen (commit s) (\<lambda>_ s.
         andthen (kacquire LK_log s) (\<lambda>_ s.
         andthen (wakeup Ch_log (s\<lparr>lg_committing := False\<rparr>)) (\<lambda>_ s.
         krelease LK_log s)))
       else Ok () s)))"

primrec log_slot :: "u32 \<Rightarrow> nat \<Rightarrow> u32 list \<Rightarrow> nat" where
  "log_slot b 0 bs = 0"
| "log_slot b (Suc n) bs = (if hd bs = b then 0 else Suc (log_slot b n (tl bs)))"

definition log_write :: "nat \<Rightarrow> 'z lst_scheme \<Rightarrow> (unit, 'z lst_scheme) out" where
  "log_write b s =
     (if int LOGSIZE \<le> lg_n s \<or> lg_size s - 1 \<le> lg_n s then Panic ''too big a transaction''
      else if lg_outstanding s < 1 then Panic ''log_write outside of trans''
      else andthen (kacquire LK_log s) (\<lambda>_ s.
        let blockno = b_blockno (bufs s ! b); i = log_slot blockno (nat (lg_n s)) (lg_block s);
            s = s\<lparr>lg_block := (lg_block s)[i := blockno]\<rparr>;
            s = (if int i = lg_n s then s\<lparr>lg_n := lg_n s + 1\<rparr> else s) in
        krelease LK_log (pin b s)))"

section \<open>Sequences of block writes\<close>

definition apply_writes :: "(u32 \<Rightarrow> block) \<Rightarrow> (u32 \<times> block) list \<Rightarrow> u32 \<Rightarrow> block" where
  "apply_writes d ws = foldl (\<lambda>d w. d(fst w := snd w)) d ws"

lemma apply_writes_simps [simp]:
  "apply_writes d [] = d" "apply_writes d (w # ws) = apply_writes (d(fst w := snd w)) ws"
  "apply_writes d (vs @ ws) = apply_writes (apply_writes d vs) ws"
  by (simp_all add: apply_writes_def)

lemma apply_writes_other: "b \<notin> fst ` set ws \<Longrightarrow> apply_writes d ws b = d b"
  by (induction ws arbitrary: d) auto

lemma apply_writes_map:
  assumes "distinct (map f xs)" and "x \<in> set xs"
  shows "apply_writes d (map (\<lambda>x. (f x, g x)) xs) (f x) = g x"
  using assms
proof (induction xs arbitrary: d)
  case (Cons y ys)
  show ?case
  proof (cases "x \<in> set ys")
    case False
    then have "x = y" "f x \<notin> fst ` set (map (\<lambda>x. (f x, g x)) ys)" using Cons.prems by (auto simp: image_image)
    then show ?thesis by (simp add: apply_writes_other)
  qed (use Cons in auto)
qed simp

text \<open>Writes that agree with \<open>e\<close> change nothing in it.\<close>

lemma apply_writes_same: "(\<And>b x. (b, x) \<in> set ws \<Longrightarrow> e b = x) \<Longrightarrow> apply_writes e ws = e"
  by (induction ws) (auto simp: fun_upd_idem)

section \<open>The parts of a commit\<close>

lemma bio_only_log:
  assumes "bio_only s (t :: 'z lst_scheme)"
  shows "lg_start t = lg_start s" "lg_size t = lg_size s" "lg_outstanding t = lg_outstanding s"
    "lg_committing t = lg_committing s" "lg_dev t = lg_dev s" "lg_n t = lg_n s" "lg_block t = lg_block s"
    "lst.more t = lst.more s" "disksize t = disksize s"
  using assms by (cases s; cases t; simp add: bio_only_def)+

abbreviation (input) logblk :: "u32 \<Rightarrow> nat \<Rightarrow> u32" where "logblk st k \<equiv> st + of_nat k + 1"

text \<open>
  The log at \<open>st\<close> and the \<open>m\<close> recorded home blocks \<open>bs\<close> on a disk of \<open>lim\<close> blocks: the header and the first
  \<open>m\<close> log blocks are inside the disk, the home blocks are distinct, inside the disk and outside the log.
\<close>

definition log_area :: "u32 \<Rightarrow> u32 list \<Rightarrow> u32 \<Rightarrow> bool" where
  "log_area st bs lim \<longleftrightarrow> length bs \<le> 29 \<and> unat st + length bs < unat lim \<and> distinct bs \<and>
     (\<forall>b \<in> set bs. b < lim \<and> (b < st \<or> st + of_nat (length bs) < b))"

lemma log_areaD:
  assumes a: "log_area st bs lim" and k: "k < length bs"
  shows "logblk st k < lim" "logblk st k \<noteq> st" "bs ! k < lim" "bs ! k \<noteq> st" "j < length bs \<Longrightarrow> logblk st j \<noteq> bs ! k"
    "j < length bs \<Longrightarrow> logblk st j = logblk st k \<longleftrightarrow> j = k" "st < lim"
proof -
  have u: "unat (logblk st j) = unat st + j + 1" if "j < length bs" for j
  proof -
    have lt: "unat st + j + 1 < 2 ^ 32"
      using a that unsigned_less [of lim, where 'a = nat] by (simp add: log_area_def)
    have "unat (of_nat j :: u32) = j" by (rule unat_of_nat_small) (use lt in simp)
    then have "unat (st + of_nat j) = unat st + j" using lt by (subst unat_plus_lt) simp_all
    then show ?thesis using lt by (subst unat_plus_lt) simp_all
  qed
  have ub: "unat (st + of_nat (length bs)) = unat st + length bs"
  proof -
    have lt: "unat st + length bs < 2 ^ 32"
      using a unsigned_less [of lim, where 'a = nat] by (simp add: log_area_def)
    have "unat (of_nat (length bs) :: u32) = length bs" by (rule unat_of_nat_small) (use lt in simp)
    then show ?thesis using lt by (subst unat_plus_lt) simp_all
  qed
  have m: "bs ! k \<in> set bs" using k by simp
  then have h: "bs ! k < lim" "bs ! k < st \<or> st + of_nat (length bs) < bs ! k" using a by (auto simp: log_area_def)
  show "logblk st k < lim" "st < lim" using u [OF k] a k by (auto simp: log_area_def word_less_nat_alt)
  show "logblk st k \<noteq> st" using u [OF k] by (metis add.assoc add_eq_self_zero add_is_0 one_neq_zero)
  show "bs ! k < lim" by (rule h)
  show "bs ! k \<noteq> st" using h(2) ub by (auto simp: word_less_nat_alt)
  show "logblk st j \<noteq> bs ! k" if "j < length bs" using h(2) ub u [OF that] that by (auto simp: word_less_nat_alt)
  show "logblk st j = logblk st k \<longleftrightarrow> j = k" if "j < length bs" using u [OF that] u [OF k] by (metis add_left_cancel add_right_cancel)
qed

definition log_at :: "nat \<Rightarrow> u32 \<Rightarrow> u32 list \<Rightarrow> 'z lst_scheme \<Rightarrow> bool" where
  "log_at p st bs s \<longleftrightarrow> bc_ok p {} s \<and> lg_dev s = 1 \<and> lg_start s = st \<and> log_area st bs (disksize s) \<and>
     lg_n s = int (length bs) \<and> take (length bs) (lg_block s) = bs \<and> card (dirties s) \<le> 28"

lemma log_at_only: "log_at p st bs s \<Longrightarrow> bio_only s t \<Longrightarrow> bc_ok p {} t \<Longrightarrow> card (dirties t) \<le> 28 \<Longrightarrow> log_at p st bs t"
  unfolding log_at_def using bio_only_log [of s t] by simp

text \<open>One step of \<open>write_log\<close> and of \<open>install_trans\<close>: both are instances of the cache's block copy.\<close>

lemma write_block_spec:
  assumes l: "log_at p st bs s" and k: "k < length bs"
  shows "succeeds (write_block k s) (\<lambda>_ t. bc_ok p {} t \<and> bio_only s t \<and>
    bview t = (bview s)(logblk st k := bview s (bs ! k)) \<and> disk t = (disk s)(logblk st k := bview s (bs ! k)) \<and>
    dwrites t = dwrites s @ [(logblk st k, bview s (bs ! k))] \<and> dirties t = dirties s - {logblk st k})"
proof -
  have ok: "bc_ok p {} s" and dev: "lg_dev s = 1" and st: "lg_start s = st" and a: "log_area st bs (disksize s)"
    and bk: "lg_block s ! k = bs ! k" and room: "card (dirties s) + 1 < NBUF"
    using l k by (auto simp: log_at_def) (metis nth_take)
  note ar = log_areaD [OF a k]
  have eq: "write_block k s = andthen (bread 1 (logblk st k) s) (\<lambda>to s.
     andthen (bread (lg_dev s) (lg_block s ! k) s) (\<lambda>from s.
     andthen (bwrite to (set_data to (b_data (bufs s ! from)) s)) (\<lambda>_ s.
     andthen (brelse from s) (\<lambda>_ s. brelse to s))))"
    by (simp add: write_block_def dev st)
  show ?thesis
    unfolding eq
  proof (rule succeeds_mid [OF bc.rd [OF ok]])
    fix x and t :: "'a lst_scheme"
    assume "x \<notin> {} \<and> bc_ok p {x} t \<and> b_blockno (bufs t ! x) = logblk st k \<and> b_data (bufs t ! x) = bview s (logblk st k) \<and>
      bview t = bview s \<and> disk t = disk s \<and> dwrites t = dwrites s \<and> dirties t = dirties s \<and>
      (\<forall>j \<in> {}. b_blockno (bufs t ! j) = b_blockno (bufs s ! j) \<and> b_data (bufs t ! j) = b_data (bufs s ! j)) \<and> bio_only s t"
    then have "lg_dev t = 1" "lg_block t ! k = bs ! k" using bio_only_log [of s t] dev bk by simp_all
    then show "andthen (bread (lg_dev t) (lg_block t ! k) t) (\<lambda>from s.
       andthen (bwrite x (set_data x (b_data (bufs s ! from)) s)) (\<lambda>_ s. andthen (brelse from s) (\<lambda>_ s. brelse x s))) =
      andthen (bread 1 (bs ! k) t) (\<lambda>from s.
       andthen (bwrite x (set_data x (b_data (bufs s ! from)) s)) (\<lambda>_ s. andthen (brelse from s) (\<lambda>_ s. brelse x s)))"
      by simp
  qed (use room ar(1) bc.copy_block(2) [OF ok ar(5) [OF k, symmetric] ar(3,1) room] in \<open>auto elim!: succeeds_mono\<close>)
qed

lemma install_block_spec:
  assumes l: "log_at p st bs s" and k: "k < length bs"
  shows "succeeds (install_block k s) (\<lambda>_ t. bc_ok p {} t \<and> bio_only s t \<and>
    bview t = (bview s)(bs ! k := bview s (logblk st k)) \<and> disk t = (disk s)(bs ! k := bview s (logblk st k)) \<and>
    dwrites t = dwrites s @ [(bs ! k, bview s (logblk st k))] \<and> dirties t = dirties s - {bs ! k})"
proof -
  have ok: "bc_ok p {} s" and dev: "lg_dev s = 1" and st: "lg_start s = st" and a: "log_area st bs (disksize s)"
    and bk: "lg_block s ! k = bs ! k" and room: "card (dirties s) + 1 < NBUF"
    using l k by (auto simp: log_at_def) (metis nth_take)
  note ar = log_areaD [OF a k]
  have eq: "install_block k s = andthen (bread 1 (logblk st k) s) (\<lambda>lbuf s.
     andthen (bread (lg_dev s) (lg_block s ! k) s) (\<lambda>dbuf s.
     andthen (bwrite dbuf (set_data dbuf (b_data (bufs s ! lbuf)) s)) (\<lambda>_ s.
     andthen (brelse lbuf s) (\<lambda>_ s. brelse dbuf s))))"
    by (simp add: install_block_def dev st)
  show ?thesis
    unfolding eq
  proof (rule succeeds_mid [OF bc.rd [OF ok]])
    fix x and t :: "'a lst_scheme"
    assume "x \<notin> {} \<and> bc_ok p {x} t \<and> b_blockno (bufs t ! x) = logblk st k \<and> b_data (bufs t ! x) = bview s (logblk st k) \<and>
      bview t = bview s \<and> disk t = disk s \<and> dwrites t = dwrites s \<and> dirties t = dirties s \<and>
      (\<forall>j \<in> {}. b_blockno (bufs t ! j) = b_blockno (bufs s ! j) \<and> b_data (bufs t ! j) = b_data (bufs s ! j)) \<and> bio_only s t"
    then have "lg_dev t = 1" "lg_block t ! k = bs ! k" using bio_only_log [of s t] dev bk by simp_all
    then show "andthen (bread (lg_dev t) (lg_block t ! k) t) (\<lambda>dbuf s.
       andthen (bwrite dbuf (set_data dbuf (b_data (bufs s ! x)) s)) (\<lambda>_ s. andthen (brelse x s) (\<lambda>_ s. brelse dbuf s))) =
      andthen (bread 1 (bs ! k) t) (\<lambda>dbuf s.
       andthen (bwrite dbuf (set_data dbuf (b_data (bufs s ! x)) s)) (\<lambda>_ s. andthen (brelse x s) (\<lambda>_ s. brelse dbuf s)))"
      by simp
  qed (use room ar(1) bc.copy_block(1) [OF ok ar(5) [OF k] ar(1,3) room] in \<open>auto elim!: succeeds_mono\<close>)
qed

lemma write_head_spec:
  assumes "bc_ok p {} s" and "lg_dev s = 1" and "lg_start s < disksize s" and "card (dirties s) < NBUF"
  shows "succeeds (write_head s) (\<lambda>_ t. bc_ok p {} t \<and> bio_only s t \<and>
    bview t = (bview s)(lg_start s := head_block (lg_n s) (lg_block s) (bview s (lg_start s))) \<and>
    disk t = (disk s)(lg_start s := head_block (lg_n s) (lg_block s) (bview s (lg_start s))) \<and>
    dwrites t = dwrites s @ [(lg_start s, head_block (lg_n s) (lg_block s) (bview s (lg_start s)))] \<and>
    dirties t = dirties s - {lg_start s})"
  unfolding write_head_def assms(2)
proof (rule succeeds_mid [OF bc.rd [OF assms(1)]])
  fix x and t :: "'a lst_scheme"
  assume "x \<notin> {} \<and> bc_ok p {x} t \<and> b_blockno (bufs t ! x) = lg_start s \<and> b_data (bufs t ! x) = bview s (lg_start s) \<and>
      bview t = bview s \<and> disk t = disk s \<and> dwrites t = dwrites s \<and> dirties t = dirties s \<and>
      (\<forall>j \<in> {}. b_blockno (bufs t ! j) = b_blockno (bufs s ! j) \<and> b_data (bufs t ! j) = b_data (bufs s ! j)) \<and> bio_only s t"
  then have "lg_n t = lg_n s" "lg_block t = lg_block s" using bio_only_log [of s t] by simp_all
  then show "andthen (bwrite x (set_data x (head_block (lg_n t) (lg_block t) (b_data (bufs t ! x))) t)) (\<lambda>_ s. brelse x s) =
      andthen (bwrite x (set_data x (head_block (lg_n s) (lg_block s) (b_data (bufs t ! x))) t)) (\<lambda>_ s. brelse x s)" by simp
qed (use assms bc.rewrite_block [OF assms(1,4,3), where f = "head_block (lg_n s) (lg_block s)"] in \<open>auto elim!: succeeds_mono\<close>)

definition log_writes :: "u32 \<Rightarrow> u32 list \<Rightarrow> (u32 \<Rightarrow> block) \<Rightarrow> (u32 \<times> block) list" where
  "log_writes st bs v = map (\<lambda>k. (logblk st k, v (bs ! k))) [0..<length bs]"

definition home_writes :: "u32 list \<Rightarrow> (u32 \<Rightarrow> block) \<Rightarrow> (u32 \<times> block) list" where
  "home_writes bs v = map (\<lambda>k. (bs ! k, v (bs ! k))) [0..<length bs]"

definition commit_writes :: "u32 \<Rightarrow> u32 list \<Rightarrow> u32 list \<Rightarrow> (u32 \<Rightarrow> block) \<Rightarrow> (u32 \<times> block) list" where
  "commit_writes st bs all v =
     (let h = head_block (int (length bs)) all (v st) in
      log_writes st bs v @ [(st, h)] @ home_writes bs v @ [(st, head_block 0 all h)])"

lemma take_map_upt: "k < n \<Longrightarrow> take (Suc k) (map f [0..<n]) = take k (map f [0..<n]) @ [f k]"
  by (simp add: take_Suc_conv_app_nth)

lemma log_writes_take: "k < length bs \<Longrightarrow>
  take (Suc k) (log_writes st bs v) = take k (log_writes st bs v) @ [(logblk st k, v (bs ! k))]"
  unfolding log_writes_def by (rule take_map_upt)

lemma home_writes_take: "k < length bs \<Longrightarrow>
  take (Suc k) (home_writes bs v) = take k (home_writes bs v) @ [(bs ! k, v (bs ! k))]"
  unfolding home_writes_def by (rule take_map_upt)

lemma log_writes_fst: "fst ` set (take k (log_writes st bs v)) \<subseteq> (\<lambda>j. logblk st j) ` {..<length bs}"
  by (auto simp: log_writes_def dest!: in_set_takeD)

lemma log_writes_home:
  assumes "log_area st bs lim" and "j < length bs"
  shows "apply_writes d (take k (log_writes st bs v)) (bs ! j) = d (bs ! j)"
proof (rule apply_writes_other, rule)
  assume "bs ! j \<in> fst ` set (take k (log_writes st bs v))"
  with log_writes_fst obtain i where "i < length bs" "bs ! j = logblk st i" by blast
  with log_areaD(5) [OF assms, of i] show False by simp
qed

lemma log_writes_start:
  assumes "log_area st bs lim"
  shows "apply_writes d (take k (log_writes st bs v)) st = d st"
proof (rule apply_writes_other, rule)
  assume "st \<in> fst ` set (take k (log_writes st bs v))"
  with log_writes_fst obtain j where "j < length bs" "st = logblk st j" by blast
  with log_areaD(2) [OF assms, of j] show False by simp
qed

lemma log_writes_log:
  "log_area st bs lim \<Longrightarrow> j < length bs \<Longrightarrow> apply_writes d (log_writes st bs v) (logblk st j) = v (bs ! j)"
  unfolding log_writes_def
  by (rule apply_writes_map [where f = "\<lambda>k. logblk st k"]) (auto simp: distinct_map inj_on_def dest: log_areaD(6))

lemma write_log_spec:
  assumes l: "log_at p st bs s" and dr: "dirties s \<subseteq> set bs"
  shows "succeeds (write_log s) (\<lambda>_ t. log_at p st bs t \<and> bio_only s t \<and> bview t = apply_writes (bview s) (log_writes st bs (bview s)) \<and>
    disk t = apply_writes (disk s) (log_writes st bs (bview s)) \<and>
    dwrites t = dwrites s @ log_writes st bs (bview s) \<and> dirties t = dirties s)"
proof -
  have a: "log_area st bs (disksize s)" and n: "nat (lg_n s) = length bs" and c: "card (dirties s) \<le> 28"
    using l by (auto simp: log_at_def)
  have nl: "logblk st k \<notin> dirties s" if "k < length bs" for k
    using dr log_areaD(5) [OF a _ that] by (metis in_set_conv_nth subsetD)
  let ?P = "\<lambda>k t :: 'a lst_scheme. log_at p st bs t \<and> bio_only s t \<and>
    bview t = apply_writes (bview s) (take k (log_writes st bs (bview s))) \<and>
    disk t = apply_writes (disk s) (take k (log_writes st bs (bview s))) \<and>
    dwrites t = dwrites s @ take k (log_writes st bs (bview s)) \<and> dirties t = dirties s"
  have "succeeds (foreach write_block [0..<length bs] s) (\<lambda>_. ?P (length [0..<length bs]))"
  proof (rule foreach_run)
    show "?P 0 s" using l by (simp add: bio_only_def)
    fix k and t :: "'a lst_scheme"
    assume k: "k < length [0..<length bs]" and t: "?P k t"
    then have kl: "k < length bs" and lt: "log_at p st bs t" by simp_all
    have hv: "bview t (bs ! k) = bview s (bs ! k)" using t log_writes_home [OF a kl] by simp
    have d: "dirties t - {logblk st k} = dirties s" using t nl [OF kl] by simp
    have "succeeds (write_block k t) (\<lambda>_. ?P (Suc k))"
      by (rule succeeds_mono [OF write_block_spec [OF lt kl]])
        (use t hv c d log_at_only [OF lt] bio_only_trans [of s t] in \<open>simp add: log_writes_take kl\<close>)
    then show "succeeds (write_block ([0..<length bs] ! k) t) (\<lambda>_. ?P (Suc k))" using kl by simp
  qed
  then show ?thesis using n by (simp add: write_log_def log_writes_def)
qed

lemma install_trans_spec:
  assumes l: "log_at p st bs s" and v: "\<And>k. k < length bs \<Longrightarrow> bview s (logblk st k) = w (bs ! k)"
  shows "succeeds (install_trans s) (\<lambda>_ t. log_at p st bs t \<and> bio_only s t \<and> bview t = apply_writes (bview s) (home_writes bs w) \<and>
    disk t = apply_writes (disk s) (home_writes bs w) \<and>
    dwrites t = dwrites s @ home_writes bs w \<and> dirties t = dirties s - set bs)"
proof -
  have a: "log_area st bs (disksize s)" and n: "nat (lg_n s) = length bs" and c: "card (dirties s) \<le> 28"
    using l by (auto simp: log_at_def)
  have fin: "finite (dirties s)" by (simp add: dirties_def)
  let ?P = "\<lambda>k t :: 'a lst_scheme. log_at p st bs t \<and> bio_only s t \<and>
    bview t = apply_writes (bview s) (take k (home_writes bs w)) \<and>
    disk t = apply_writes (disk s) (take k (home_writes bs w)) \<and>
    dwrites t = dwrites s @ take k (home_writes bs w) \<and> dirties t = dirties s - set (take k bs)"
  have "succeeds (foreach install_block [0..<length bs] s) (\<lambda>_. ?P (length [0..<length bs]))"
  proof (rule foreach_run)
    show "?P 0 s" using l by (simp add: bio_only_def)
    fix k and t :: "'a lst_scheme"
    assume k: "k < length [0..<length bs]" and t: "?P k t"
    then have kl: "k < length bs" and lt: "log_at p st bs t" by simp_all
    have "logblk st k \<notin> fst ` set (take k (home_writes bs w))"
      using log_areaD(5) [OF a, of _ k] kl by (auto simp: home_writes_def dest!: in_set_takeD) blast
    then have hv: "bview t (logblk st k) = w (bs ! k)" using t v [OF kl] by (simp add: apply_writes_other)
    have d: "dirties t - {bs ! k} = dirties s - set (take (Suc k) bs)"
      using t kl by (auto simp: take_Suc_conv_app_nth)
    have c': "card (dirties s - set (take (Suc k) bs)) \<le> 28" using c card_mono [OF fin, of "dirties s - set (take (Suc k) bs)"] by simp
    have "succeeds (install_block k t) (\<lambda>_. ?P (Suc k))"
      by (rule succeeds_mono [OF install_block_spec [OF lt kl]])
        (use t hv c' d log_at_only [OF lt] bio_only_trans [of s t] in \<open>simp add: home_writes_take kl\<close>)
    then show "succeeds (install_block ([0..<length bs] ! k) t) (\<lambda>_. ?P (Suc k))" using kl by simp
  qed
  then show ?thesis using n by (simp add: install_trans_def home_writes_def)
qed

lemma log_at_n:
  "log_at p st bs s \<Longrightarrow> bc_ok p {} (s\<lparr>lg_n := n\<rparr>) \<and> bview (s\<lparr>lg_n := n\<rparr>) = bview s \<and> dirties (s\<lparr>lg_n := n\<rparr>) = dirties s"
  using bc_ext [of "s\<lparr>lg_n := n\<rparr>" s] by (simp add: log_at_def)

definition log_only :: "'z lst_scheme \<Rightarrow> 'z lst_scheme \<Rightarrow> bool" where
  "log_only s t \<longleftrightarrow> (\<exists>n bs. bio_only (s\<lparr>lg_block := bs, lg_n := n\<rparr>) t)"

lemma commit_spec:
  assumes l: "log_at p st bs s" and dr: "dirties s \<subseteq> set bs" and ne: "bs \<noteq> []"
  shows "succeeds (commit s) (\<lambda>_ t. bc_ok p {} t \<and> bio_only (s\<lparr>lg_n := 0\<rparr>) t \<and>
    bview t = apply_writes (bview s) (commit_writes st bs (lg_block s) (bview s)) \<and>
    disk t = apply_writes (disk s) (commit_writes st bs (lg_block s) (bview s)) \<and>
    dwrites t = dwrites s @ commit_writes st bs (lg_block s) (bview s) \<and> dirties t = {})"
proof -
  let ?v = "bview s" and ?all = "lg_block s"
  let ?h = "head_block (int (length bs)) ?all (?v st)"
  have a: "log_area st bs (disksize s)" and n: "lg_n s = int (length bs)" "0 < lg_n s" and st: "lg_start s = st" "lg_dev s = 1"
    and c: "card (dirties s) \<le> 28"
    using l ne by (auto simp: log_at_def)
  have lim: "st < disksize s" using log_areaD(7) [OF a, of 0] ne by simp
  have nst: "st \<notin> set bs" using log_areaD(4) [OF a] by (metis in_set_conv_nth)
  have eq: "commit s = andthen (write_log s) (\<lambda>_ s. andthen (write_head s) (\<lambda>_ s.
      andthen (install_trans s) (\<lambda>_ s. write_head (s\<lparr>lg_n := 0\<rparr>))))" using n by (simp add: commit_def)
  show ?thesis unfolding eq succeeds_andthen
  proof (rule succeeds_mono [OF write_log_spec [OF l dr]], elim conjE)
    fix t1 :: "'a lst_scheme"
    assume l1: "log_at p st bs t1" and o1: "bio_only s t1" and v1: "bview t1 = apply_writes ?v (log_writes st bs ?v)"
      and d1: "disk t1 = apply_writes (disk s) (log_writes st bs ?v)" "dwrites t1 = dwrites s @ log_writes st bs ?v"
      and r1: "dirties t1 = dirties s"
    note f1 = bio_only_log [OF o1]
    have ok1: "bc_ok p {} t1" using l1 by (simp add: log_at_def)
    have h1: "head_block (lg_n t1) (lg_block t1) (bview t1 (lg_start t1)) = ?h"
      using log_writes_start [OF a, where k = "length bs"] by (simp add: f1 n(1) st v1 log_writes_def)
    have pre1: "lg_dev t1 = 1" "lg_start t1 < disksize t1" "card (dirties t1) < NBUF" using f1 st lim r1 c by simp_all
    show "succeeds (write_head t1) (\<lambda>_ s'. succeeds (install_trans s') (\<lambda>_ s'. succeeds (write_head (s'\<lparr>lg_n := 0\<rparr>)) (\<lambda>_ t.
        bc_ok p {} t \<and> bio_only (s\<lparr>lg_n := 0\<rparr>) t \<and> bview t = apply_writes ?v (commit_writes st bs ?all ?v) \<and>
        disk t = apply_writes (disk s) (commit_writes st bs ?all ?v) \<and>
        dwrites t = dwrites s @ commit_writes st bs ?all ?v \<and> dirties t = {})))"
    proof (rule succeeds_mono [OF write_head_spec [OF ok1 pre1, unfolded h1]], elim conjE)
      fix t2 :: "'a lst_scheme"
      assume ok2: "bc_ok p {} t2" and o2: "bio_only t1 t2" and v2: "bview t2 = (bview t1)(lg_start t1 := ?h)"
        and d2: "disk t2 = (disk t1)(lg_start t1 := ?h)" "dwrites t2 = dwrites t1 @ [(lg_start t1, ?h)]"
        and r2: "dirties t2 = dirties t1 - {lg_start t1}"
      have fin: "finite (dirties s)" by (simp add: dirties_def)
      have c2: "card (dirties t2) \<le> 28" using r2 r1 c card_mono [OF fin, of "dirties s - {st}"] by (simp add: f1 st)
      have l2: "log_at p st bs t2" by (rule log_at_only [OF l1 o2 ok2 c2])
      have w2: "bview t2 (logblk st k) = ?v (bs ! k)" if "k < length bs" for k
        using log_writes_log [OF a that] log_areaD(2) [OF a that] by (simp add: v2 v1 f1 st)
      show "succeeds (install_trans t2) (\<lambda>_ s'. succeeds (write_head (s'\<lparr>lg_n := 0\<rparr>)) (\<lambda>_ t.
          bc_ok p {} t \<and> bio_only (s\<lparr>lg_n := 0\<rparr>) t \<and> bview t = apply_writes ?v (commit_writes st bs ?all ?v) \<and>
          disk t = apply_writes (disk s) (commit_writes st bs ?all ?v) \<and>
          dwrites t = dwrites s @ commit_writes st bs ?all ?v \<and> dirties t = {}))"
      proof (rule succeeds_mono [OF install_trans_spec [OF l2 w2]], assumption, elim conjE)
        fix t3 :: "'a lst_scheme"
        assume l3: "log_at p st bs t3" and o3: "bio_only t2 t3" and v3: "bview t3 = apply_writes (bview t2) (home_writes bs ?v)"
          and d3: "disk t3 = apply_writes (disk t2) (home_writes bs ?v)" "dwrites t3 = dwrites t2 @ home_writes bs ?v"
          and r3: "dirties t3 = dirties t2 - set bs"
        have o: "bio_only s t3" using bio_only_trans [OF o1 bio_only_trans [OF o2 o3]] .
        note f3 = bio_only_log [OF o]
        have dr3: "dirties t3 = {}" using r3 r2 r1 dr by auto
        let ?u = "t3\<lparr>lg_n := 0\<rparr>"
        note u = log_at_n [OF l3, of 0]
        have st_home: "st \<notin> fst ` set (home_writes bs ?v)" using nst by (auto simp: home_writes_def)
        have h3: "head_block (lg_n ?u) (lg_block ?u) (bview ?u (lg_start ?u)) = head_block 0 ?all ?h"
          using u by (simp add: f3 st v3 v2 f1 apply_writes_other [OF st_home])
        have pre: "bc_ok p {} ?u" "lg_dev ?u = 1" "lg_start ?u < disksize ?u" "card (dirties ?u) < NBUF"
          using u f3 st lim dr3 by simp_all
        have o4: "bio_only (s\<lparr>lg_n := 0\<rparr>) ?u" using o by (cases s; cases t3) (simp add: bio_only_def)
        show "succeeds (write_head ?u) (\<lambda>_ t. bc_ok p {} t \<and> bio_only (s\<lparr>lg_n := 0\<rparr>) t \<and>
            bview t = apply_writes ?v (commit_writes st bs ?all ?v) \<and> disk t = apply_writes (disk s) (commit_writes st bs ?all ?v) \<and>
            dwrites t = dwrites s @ commit_writes st bs ?all ?v \<and> dirties t = {})"
          by (rule succeeds_mono [OF write_head_spec [OF pre, unfolded h3]])
            (use u bio_only_trans [OF o4] d3 d2 d1 v3 v2 v1 dr3 f3 f1 st in \<open>simp add: commit_writes_def Let_def\<close>)
      qed
    qed
  qed
qed

section \<open>Recovery\<close>

lemma sint_small: "n < 2 ^ 31 \<Longrightarrow> sint (of_nat n :: u32) = int n"
  by (simp add: signed_of_nat signed_take_bit_int_eq_self)

lemma head_block_decode:
  assumes "length bs \<le> 29" and "take (length bs) all = bs" and "length d = BSIZE"
  shows "sint (get32 (head_block (int (length bs)) all d) 0) = int (length bs)"
    and "get32s (head_block (int (length bs)) all d) 4 (length bs) = bs"
    and "length (head_block n all d) = BSIZE" and "sint (get32 (head_block 0 all d) 0) = 0"
proof -
  show "sint (get32 (head_block (int (length bs)) all d) 0) = int (length bs)"
    using assms by (simp add: head_block_def get_put_other get_put32 sint_small)
  show "get32s (head_block (int (length bs)) all d) 4 (length bs) = bs"
    unfolding head_block_def nat_int assms(2) by (rule get32s_put32s) (use assms(1,3) in simp_all)
  show "length (head_block n all d) = BSIZE" using assms(3) by (simp add: head_block_def)
  show "sint (get32 (head_block 0 all d) 0) = 0"
    using assms(3) by (simp add: head_block_def get_put_other get_put32)
qed

lemma read_head_spec:
  fixes s :: "'z lst_scheme"
  assumes ok: "bc_ok p {} s" and dev: "lg_dev s = 1" and lim: "lg_start s < disksize s" and r: "card (dirties s) < NBUF"
    and m: "sint (get32 (bview s (lg_start s)) 0) = int m" "m \<le> LOGSIZE"
  shows "succeeds (read_head s) (\<lambda>_ t. bc_ok p {} t \<and> bview t = bview s \<and> disk t = disk s \<and> dwrites t = dwrites s \<and>
    dirties t = dirties s \<and>
    bio_only (s\<lparr>lg_n := int m, lg_block := get32s (bview s (lg_start s)) 4 m @ drop m (lg_block s)\<rparr>) t)"
  unfolding read_head_def succeeds_andthen dev
proof (rule succeeds_mono [OF bc.rd [OF ok]], simp, use r in simp, rule lim, elim conjE)
  fix x and t :: "'z lst_scheme"
  assume t: "bc_ok p {x} t" "b_blockno (bufs t ! x) = lg_start s" "b_data (bufs t ! x) = bview s (lg_start s)" "bview t = bview s"
    "disk t = disk s" "dwrites t = dwrites s" "dirties t = dirties s" "bio_only s t"
  let ?u = "t\<lparr>lg_n := int m, lg_block := get32s (bview s (lg_start s)) 4 m @ drop m (lg_block t)\<rparr>"
  let ?v = "s\<lparr>lg_n := int m, lg_block := get32s (bview s (lg_start s)) 4 m @ drop m (lg_block s)\<rparr>"
  have e: "bc_ok p {x} ?u" "bview ?u = bview s" "dirties ?u = dirties s"
    using bc_ext [of ?u t] t by simp_all
  have c: "b_data (bufs ?u ! x) = disk ?u (b_blockno (bufs ?u ! x)) \<or> b_blockno (bufs ?u ! x) \<in> dirties ?u"
    using bc_clean [OF ok, of "lg_start s"] t(2,3,5) e(3) by auto
  have o: "bio_only ?v ?u" using t(8) by (cases s; cases t) (simp add: bio_only_def)
  have "succeeds (brelse x ?u) (\<lambda>_ t. bc_ok p {} t \<and> bview t = bview s \<and> disk t = disk s \<and> dwrites t = dwrites s \<and>
      dirties t = dirties s \<and> bio_only ?v t)"
    by (rule succeeds_mono [OF bc.rl [OF e(1) _ c]]) (use e t(5,6) bio_only_trans [OF o] in simp_all)
  then show "succeeds (let lh = b_data (bufs t ! x); n = sint (get32 lh 0) in
      if int LOGSIZE < n then Undef ''log header''
      else brelse x (t\<lparr>lg_n := n, lg_block := get32s lh 4 (nat n) @ drop (nat n) (lg_block t)\<rparr>))
     (\<lambda>_ t. bc_ok p {} t \<and> bview t = bview s \<and> disk t = disk s \<and> dwrites t = dwrites s \<and> dirties t = dirties s \<and> bio_only ?v t)"
    using m by (simp add: t(3))
qed

lemma recover_spec:
  fixes s :: "'z lst_scheme"
  assumes ok: "bc_ok p {} s" "dirties s = {}" "lg_dev s = 1" "lg_start s = st" "st < disksize s"
    and a: "log_area st bs (disksize s)"
    and h: "sint (get32 (disk s st) 0) = int (length bs)" "get32s (disk s st) 4 (length bs) = bs"
    and w: "\<And>k. k < length bs \<Longrightarrow> disk s (logblk st k) = w (bs ! k)"
  shows "succeeds (recover_from_log s) (\<lambda>_ t. bc_ok p {} t \<and> dirties t = {} \<and> lg_n t = 0 \<and>
    (\<forall>b. b \<noteq> st \<longrightarrow> disk t b = apply_writes (disk s) (home_writes bs w) b) \<and> bview t = disk t)"
  unfolding recover_from_log_def succeeds_andthen
proof -
  have v: "bview s = disk s" using bc_clean [OF ok(1)] ok(2) by auto
  have m: "length bs \<le> 29" using a by (simp add: log_area_def)
  let ?s = "s\<lparr>lg_n := int (length bs), lg_block := get32s (disk s st) 4 (length bs) @ drop (length bs) (lg_block s)\<rparr>"
  have rh: "succeeds (read_head s) (\<lambda>_ t. bc_ok p {} t \<and> bview t = bview s \<and> disk t = disk s \<and> dwrites t = dwrites s \<and>
      dirties t = dirties s \<and> bio_only ?s t)"
    using read_head_spec [OF ok(1,3), of "length bs"] ok h m by (simp add: v)
  show "succeeds (read_head s) (\<lambda>_ s'. succeeds (install_trans s') (\<lambda>_ s'. succeeds (write_head (s'\<lparr>lg_n := 0\<rparr>)) (\<lambda>_ t.
      bc_ok p {} t \<and> dirties t = {} \<and> lg_n t = 0 \<and>
      (\<forall>b. b \<noteq> st \<longrightarrow> disk t b = apply_writes (disk s) (home_writes bs w) b) \<and> bview t = disk t)))"
  proof (rule succeeds_mono [OF rh], elim conjE)
    fix t1 :: "'z lst_scheme"
    assume t1: "bc_ok p {} t1" "bview t1 = bview s" "disk t1 = disk s" "dirties t1 = dirties s" "bio_only ?s t1"
    note f = bio_only_log [OF t1(5)]
    have l1: "log_at p st bs t1"
      unfolding log_at_def using t1 f ok a h m by simp
    have w1: "bview t1 (logblk st k) = w (bs ! k)" if "k < length bs" for k using w [OF that] t1(2) v by simp
    show "succeeds (install_trans t1) (\<lambda>_ s'. succeeds (write_head (s'\<lparr>lg_n := 0\<rparr>)) (\<lambda>_ t. bc_ok p {} t \<and>
        dirties t = {} \<and> lg_n t = 0 \<and> (\<forall>b. b \<noteq> st \<longrightarrow> disk t b = apply_writes (disk s) (home_writes bs w) b) \<and> bview t = disk t))"
    proof (rule succeeds_mono [OF install_trans_spec [OF l1 w1]], assumption, elim conjE)
      fix t2 :: "'z lst_scheme"
      assume t2: "log_at p st bs t2" "bio_only t1 t2" "disk t2 = apply_writes (disk t1) (home_writes bs w)"
        "dirties t2 = dirties t1 - set bs"
      note f2 = bio_only_log [OF t2(2)]
      let ?u = "t2\<lparr>lg_n := 0\<rparr>"
      note u = log_at_n [OF t2(1), of 0]
      have pre: "bc_ok p {} ?u" "lg_dev ?u = 1" "lg_start ?u < disksize ?u" "card (dirties ?u) < NBUF"
        using u f2 f ok t2(4) t1(4) by simp_all
      show "succeeds (write_head ?u) (\<lambda>_ t. bc_ok p {} t \<and> dirties t = {} \<and> lg_n t = 0 \<and>
          (\<forall>b. b \<noteq> st \<longrightarrow> disk t b = apply_writes (disk s) (home_writes bs w) b) \<and> bview t = disk t)"
      proof (rule succeeds_mono [OF write_head_spec [OF pre]], elim conjE)
        fix t3 :: "'z lst_scheme"
        assume t3: "bc_ok p {} t3" "bio_only ?u t3" "dirties t3 = dirties ?u - {lg_start ?u}"
          "disk t3 = (disk ?u)(lg_start ?u := head_block (lg_n ?u) (lg_block ?u) (bview ?u (lg_start ?u)))"
        have dr: "dirties t3 = {}" using t3(3) u t2(4) t1(4) ok(2) by simp
        have "bview t3 = disk t3" using bc_clean [OF t3(1)] dr by auto
        then show "bc_ok p {} t3 \<and> dirties t3 = {} \<and> lg_n t3 = 0 \<and>
            (\<forall>b. b \<noteq> st \<longrightarrow> disk t3 b = apply_writes (disk s) (home_writes bs w) b) \<and> bview t3 = disk t3"
          using t3(1,4) dr bio_only_log(6) [OF t3(2)] t2(3) t1(3) f2 f ok(4) by simp
      qed
    qed
  qed
qed

section \<open>Crash atomicity\<close>

definition in_log :: "u32 \<Rightarrow> nat \<Rightarrow> u32 set" where
  "in_log st m = insert st ((\<lambda>k. logblk st k) ` {..<m})"

text \<open>The machine booted on disk \<open>d\<close>, the log located by \<open>initlog\<close>, just before recovery.\<close>

definition rebooted :: "nat \<Rightarrow> u32 \<Rightarrow> u32 \<Rightarrow> (u32 \<Rightarrow> block) \<Rightarrow> 'z lst_scheme \<Rightarrow> bool" where
  "rebooted p st lim d s \<longleftrightarrow> bc_ok p {} s \<and> dirties s = {} \<and> lg_dev s = 1 \<and> lg_start s = st \<and> disksize s = lim \<and> disk s = d"

text \<open>A transaction about to be committed: the pinned blocks are among the recorded ones, the log on disk is empty.\<close>

definition committable :: "nat \<Rightarrow> u32 \<Rightarrow> u32 list \<Rightarrow> 'z lst_scheme \<Rightarrow> bool" where
  "committable p st bs s \<longleftrightarrow> log_at p st bs s \<and> bs \<noteq> [] \<and> dirties s \<subseteq> set bs \<and>
     length (disk s st) = BSIZE \<and> sint (get32 (disk s st) 0) = 0"

lemma recover_nothing:
  fixes r :: "'z lst_scheme"
  assumes "rebooted p st lim d r" and "st < lim" and "sint (get32 (d st) 0) = 0"
  shows "succeeds (recover_from_log r) (\<lambda>_ t. \<forall>b. b \<noteq> st \<longrightarrow> disk t b = d b)"
proof -
  have "log_area st [] (disksize r)" "st < disksize r" using assms by (auto simp: log_area_def rebooted_def word_less_nat_alt)
  then show ?thesis
    using recover_spec [of p r st "[]"] assms
    by (auto simp: rebooted_def get32s_def home_writes_def elim!: succeeds_mono)
qed

lemma commit_writes_split:
  fixes v :: "u32 \<Rightarrow> block" and bs all :: "u32 list" and st :: u32
  defines "m \<equiv> length bs" and "h \<equiv> head_block (int (length bs)) all (v st)"
  shows "length (commit_writes st bs all v) = 2 * m + 2"
    and "j \<le> m \<Longrightarrow> take j (commit_writes st bs all v) = take j (log_writes st bs v)"
    and "m < j \<Longrightarrow> j \<le> 2 * m + 1 \<Longrightarrow> take j (commit_writes st bs all v) =
      log_writes st bs v @ [(st, h)] @ take (j - m - 1) (home_writes bs v)"
    and "take (2 * m + 2) (commit_writes st bs all v) =
      log_writes st bs v @ [(st, h)] @ home_writes bs v @ [(st, head_block 0 all h)]"
proof -
  have l: "length (log_writes st bs v) = m" "length (home_writes bs v) = m"
    by (simp_all add: log_writes_def home_writes_def m_def)
  have w: "commit_writes st bs all v = log_writes st bs v @ (st, h) # home_writes bs v @ [(st, head_block 0 all h)]"
    by (simp add: commit_writes_def Let_def h_def)
  show "length (commit_writes st bs all v) = 2 * m + 2" by (simp add: w l)
  show "take j (commit_writes st bs all v) = take j (log_writes st bs v)" if "j \<le> m" using that by (simp add: w l)
  show "take j (commit_writes st bs all v) = log_writes st bs v @ [(st, h)] @ take (j - m - 1) (home_writes bs v)"
    if "m < j" "j \<le> 2 * m + 1"
  proof -
    obtain k where "j = m + Suc k" "k \<le> m" using \<open>m < j\<close> \<open>j \<le> 2 * m + 1\<close> by (auto dest!: less_imp_Suc_add)
    then show ?thesis by (simp add: w l)
  qed
  show "take (2 * m + 2) (commit_writes st bs all v) =
      log_writes st bs v @ [(st, h)] @ home_writes bs v @ [(st, head_block 0 all h)]" by (simp add: w l)
qed

lemma home_apply:
  assumes "distinct bs" and "\<And>b. b \<notin> set bs \<Longrightarrow> b \<notin> X \<Longrightarrow> d b = v b" and "b \<notin> X"
  shows "apply_writes d (home_writes bs v) b = v b"
proof (cases "b \<in> set bs")
  case True
  have e: "home_writes bs v = map (\<lambda>b. (b, v b)) bs" by (rule nth_equalityI) (simp_all add: home_writes_def)
  show ?thesis unfolding e using apply_writes_map [of "\<lambda>b. b" bs b d v] assms(1) True by simp
next
  case False
  then have "b \<notin> fst ` set (home_writes bs v)" by (auto simp: home_writes_def)
  then show ?thesis using assms(2,3) False by (simp add: apply_writes_other)
qed

lemma crash_recovers:
  fixes s :: "'z lst_scheme" and r :: "'y lst_scheme"
  assumes c: "committable p st bs s" and j: "j \<le> 2 * length bs + 2"
    and r: "rebooted q st (disksize s) (apply_writes (disk s) (take j (commit_writes st bs (lg_block s) (bview s)))) r"
  shows "succeeds (recover_from_log r) (\<lambda>_ t. \<forall>b. b \<notin> in_log st (length bs) \<longrightarrow>
    disk t b = (if j \<le> length bs then disk s b else bview s b))"
proof -
  let ?m = "length bs" and ?v = "bview s" and ?all = "lg_block s"
  let ?h = "head_block (int ?m) ?all (?v st)" and ?A = "log_writes st bs ?v"
  have l: "log_at p st bs s" and dr: "dirties s \<subseteq> set bs" and hd: "length (disk s st) = BSIZE" "sint (get32 (disk s st) 0) = 0"
    and a: "log_area st bs (disksize s)" and ne: "0 < ?m" and tk: "take ?m ?all = bs" and m: "?m \<le> 29"
    using c by (auto simp: committable_def log_at_def log_area_def)
  have lim: "st < disksize s" by (rule log_areaD(7) [OF a ne])
  have dist: "distinct bs" using a by (simp add: log_area_def)
  have nst: "st \<notin> set bs" using log_areaD(4) [OF a] by (metis in_set_conv_nth)
  have ok: "bc_ok p {} s" using l by (simp add: log_at_def)
  have clean: "?v b = disk s b" if "b \<notin> set bs" for b using bc_clean [OF ok] dr that by blast
  have vst: "?v st = disk s st" by (rule clean [OF nst])
  have A_st: "apply_writes d ?A st = d st" for d using log_writes_start [OF a, where k = ?m] by (simp add: log_writes_def)
  have A_out: "apply_writes d (take k ?A) b = d b" if "b \<notin> in_log st ?m" for d b k
    using that log_writes_fst [of k st bs ?v] by (intro apply_writes_other) (auto simp: in_log_def)
  have A_out': "apply_writes d ?A b = d b" if "b \<notin> in_log st ?m" for d b
    using A_out [OF that, of _ ?m] by (simp add: log_writes_def)
  have st_in: "b \<noteq> st" if "b \<notin> in_log st ?m" for b using that by (simp add: in_log_def)
  have B_st: "apply_writes d (take k (home_writes bs ?v)) st = d st" for d k
    using nst by (intro apply_writes_other) (auto simp: home_writes_def dest!: in_set_takeD)
  have B_log: "apply_writes d (take k (home_writes bs ?v)) (logblk st i) = d (logblk st i)" if "i < ?m" for d k i
    using log_areaD(5) [OF a _ that] that
    by (intro apply_writes_other) (force simp: home_writes_def dest!: in_set_takeD)
  have B_out: "apply_writes d (take k (home_writes bs ?v)) b = d b" if "b \<notin> set bs" for d k b
    using that by (intro apply_writes_other) (auto simp: home_writes_def dest!: in_set_takeD)
  consider "j \<le> ?m" | "?m < j" "j \<le> 2 * ?m + 1" | "j = 2 * ?m + 2" using j by linarith
  then show ?thesis
  proof cases
    case 1
    have "sint (get32 (apply_writes (disk s) (take j (commit_writes st bs ?all ?v)) st) 0) = 0"
      using 1 hd log_writes_start [OF a] by (simp add: commit_writes_split(2))
    from recover_nothing [OF r lim this] 1 A_out st_in show ?thesis
      by (auto simp: commit_writes_split(2) elim!: succeeds_mono)
  next
    case 2
    let ?D = "apply_writes (disk s) (?A @ [(st, ?h)] @ take (j - ?m - 1) (home_writes bs ?v))"
    have D: "rebooted q st (disksize s) ?D r" using r by (simp only: commit_writes_split(3) [OF 2])
    have Dst: "?D st = ?h" by (simp add: B_st)
    have Dlog: "?D (logblk st i) = ?v (bs ! i)" if "i < ?m" for i
      using log_writes_log [OF a that] log_areaD(2) [OF a that] by (simp add: B_log [OF that])
    have hb: "sint (get32 (?D st) 0) = int ?m" "get32s (?D st) 4 ?m = bs"
      unfolding Dst using head_block_decode(1,2) [OF m tk, of "?v st"] hd(1) vst by simp_all
    have Dout: "?D b = ?v b" if "b \<notin> set bs" "b \<notin> in_log st ?m" for b
      using that clean A_out' B_out st_in by simp
    have rb: "bc_ok q {} r" "dirties r = {}" "lg_dev r = 1" "lg_start r = st" "disksize r = disksize s" "disk r = ?D"
      using D by (simp_all add: rebooted_def)
    have "succeeds (recover_from_log r) (\<lambda>_ t. bc_ok q {} t \<and> dirties t = {} \<and> lg_n t = 0 \<and>
        (\<forall>b. b \<noteq> st \<longrightarrow> disk t b = apply_writes (disk r) (home_writes bs ?v) b) \<and> bview t = disk t)"
      by (rule recover_spec [OF rb(1-4)]) (use rb lim a hb Dlog in simp_all)
    then show ?thesis
      using 2(1) home_apply [OF dist Dout] st_in rb(6) by (auto elim!: succeeds_mono)
  next
    case 3
    let ?D = "apply_writes (disk s) (?A @ [(st, ?h)] @ home_writes bs ?v @ [(st, head_block 0 ?all ?h)])"
    have D: "rebooted q st (disksize s) ?D r" using r unfolding 3 commit_writes_split(4) .
    have "length ?h = BSIZE" using head_block_decode(3) [OF m tk, of "?v st"] hd(1) vst by simp
    then have "sint (get32 (?D st) 0) = 0" using head_block_decode(4) [OF m tk] by simp
    note rec = recover_nothing [OF D lim this]
    have "apply_writes ((apply_writes (disk s) ?A)(st := ?h)) (home_writes bs ?v) b = ?v b" if "b \<notin> in_log st ?m" for b
      by (rule home_apply [OF dist _ that]) (use clean A_out' st_in in simp)
    then show ?thesis
      using rec 3 st_in by (auto elim!: succeeds_mono)
  qed
qed

section \<open>Recording a block\<close>

definition absorb :: "u32 \<Rightarrow> u32 list \<Rightarrow> u32 list" where
  "absorb b bs = (if b \<in> set bs then bs else bs @ [b])"

lemma log_slot_absorb:
  "n < length all \<Longrightarrow> (let i = log_slot b n all in
     i \<le> n \<and> (i = n \<longleftrightarrow> b \<notin> set (take n all)) \<and>
     take (if i = n then n + 1 else n) (all[i := b]) = absorb b (take n all))"
proof (induction n arbitrary: all)
  case 0
  then show ?case by (cases all) (simp_all add: absorb_def)
next
  case (Suc n)
  then obtain x xs where all: "all = x # xs" "n < length xs" by (cases all) auto
  show ?case using Suc.IH [OF all(2)] by (auto simp: all(1) absorb_def Let_def split: if_splits)
qed

lemma log_write_spec:
  fixes s :: "'z lst_scheme"
  assumes ok: "bc_ok p H s" and i: "i \<in> H" and n: "lg_n s = int n" "n < LOGSIZE" "int n < lg_size s - 1"
    and o: "1 \<le> lg_outstanding s" and len: "length (lg_block s) = LOGSIZE"
  defines "bs \<equiv> absorb (b_blockno (bufs s ! i)) (take n (lg_block s))"
  shows "succeeds (log_write i s) (\<lambda>_ t. bc_ok p H t \<and> bview t = bview s \<and> disk t = disk s \<and> dwrites t = dwrites s \<and>
    dirties t = insert (b_blockno (bufs s ! i)) (dirties s) \<and> same_held H s t \<and>
    lg_n t = int (length bs) \<and> take (length bs) (lg_block t) = bs \<and> length (lg_block t) = LOGSIZE \<and> log_only s t)"
proof -
  let ?b = "b_blockno (bufs s ! i)"
  let ?k = "log_slot ?b n (lg_block s)"
  have sl: "?k \<le> n" "?k = n \<longleftrightarrow> ?b \<notin> set (take n (lg_block s))"
    "take (if ?k = n then n + 1 else n) ((lg_block s)[?k := ?b]) = bs"
    using log_slot_absorb [of n "lg_block s" ?b] n(2) len by (auto simp: Let_def bs_def)
  have lb: "length bs = (if ?k = n then n + 1 else n)"
    using sl(2) n(2) len by (simp add: bs_def absorb_def)
  define u where "u = s\<lparr>lg_block := (lg_block s)[?k := ?b], lg_n := int (length bs)\<rparr>"
  have q: "quiet (hw s)" using bc_okD(1) [OF ok] by (simp add: runs_def)
  have uu: "u = (if ?k = n then s\<lparr>lg_block := (lg_block s)[?k := ?b], lg_n := lg_n s + 1\<rparr>
      else s\<lparr>lg_block := (lg_block s)[?k := ?b]\<rparr>)"
    using n(1) by (auto simp: u_def lb)
  have hw: "hw u = hw s" by (simp add: u_def)
  have e: "log_write i s = Ok () (pin i u)"
    using n o quiet_simps [OF q] hw
    by (simp add: log_write_def lock_simps Let_def uu pin_def upd_buf_def)
  have eq: "bufs u = bufs s" "disk u = disk s" "slocks u = slocks s" "ptable u = ptable s" by (simp_all add: u_def)
  have oku: "bc_ok p H u" "bview u = bview s" "dirties u = dirties s" using bc_ext(1) [of u s p H] bc_ext(2,3) [of u s] eq hw ok by simp_all
  note ps = pin_spec [OF oku(1) i]
  have "same_held H s (pin i u)" using ps(5) by (simp add: same_held_def eq)
  moreover have "log_only s (pin i u)"
    unfolding log_only_def using ps(6) by (intro exI [of _ "int (length bs)"] exI [of _ "(lg_block s)[?k := ?b]"]) (simp add: u_def)
  moreover have "dwrites (pin i u) = dwrites s" using ps(8) by (simp add: u_def)
  moreover have "lg_n (pin i u) = int (length bs)" "lg_block (pin i u) = (lg_block s)[?k := ?b]"
    using bio_only_log [OF ps(6)] by (simp_all add: u_def)
  ultimately show ?thesis unfolding e using ps oku eq sl(3) lb len by simp
qed

section \<open>Properties\<close>

text \<open>
  C1: Crash atomicity of the log. Let \<open>s\<close> be a state with a transaction to commit. \<open>commit\<close> succeeds and
  issues a sequence \<open>W\<close> of block writes; if the machine loses power after any \<open>j\<close> of them and recovers, every
  block outside the log has its content from before the transaction (when the crash came before the
  header was written) or every one has its content from the cache, i.e. from after it.
\<close>

theorem commit_crash_atomic:
  fixes s :: "'z lst_scheme"
  assumes "committable p st bs s"
  shows "\<exists>W. succeeds (commit s) (\<lambda>_ t. dwrites t = dwrites s @ W \<and> dirties t = {}) \<and>
    (\<forall>j \<le> length W. \<forall>q (r :: 'y lst_scheme). rebooted q st (disksize s) (apply_writes (disk s) (take j W)) r \<longrightarrow>
      succeeds (recover_from_log r) (\<lambda>_ t. \<forall>b. b \<notin> in_log st (length bs) \<longrightarrow>
        disk t b = (if j \<le> length bs then disk s b else bview s b)))"
proof (intro exI conjI allI impI)
  let ?W = "commit_writes st bs (lg_block s) (bview s)"
  have l: "log_at p st bs s" "dirties s \<subseteq> set bs" "bs \<noteq> []" using assms by (simp_all add: committable_def)
  show "succeeds (commit s) (\<lambda>_ t. dwrites t = dwrites s @ ?W \<and> dirties t = {})"
    by (rule succeeds_mono [OF commit_spec [OF l]]) simp
  show "succeeds (recover_from_log r) (\<lambda>_ t. \<forall>b. b \<notin> in_log st (length bs) \<longrightarrow>
      disk t b = (if j \<le> length bs then disk s b else bview s b))"
    if "j \<le> length ?W" "rebooted q st (disksize s) (apply_writes (disk s) (take j ?W)) r" for j q and r :: "'y lst_scheme"
    using crash_recovers [OF assms _ that(2)] that(1) commit_writes_split(1) [of st bs "lg_block s" "bview s"] by simp
qed

text \<open>
  C25: Log absorption. When there is room, \<open>log_write\<close> of a held buffer pins it and records its block: the
  recorded blocks stay distinct, a block already recorded is not recorded again, and the disk and the
  content of the blocks do not change.
\<close>

theorem log_write_absorbs:
  fixes s :: "'z lst_scheme"
  assumes "bc_ok p H s" and "i \<in> H" and "lg_n s = int n" "n < LOGSIZE" "int n < lg_size s - 1"
    and "1 \<le> lg_outstanding s" and "length (lg_block s) = LOGSIZE" and "distinct (take n (lg_block s))"
  shows "succeeds (log_write i s) (\<lambda>_ t. bc_ok p H t \<and> bview t = bview s \<and> disk t = disk s \<and>
    dirties t = insert (b_blockno (bufs s ! i)) (dirties s) \<and> distinct (take (nat (lg_n t)) (lg_block t)) \<and>
    set (take (nat (lg_n t)) (lg_block t)) = insert (b_blockno (bufs s ! i)) (set (take n (lg_block s))))"
  by (rule succeeds_mono [OF log_write_spec [OF assms(1-7)]])
    (use assms(8) in \<open>auto simp: absorb_def split: if_splits\<close>)

text \<open>
  An example: a disk of 1000 blocks with the log at block 2, and one operation that has modified and
  recorded block 60.
\<close>

definition log_boot :: "(u32 \<Rightarrow> block) \<Rightarrow> lst" where
  "log_boot d = bst.extend (binit (bio_boot d 1000)) (lst.fields 2 30 1 False 1 0 (replicate 30 0))"

lemma log_boot_sel:
  "bufs (log_boot d) = bufs (binit (bio_boot d 1000))" "disk (log_boot d) = disk (binit (bio_boot d 1000))"
  "slocks (log_boot d) = slocks (binit (bio_boot d 1000))" "hw (log_boot d) = hw (binit (bio_boot d 1000))"
  "ptable (log_boot d) = ptable (binit (bio_boot d 1000))" "disksize (log_boot d) = disksize (binit (bio_boot d 1000))"
  by (simp_all add: log_boot_def bst.defs lst.defs)

lemma log_boot_lg [simp]:
  "lg_start (log_boot d) = 2" "lg_size (log_boot d) = 30" "lg_outstanding (log_boot d) = 1" "lg_dev (log_boot d) = 1"
  "lg_n (log_boot d) = 0" "lg_block (log_boot d) = replicate 30 0"
  by (simp_all add: log_boot_def bst.defs lst.defs)

lemma log_boot_ok:
  "bc_ok 0 {} (log_boot d)" "bview (log_boot d) = d" "dirties (log_boot d) = {}" "disk (log_boot d) = d"
  "disksize (log_boot d) = 1000"
proof -
  let ?b = "binit (bio_boot d 1000)"
  have c: "bcached (log_boot d) = bcached ?b" unfolding bcached_def log_boot_sel by (rule refl)
  show "bview (log_boot d) = d" using bio_boot_ok(2) [of d 1000] unfolding bview_def c log_boot_sel .
  have "buf_ok 0 {} (log_boot d) i = buf_ok 0 {} ?b i" for i unfolding buf_ok_def log_boot_sel by (rule refl)
  then show "bc_ok 0 {} (log_boot d)" using bio_boot_ok(1) [of d 1000] unfolding bc_ok_def log_boot_sel by simp
  show "dirties (log_boot d) = {}" using bio_boot_ok(3) [of d 1000] unfolding dirties_def log_boot_sel .
  show "disk (log_boot d) = d" "disksize (log_boot d) = 1000" by (simp_all add: bio_boot_ok log_boot_sel)
qed

definition logged_ex :: "(u32 \<Rightarrow> block) \<Rightarrow> (unit, lst) out" where
  "logged_ex d = andthen (bread 1 60 (log_boot d)) (\<lambda>i s.
     andthen (log_write i (set_data i (replicate BSIZE 1) s)) (\<lambda>_ s. brelse i s))"

lemma logged_ex_ok:
  assumes "length (d 2) = BSIZE" and "sint (get32 (d 2) 0) = 0"
  shows "succeeds (logged_ex d) (\<lambda>_ t. committable 0 2 [60] t \<and> disksize t = 1000 \<and> disk t = d \<and> bview t = d(60 := replicate BSIZE 1))"
  unfolding logged_ex_def succeeds_andthen
proof (rule succeeds_mono [OF bc.rd [OF log_boot_ok(1)]], simp, simp add: log_boot_ok, simp add: log_boot_ok, elim conjE)
  fix i and s :: lst
  assume s: "bc_ok 0 {i} s" "b_blockno (bufs s ! i) = 60" "bview s = bview (log_boot d)" "disk s = disk (log_boot d)"
    "dirties s = dirties (log_boot d)" "bio_only (log_boot d) s"
  let ?s = "set_data i (replicate BSIZE 1) s"
  have i: "i \<in> {i}" by simp
  note sd = set_data_spec [OF s(1) i, of "replicate BSIZE 1"]
  have f: "lg_start ?s = 2" "lg_size ?s = 30" "lg_outstanding ?s = 1" "lg_dev ?s = 1" "lg_n ?s = 0"
    "lg_block ?s = replicate 30 0" "disksize ?s = 1000"
    using bio_only_log [OF bio_only_trans [OF s(6) sd(6)]] log_boot_ok by simp_all
  have bi: "b_blockno (bufs ?s ! i) = 60" using sd(4) s(2) by simp
  have ab: "absorb 60 (take 0 (lg_block ?s)) = [60]" by (simp add: absorb_def)
  show "succeeds (log_write i ?s) (\<lambda>_ t. succeeds (brelse i t) (\<lambda>_ t. committable 0 2 [60] t \<and> disksize t = 1000 \<and> disk t = d \<and> bview t = d(60 := replicate BSIZE 1)))"
  proof (rule succeeds_mono [OF log_write_spec [OF sd(1) i, of 0, unfolded bi ab]], use f in simp_all, elim conjE)
    fix t :: lst
    assume t: "bc_ok 0 {i} t" "bview t = bview ?s" "disk t = disk ?s" "dirties t = insert 60 (dirties ?s)" "same_held {i} ?s t"
      "lg_n t = 1" "take (Suc 0) (lg_block t) = [60]" "log_only ?s t"
    obtain n bs where "bio_only (?s\<lparr>lg_block := bs, lg_n := n\<rparr>) t" using t(8) by (auto simp: log_only_def)
    note g = bio_only_log [OF this]
    have bt: "b_blockno (bufs t ! i) = 60" using t(5) bi by (simp add: same_held_def)
    show "succeeds (brelse i t) (\<lambda>_ t. committable 0 2 [60] t \<and> disksize t = 1000 \<and> disk t = d \<and> bview t = d(60 := replicate BSIZE 1))"
    proof (rule succeeds_mono [OF brelse_spec [OF t(1) i]], simp add: bt t(4), elim conjE)
      fix u :: lst
      assume u: "bc_ok 0 ({i} - {i}) u" "bview u = bview t" "disk u = disk t" "dirties u = dirties t" "bio_only t u"
      note h = bio_only_log [OF u(5)]
      have "log_area 2 [60] 1000" by (simp add: log_area_def)
      then have "log_at 0 2 [60] u"
        using u h g f t s(5) sd(3) log_boot_ok by (simp add: log_at_def)
      then show "committable 0 2 [60] u \<and> disksize u = 1000 \<and> disk u = d \<and> bview u = d(60 := replicate BSIZE 1)"
        using u t s sd h g f log_boot_ok assms by (simp add: committable_def)
    qed
  qed
qed

theorem commit_crash_atomic_witness:
  "succeeds (logged_ex (\<lambda>_. replicate BSIZE 0)) (\<lambda>_ s. \<exists>W. succeeds (commit s) (\<lambda>_ t. dwrites t = dwrites s @ W \<and> dirties t = {}) \<and>
    (\<forall>j \<le> length W. \<forall>q (r :: lst). rebooted q 2 1000 (apply_writes (disk s) (take j W)) r \<longrightarrow>
      succeeds (recover_from_log r) (\<lambda>_ t. disk t 60 = replicate BSIZE (if j \<le> 1 then 0 else 1))))"
proof -
  let ?d = "\<lambda>_ :: u32. replicate BSIZE (0 :: byte)"
  have "sint (get32 (replicate BSIZE (0 :: byte)) 0) = 0" by (simp add: get32_def)
  then have e: "succeeds (logged_ex ?d) (\<lambda>_ t. committable 0 2 [60] t \<and> disksize t = 1000 \<and> disk t = ?d \<and> bview t = ?d(60 := replicate BSIZE 1))"
    by (intro logged_ex_ok) simp_all
  show ?thesis
  proof (rule succeeds_mono [OF e], elim conjE)
    fix s :: lst
    assume c: "committable 0 2 [60] s" and d: "disksize s = 1000" "disk s = ?d" "bview s = ?d(60 := replicate BSIZE 1)"
    have n: "60 \<notin> in_log 2 (length [60 :: u32])" by (auto simp: in_log_def)
    obtain W where W: "succeeds (commit s) (\<lambda>_ t. dwrites t = dwrites s @ W \<and> dirties t = {})"
      "\<forall>j \<le> length W. \<forall>q (r :: lst). rebooted q 2 (disksize s) (apply_writes (disk s) (take j W)) r \<longrightarrow>
        succeeds (recover_from_log r) (\<lambda>_ t. \<forall>b. b \<notin> in_log 2 (length [60 :: u32]) \<longrightarrow>
          disk t b = (if j \<le> length [60 :: u32] then disk s b else bview s b))"
      using commit_crash_atomic [OF c, where 'y = unit] by blast
    have "succeeds (recover_from_log r) (\<lambda>_ t. disk t 60 = replicate BSIZE (if j \<le> 1 then 0 else 1))"
      if "j \<le> length W" "rebooted q 2 1000 (apply_writes (disk s) (take j W)) r" for j q and r :: lst
      using W(2) that n unfolding d(1) by (fastforce elim!: succeeds_mono simp: d(2,3))
    then show "\<exists>W. succeeds (commit s) (\<lambda>_ t. dwrites t = dwrites s @ W \<and> dirties t = {}) \<and>
      (\<forall>j \<le> length W. \<forall>q (r :: lst). rebooted q 2 1000 (apply_writes (disk s) (take j W)) r \<longrightarrow>
        succeeds (recover_from_log r) (\<lambda>_ t. disk t 60 = replicate BSIZE (if j \<le> 1 then 0 else 1)))"
      using W(1) by blast
  qed
qed

theorem log_write_absorbs_witness:
  "succeeds (bread 1 60 (log_boot (\<lambda>_. replicate BSIZE 0))) (\<lambda>i s. succeeds (log_write i s) (\<lambda>_ t.
     set (take (nat (lg_n t)) (lg_block t)) = {60}))"
proof (rule succeeds_mono [OF bc.rd [OF log_boot_ok(1)]], simp, simp add: log_boot_ok, simp add: log_boot_ok, elim conjE)
  fix i and s :: lst
  assume s: "bc_ok 0 {i} s" "b_blockno (bufs s ! i) = 60" "bio_only (log_boot (\<lambda>_. replicate BSIZE 0)) s"
  show "succeeds (log_write i s) (\<lambda>_ t. set (take (nat (lg_n t)) (lg_block t)) = {60})"
    by (rule succeeds_mono [OF log_write_absorbs [OF s(1), of i 0]]) (use s(2) bio_only_log [OF s(3)] in simp_all)
qed

end
