(* ===== verification/Txn.thy ===== *)
theory Txn
  imports Log
begin

text \<open>
  What a file system operation may assume and has to keep between its block accesses: the locale-independent rules for
  reading, modifying and releasing blocks inside a transaction, built from the specifications of the buffer
  cache and the log. \<open>txn p H L s\<close>: process \<open>p\<close> holds the buffers \<open>H\<close>, the running transaction has
  recorded the blocks \<open>L\<close>, and every other block has on disk the content the cache shows.
\<close>

section \<open>The state of a transaction\<close>

definition txn :: "nat \<Rightarrow> nat set \<Rightarrow> u32 list \<Rightarrow> 'z lst_scheme \<Rightarrow> bool" where
  "txn p H L s \<longleftrightarrow> bc_ok p H s \<and> length (lg_block s) = LOGSIZE \<and> lg_size s = int LOGSIZE \<and> lg_n s = int (length L) \<and>
     take (length L) (lg_block s) = L \<and> dirties s = set L \<and> (\<forall>b. b \<notin> set L \<longrightarrow> bview s b = disk s b)"

lemma txnD:
  assumes "txn p H L s"
  shows "bc_ok p H s" "length (lg_block s) = LOGSIZE" "lg_size s = int LOGSIZE" "lg_n s = int (length L)"
    "take (length L) (lg_block s) = L" "dirties s = set L" "b \<notin> set L \<Longrightarrow> bview s b = disk s b"
    "runs (hw s) p" "quiet (hw s)" "finite H"
proof -
  show ok: "bc_ok p H s" and "length (lg_block s) = LOGSIZE" "lg_size s = int LOGSIZE" "lg_n s = int (length L)"
    "take (length L) (lg_block s) = L" "dirties s = set L" "b \<notin> set L \<Longrightarrow> bview s b = disk s b"
    using assms by (simp_all add: txn_def)
  show "runs (hw s) p" "quiet (hw s)" "finite H"
    using bc_okD(1,3) [OF ok] by (auto simp: runs_def intro: finite_subset)
qed

lemma absorb_simps [simp]: "set (absorb b L) = insert b (set L)" "length (absorb b L) \<le> Suc (length L)"
  by (auto simp: absorb_def)

section \<open>Frames\<close>

lemma log_only_frame:
  assumes "log_only s t"
  shows "hw t = hw s" "disksize t = disksize s" "lg_size t = lg_size s" "lg_outstanding t = lg_outstanding s"
    "lg_start t = lg_start s" "lg_dev t = lg_dev s" "lst.more t = lst.more s" "mem t = mem s"
    "(\<And>b. i \<noteq> SL_buf b) \<Longrightarrow> slocks t i = slocks s i" "length (ptable t) = length (ptable s)"
proof -
  obtain n bs where b: "bio_only (s\<lparr>lg_block := bs, lg_n := n\<rparr>) t" using assms by (auto simp: log_only_def)
  note l = bio_only_log [OF b]
  show "disksize t = disksize s" "lg_size t = lg_size s" "lg_outstanding t = lg_outstanding s"
    "lg_start t = lg_start s" "lg_dev t = lg_dev s" "lst.more t = lst.more s" using l by simp_all
  show "hw t = hw s" "mem t = mem s" "(\<And>b. i \<noteq> SL_buf b) \<Longrightarrow> slocks t i = slocks s i"
    using b by (simp_all add: bio_only_def)
  have "map (p_state_update (\<lambda>_. UNUSED)) (ptable t) = map (p_state_update (\<lambda>_. UNUSED)) (ptable s)"
    using b by (simp add: bio_only_def)
  from map_eq_imp_length_eq [OF this] show "length (ptable t) = length (ptable s)" .
qed

lemma bio_only_log_only: "bio_only s t \<Longrightarrow> log_only s t"
  unfolding log_only_def by (intro exI [of _ "lg_n s"] exI [of _ "lg_block s"]) simp

lemma bio_only_upd: "bio_only s t \<Longrightarrow> bio_only ((s :: 'z lst_scheme)\<lparr>lg_block := bs, lg_n := n\<rparr>) (t\<lparr>lg_block := bs, lg_n := n\<rparr>)"
  unfolding bio_only_def by (cases s; cases t) simp

lemma log_only_trans:
  assumes "log_only s t" and "log_only t u"
  shows "log_only s u"
proof -
  obtain n bs where t: "bio_only (s\<lparr>lg_block := bs, lg_n := n\<rparr>) t" using assms(1) by (auto simp: log_only_def)
  obtain m cs where u: "bio_only (t\<lparr>lg_block := cs, lg_n := m\<rparr>) u" using assms(2) by (auto simp: log_only_def)
  have "bio_only (s\<lparr>lg_block := cs, lg_n := m\<rparr>) (t\<lparr>lg_block := cs, lg_n := m\<rparr>)"
    using bio_only_upd [OF t, where bs = cs and n = m] by simp
  from bio_only_trans [OF this u] show ?thesis unfolding log_only_def by blast
qed

lemma log_only_refl: "log_only s s"
  by (rule bio_only_log_only) (simp add: bio_only_def)

lemma same_held_trans: "same_held H s t \<Longrightarrow> same_held H t u \<Longrightarrow> same_held H s u"
  by (simp add: same_held_def)

section \<open>Rules\<close>

lemma txn_room: "txn p H L s \<Longrightarrow> card H + length L < NBUF \<Longrightarrow> broom H s"
  using card_length [of L] by (simp add: broom_def txnD(6))

lemma txn_bread:
  assumes t: "txn p H L s" and nh: "\<And>i. i \<in> H \<Longrightarrow> b_blockno (bufs s ! i) \<noteq> b"
    and room: "card H + length L < NBUF" and lim: "b < disksize s"
  shows "succeeds (bread 1 b s) (\<lambda>x t. x \<notin> H \<and> txn p (insert x H) L t \<and> b_blockno (bufs t ! x) = b \<and>
    b_data (bufs t ! x) = bview s b \<and> bview t = bview s \<and> disk t = disk s \<and> same_held H s t \<and> log_only s t)"
proof (rule succeeds_mono [OF bread_spec [OF txnD(1) [OF t] nh txn_room [OF t room] lim]], assumption, elim conjE)
  fix x u
  assume u: "x \<notin> H" "bc_ok p (insert x H) u" "b_blockno (bufs u ! x) = b" "b_data (bufs u ! x) = bview s b"
    "bview u = bview s" "disk u = disk s" "dirties u = dirties s" "same_held H s u" "bio_only s u"
  have "txn p (insert x H) L u" using t u bio_only_log [OF u(9)] by (simp add: txn_def)
  with u bio_only_log_only show "x \<notin> H \<and> txn p (insert x H) L u \<and> b_blockno (bufs u ! x) = b \<and>
    b_data (bufs u ! x) = bview s b \<and> bview u = bview s \<and> disk u = disk s \<and> same_held H s u \<and> log_only s u" by blast
qed

lemma txn_brelse:
  assumes t: "txn p H L s" and x: "x \<in> H"
  shows "succeeds (brelse x s) (\<lambda>_ t. txn p (H - {x}) L t \<and> bview t = bview s \<and> disk t = disk s \<and>
    same_held (H - {x}) s t \<and> log_only s t)"
proof -
  have c: "b_data (bufs s ! x) = disk s (b_blockno (bufs s ! x)) \<or> b_blockno (bufs s ! x) \<in> dirties s"
    using held_buf(9) [OF txnD(1) [OF t] x] txnD(6,7) [OF t] by metis
  show ?thesis
  proof (rule succeeds_mono [OF brelse_spec [OF txnD(1) [OF t] x c]], elim conjE)
    fix r u
    assume u: "bc_ok p (H - {x}) u" "bview u = bview s" "disk u = disk s" "dirties u = dirties s"
      "same_held (H - {x}) s u" "bio_only s u"
    have "txn p (H - {x}) L u" using t u bio_only_log [OF u(6)] by (simp add: txn_def)
    with u bio_only_log_only show "txn p (H - {x}) L u \<and> bview u = bview s \<and> disk u = disk s \<and>
      same_held (H - {x}) s u \<and> log_only s u" by blast
  qed
qed

lemma txn_write:
  assumes t: "txn p H L s" and x: "x \<in> H" and room: "length L < 29" and o: "1 \<le> lg_outstanding s"
  defines "b \<equiv> b_blockno (bufs s ! x)"
  shows "succeeds (log_write x (set_data x d s)) (\<lambda>_ t. txn p H (absorb b L) t \<and> bview t = (bview s)(b := d) \<and>
    disk t = disk s \<and> b_blockno (bufs t ! x) = b \<and> b_data (bufs t ! x) = d \<and> same_held (H - {x}) s t \<and> log_only s t)"
proof -
  let ?s = "set_data x d s"
  note sd = set_data_spec [OF txnD(1) [OF t] x, of d]
  note f = bio_only_log [OF sd(6)]
  have b: "b_blockno (bufs ?s ! x) = b" using sd(4) by (simp add: b_def)
  have pre: "lg_n ?s = int (length L)" "length L < LOGSIZE" "int (length L) < lg_size ?s - 1" "1 \<le> lg_outstanding ?s"
    "length (lg_block ?s) = LOGSIZE" "take (length L) (lg_block ?s) = L"
    using txnD(2-5) [OF t] f room o by simp_all
  show ?thesis
  proof (rule succeeds_mono [OF log_write_spec [OF sd(1) x pre(1-5), unfolded b pre(6)]], elim conjE)
    fix r u
    assume u: "bc_ok p H u" "bview u = bview ?s" "disk u = disk ?s" "dirties u = insert b (dirties ?s)" "same_held H ?s u"
      "lg_n u = int (length (absorb b L))" "take (length (absorb b L)) (lg_block u) = absorb b L"
      "length (lg_block u) = LOGSIZE" "log_only ?s u"
    have v: "bview u = (bview s)(b := d)" using u(2) sd(2) by (simp add: b_def)
    have "txn p H (absorb b L) u"
      unfolding txn_def v using u sd(3,7) log_only_frame(3) [OF u(9)] f(2) txnD(3,6,7) [OF t] by simp
    moreover have "same_held (H - {x}) s u" using u(5) sd(5) by (simp add: same_held_def)
    moreover have "b_blockno (bufs u ! x) = b \<and> b_data (bufs u ! x) = d" using u(5) x b sd(4) by (simp add: same_held_def)
    moreover have "log_only s u" by (rule log_only_trans [OF bio_only_log_only [OF sd(6)] u(9)])
    ultimately show "txn p H (absorb b L) u \<and> bview u = (bview s)(b := d) \<and>
      disk u = disk s \<and> b_blockno (bufs u ! x) = b \<and> b_data (bufs u ! x) = d \<and> same_held (H - {x}) s u \<and> log_only s u"
      using v u(3) sd(7) by simp
  qed
qed

text \<open>Read, modify, record and release one block.\<close>

lemma txn_modify:
  assumes t: "txn p H L s" and nh: "\<And>i. i \<in> H \<Longrightarrow> b_blockno (bufs s ! i) \<noteq> b"
    and room: "card H + length L < NBUF" "length L < 29" and lim: "b < disksize s" and o: "1 \<le> lg_outstanding s"
  shows "succeeds (andthen (bread 1 b s) (\<lambda>x s. andthen (log_write x (set_data x (f (b_data (bufs s ! x))) s)) (\<lambda>_ s. brelse x s)))
    (\<lambda>_ t. txn p H (absorb b L) t \<and> bview t = (bview s)(b := f (bview s b)) \<and> disk t = disk s \<and> same_held H s t \<and> log_only s t)"
  unfolding succeeds_andthen
proof (rule succeeds_mono [OF txn_bread [OF t nh room(1) lim]], assumption, elim conjE)
  fix x u
  assume u: "x \<notin> H" "txn p (insert x H) L u" "b_blockno (bufs u ! x) = b" "b_data (bufs u ! x) = bview s b"
    "bview u = bview s" "disk u = disk s" "same_held H s u" "log_only s u"
  have o': "1 \<le> lg_outstanding u" using o log_only_frame(4) [OF u(8)] by simp
  have d: "insert x H - {x} = H" using u(1) by simp
  show "succeeds (log_write x (set_data x (f (b_data (bufs u ! x))) u)) (\<lambda>_ u. succeeds (brelse x u) (\<lambda>_ t. txn p H (absorb b L) t \<and>
    bview t = (bview s)(b := f (bview s b)) \<and> disk t = disk s \<and> same_held H s t \<and> log_only s t))"
  proof (rule succeeds_mono [OF txn_write [OF u(2) insertI1 room(2) o']], unfold d, elim conjE)
    fix v
    assume v: "txn p (insert x H) (absorb (b_blockno (bufs u ! x)) L) v"
      "bview v = (bview u)(b_blockno (bufs u ! x) := f (b_data (bufs u ! x)))" "disk v = disk u" "same_held H u v" "log_only u v"
    show "succeeds (brelse x v) (\<lambda>_ t. txn p H (absorb b L) t \<and>
      bview t = (bview s)(b := f (bview s b)) \<and> disk t = disk s \<and> same_held H s t \<and> log_only s t)"
    proof (rule succeeds_mono [OF txn_brelse [OF v(1) insertI1]], unfold d, elim conjE)
      fix w
      assume w: "txn p H (absorb (b_blockno (bufs u ! x)) L) w" "bview w = bview v" "disk w = disk v" "same_held H v w" "log_only v w"
      have "log_only s w" by (rule log_only_trans [OF log_only_trans [OF u(8) v(5)] w(5)])
      moreover have "same_held H s w" by (rule same_held_trans [OF same_held_trans [OF u(7) v(4)] w(4)])
      ultimately show "txn p H (absorb b L) w \<and> bview w = (bview s)(b := f (bview s b)) \<and> disk w = disk s \<and> same_held H s w \<and> log_only s w"
        using w v u by simp
    qed
  qed
qed

end
