(* ===== verification/Inode.thy ===== *)
theory Inode
  imports Txn
begin

text \<open>
  Blocks and inodes (fs.c up to \<open>stati\<close>): the bitmap allocator \<open>balloc\<close>/\<open>bfree\<close>, the inode cache
  (\<open>iget\<close>, \<open>idup\<close>, \<open>ilock\<close>, \<open>iunlock\<close>, \<open>iput\<close>), inode allocation and write-back, and the block map of a
  file (\<open>bmap\<close>, \<open>itrunc\<close>). An inode in memory is named by its index in \<open>icache.inode\<close>; a null inode
  pointer is \<open>None\<close>.
\<close>

section \<open>Definitions\<close>

abbreviation (input) "NINODE \<equiv> (50 :: nat)"
abbreviation (input) "NDIRECT \<equiv> (12 :: nat)"
abbreviation (input) "NINDIRECT \<equiv> (128 :: nat)"
abbreviation (input) "BPB \<equiv> (4096 :: nat)"
abbreviation (input) "T_DIR \<equiv> (1 :: ushort)"
abbreviation (input) "T_FILE \<equiv> (2 :: ushort)"
abbreviation (input) "T_DEV \<equiv> (3 :: ushort)"

record inode =
  i_dev :: u32
  i_inum :: u32
  i_ref :: int
  i_valid :: bool
  i_type :: ushort
  i_major :: ushort
  i_minor :: ushort
  i_nlink :: ushort
  i_size :: u32
  i_addrs :: "u32 list"

datatype device = Dev_console

record ist = lst +
  sb :: superblock
  icache :: "inode list"
  devsw :: "device option list"

definition upd_inode :: "nat \<Rightarrow> (inode \<Rightarrow> inode) \<Rightarrow> 'z ist_scheme \<Rightarrow> 'z ist_scheme" where
  "upd_inode i f s = s\<lparr>icache := (icache s)[i := f (icache s ! i)]\<rparr>"

abbreviation IBLOCK :: "u32 \<Rightarrow> superblock \<Rightarrow> u32" where
  "IBLOCK i b \<equiv> i div 8 + sb_inodestart b"

abbreviation BBLOCK :: "u32 \<Rightarrow> superblock \<Rightarrow> u32" where
  "BBLOCK i b \<equiv> i div 4096 + sb_bmapstart b"

abbreviation (input) dslot :: "u32 \<Rightarrow> nat" where
  "dslot inum \<equiv> 64 * unat (inum mod 8)"

definition bzero :: "u32 \<Rightarrow> u32 \<Rightarrow> 'z lst_scheme \<Rightarrow> (unit, 'z lst_scheme) out" where
  "bzero dev bno s =
     andthen (bread dev bno s) (\<lambda>bp s.
     andthen (log_write bp (set_data bp (replicate BSIZE 0) s)) (\<lambda>_ s.
     brelse bp s))"

definition bit_clear :: "block \<Rightarrow> nat \<Rightarrow> bool" where
  "bit_clear d bi \<longleftrightarrow> d ! (bi div 8) AND push_bit (bi mod 8) 1 = 0"

definition set_bit_in :: "block \<Rightarrow> nat \<Rightarrow> block" where
  "set_bit_in d bi = d[bi div 8 := d ! (bi div 8) OR push_bit (bi mod 8) 1]"

definition clear_bit_in :: "block \<Rightarrow> nat \<Rightarrow> block" where
  "clear_bit_in d bi = d[bi div 8 := d ! (bi div 8) AND NOT (push_bit (bi mod 8) 1)]"

text \<open>The search of one bitmap block for a free bit, below the size of the file system.\<close>

definition free_bit :: "block \<Rightarrow> nat \<Rightarrow> nat \<Rightarrow> nat option" where
  "free_bit d b sz = find (\<lambda>bi. bit_clear d bi) [0..<min BPB (sz - b)]"

definition balloc_block :: "u32 \<Rightarrow> nat \<Rightarrow> 'z ist_scheme \<Rightarrow> (u32 option, 'z ist_scheme) out" where
  "balloc_block dev b s =
     andthen (bread dev (BBLOCK (of_nat b) (sb s)) s) (\<lambda>bp s.
     case free_bit (b_data (bufs s ! bp)) b (unat (sb_size (sb s))) of
       Some bi \<Rightarrow>
         andthen (log_write bp (set_data bp (set_bit_in (b_data (bufs s ! bp)) bi) s)) (\<lambda>_ s.
         andthen (brelse bp s) (\<lambda>_ s.
         andthen (bzero dev (of_nat (b + bi)) s) (\<lambda>_ s. Ok (Some (of_nat (b + bi))) s)))
     | None \<Rightarrow> andthen (brelse bp s) (\<lambda>_ s. Ok None s))"

definition balloc :: "u32 \<Rightarrow> 'z ist_scheme \<Rightarrow> (u32, 'z ist_scheme) out" where
  "balloc dev s =
     andthen (forany (balloc_block dev) (map (\<lambda>k. BPB * k) [0..<(unat (sb_size (sb s)) + BPB - 1) div BPB]) s) (\<lambda>r s.
     case r of Some b \<Rightarrow> Ok b s | None \<Rightarrow> Panic ''balloc: out of blocks'')"

definition bfree :: "u32 \<Rightarrow> u32 \<Rightarrow> 'z ist_scheme \<Rightarrow> (unit, 'z ist_scheme) out" where
  "bfree dev b s =
     andthen (bread dev (BBLOCK b (sb s)) s) (\<lambda>bp s.
     let bi = unat b mod BPB; d = b_data (bufs s ! bp) in
     if bit_clear d bi then Panic ''freeing free block''
     else andthen (log_write bp (set_data bp (clear_bit_in d bi) s)) (\<lambda>_ s. brelse bp s))"

definition iinit :: "u32 \<Rightarrow> 'z ist_scheme \<Rightarrow> (unit, 'z ist_scheme) out" where
  "iinit dev s =
     (let s = s\<lparr>hw := initlock LK_icache ''icache'' (hw s)\<rparr>;
          s = foldl (\<lambda>s i. initsleeplock (SL_inode i) ''inode'' s) s [0..<NINODE] in
      andthen (readsb dev s) (\<lambda>b s. Ok () (s\<lparr>sb := b\<rparr>)))"

text \<open>The scan of the inode cache: a referenced entry for the inode, else the first unused one.\<close>

primrec iget_scan :: "u32 \<Rightarrow> u32 \<Rightarrow> nat \<Rightarrow> nat option \<Rightarrow> inode list \<Rightarrow> nat option \<times> nat option" where
  "iget_scan dev inum k emp [] = (None, emp)"
| "iget_scan dev inum k emp (ip # ips) =
     (if 0 < i_ref ip \<and> i_dev ip = dev \<and> i_inum ip = inum then (Some k, emp)
      else iget_scan dev inum (k + 1) (if emp = None \<and> i_ref ip = 0 then Some k else emp) ips)"

definition iget :: "u32 \<Rightarrow> u32 \<Rightarrow> 'z ist_scheme \<Rightarrow> (nat, 'z ist_scheme) out" where
  "iget dev inum s =
     andthen (kacquire LK_icache s) (\<lambda>_ s.
     case iget_scan dev inum 0 None (icache s) of
       (Some ip, _) \<Rightarrow>
         andthen (krelease LK_icache (upd_inode ip (\<lambda>q. q\<lparr>i_ref := i_ref q + 1\<rparr>) s)) (\<lambda>_ s. Ok ip s)
     | (None, None) \<Rightarrow> Panic ''iget: no inodes''
     | (None, Some ip) \<Rightarrow>
         andthen (krelease LK_icache (upd_inode ip
           (\<lambda>q. q\<lparr>i_dev := dev, i_inum := inum, i_ref := 1, i_valid := False\<rparr>) s)) (\<lambda>_ s. Ok ip s))"

definition ialloc_try :: "u32 \<Rightarrow> ushort \<Rightarrow> u32 \<Rightarrow> 'z ist_scheme \<Rightarrow> (nat option, 'z ist_scheme) out" where
  "ialloc_try dev type inum s =
     andthen (bread dev (IBLOCK inum (sb s)) s) (\<lambda>bp s.
     let d = b_data (bufs s ! bp) in
     if di_type (get_dinode d (dslot inum)) = 0
     then andthen (log_write bp (set_data bp (put_dinode d (dslot inum)
           \<lparr>di_type = type, di_major = 0, di_minor = 0, di_nlink = 0, di_size = 0, di_addrs = replicate 13 0\<rparr>) s)) (\<lambda>_ s.
         andthen (brelse bp s) (\<lambda>_ s.
         andthen (iget dev inum s) (\<lambda>ip s. Ok (Some ip) s)))
     else andthen (brelse bp s) (\<lambda>_ s. Ok None s))"

definition ialloc :: "u32 \<Rightarrow> ushort \<Rightarrow> 'z ist_scheme \<Rightarrow> (nat, 'z ist_scheme) out" where
  "ialloc dev type s =
     andthen (forany (ialloc_try dev type) (map of_nat [1..<unat (sb_ninodes (sb s))]) s) (\<lambda>r s.
     case r of Some ip \<Rightarrow> Ok ip s | None \<Rightarrow> Panic ''ialloc: no inodes'')"

definition dinode_of :: "inode \<Rightarrow> dinode" where
  "dinode_of q = \<lparr>di_type = i_type q, di_major = i_major q, di_minor = i_minor q, di_nlink = i_nlink q,
     di_size = i_size q, di_addrs = i_addrs q\<rparr>"

definition iupdate :: "nat \<Rightarrow> 'z ist_scheme \<Rightarrow> (unit, 'z ist_scheme) out" where
  "iupdate ip s =
     (let q = icache s ! ip in
      andthen (bread (i_dev q) (IBLOCK (i_inum q) (sb s)) s) (\<lambda>bp s.
      andthen (log_write bp (set_data bp
        (put_dinode (b_data (bufs s ! bp)) (dslot (i_inum q)) (dinode_of (icache s ! ip))) s)) (\<lambda>_ s.
      brelse bp s)))"

definition idup :: "nat \<Rightarrow> 'z ist_scheme \<Rightarrow> (nat, 'z ist_scheme) out" where
  "idup ip s =
     andthen (kacquire LK_icache s) (\<lambda>_ s.
     andthen (krelease LK_icache (upd_inode ip (\<lambda>q. q\<lparr>i_ref := i_ref q + 1\<rparr>) s)) (\<lambda>_ s. Ok ip s))"

definition load_inode :: "dinode \<Rightarrow> inode \<Rightarrow> inode" where
  "load_inode d q = q\<lparr>i_type := di_type d, i_major := di_major d, i_minor := di_minor d, i_nlink := di_nlink d,
     i_size := di_size d, i_addrs := di_addrs d\<rparr>"

definition ilock :: "nat option \<Rightarrow> 'z ist_scheme \<Rightarrow> (unit, 'z ist_scheme) out" where
  "ilock p s = (case p of None \<Rightarrow> Panic ''ilock'' | Some ip \<Rightarrow>
     if i_ref (icache s ! ip) < 1 then Panic ''ilock''
     else andthen (acquiresleep (SL_inode ip) s) (\<lambda>_ s.
       if i_valid (icache s ! ip) then Ok () s
       else let q = icache s ! ip in
         andthen (bread (i_dev q) (IBLOCK (i_inum q) (sb s)) s) (\<lambda>bp s.
         let s = upd_inode ip (load_inode (get_dinode (b_data (bufs s ! bp)) (dslot (i_inum q)))) s in
         andthen (brelse bp s) (\<lambda>_ s.
         let s = upd_inode ip (\<lambda>q. q\<lparr>i_valid := True\<rparr>) s in
         if i_type (icache s ! ip) = 0 then Panic ''ilock: no type'' else Ok () s))))"

definition iunlock :: "nat option \<Rightarrow> 'z ist_scheme \<Rightarrow> (unit, 'z ist_scheme) out" where
  "iunlock p s = (case p of None \<Rightarrow> Panic ''iunlock'' | Some ip \<Rightarrow>
     andthen (holdingsleep (SL_inode ip) s) (\<lambda>h s.
     if \<not> h \<or> i_ref (icache s ! ip) < 1 then Panic ''iunlock''
     else releasesleep (SL_inode ip) s))"

definition bmap :: "nat \<Rightarrow> u32 \<Rightarrow> 'z ist_scheme \<Rightarrow> (u32, 'z ist_scheme) out" where
  "bmap ip bn s =
     (let q = icache s ! ip in
      if bn < 12
      then let addr = i_addrs q ! unat bn in
        if addr = 0
        then andthen (balloc (i_dev q) s) (\<lambda>addr s.
          Ok addr (upd_inode ip (\<lambda>q. q\<lparr>i_addrs := (i_addrs q)[unat bn := addr]\<rparr>) s))
        else Ok addr s
      else let bn = bn - 12 in
        if bn < 128
        then andthen (if i_addrs q ! NDIRECT = 0
            then andthen (balloc (i_dev q) s) (\<lambda>addr s.
              Ok addr (upd_inode ip (\<lambda>q. q\<lparr>i_addrs := (i_addrs q)[NDIRECT := addr]\<rparr>) s))
            else Ok (i_addrs q ! NDIRECT) s) (\<lambda>addr s.
          andthen (bread (i_dev q) addr s) (\<lambda>bp s.
          let addr = get32 (b_data (bufs s ! bp)) (4 * unat bn) in
          andthen (if addr = 0
            then andthen (balloc (i_dev q) s) (\<lambda>addr s.
              andthen (log_write bp (set_data bp (put32 (b_data (bufs s ! bp)) (4 * unat bn) addr) s)) (\<lambda>_ s. Ok addr s))
            else Ok addr s) (\<lambda>addr s.
          andthen (brelse bp s) (\<lambda>_ s. Ok addr s))))
        else Panic ''bmap: out of range'')"

definition itrunc_direct :: "nat \<Rightarrow> nat \<Rightarrow> 'z ist_scheme \<Rightarrow> (unit, 'z ist_scheme) out" where
  "itrunc_direct ip i s =
     (let q = icache s ! ip in
      if i_addrs q ! i \<noteq> 0
      then andthen (bfree (i_dev q) (i_addrs q ! i) s) (\<lambda>_ s.
        Ok () (upd_inode ip (\<lambda>q. q\<lparr>i_addrs := (i_addrs q)[i := 0]\<rparr>) s))
      else Ok () s)"

definition itrunc :: "nat \<Rightarrow> 'z ist_scheme \<Rightarrow> (unit, 'z ist_scheme) out" where
  "itrunc ip s =
     andthen (foreach (itrunc_direct ip) [0..<NDIRECT] s) (\<lambda>_ s.
     andthen (let q = icache s ! ip in
       if i_addrs q ! NDIRECT \<noteq> 0
       then andthen (bread (i_dev q) (i_addrs q ! NDIRECT) s) (\<lambda>bp s.
         andthen (foreach (\<lambda>j s. let a = get32 (b_data (bufs s ! bp)) (4 * j) in
             if a \<noteq> 0 then bfree (i_dev q) a s else Ok () s) [0..<NINDIRECT] s) (\<lambda>_ s.
         andthen (brelse bp s) (\<lambda>_ s.
         andthen (bfree (i_dev q) (i_addrs q ! NDIRECT) s) (\<lambda>_ s.
         Ok () (upd_inode ip (\<lambda>q. q\<lparr>i_addrs := (i_addrs q)[NDIRECT := 0]\<rparr>) s)))))
       else Ok () s) (\<lambda>_ s.
     iupdate ip (upd_inode ip (\<lambda>q. q\<lparr>i_size := 0\<rparr>) s)))"

definition iput :: "nat \<Rightarrow> 'z ist_scheme \<Rightarrow> (unit, 'z ist_scheme) out" where
  "iput ip s =
     andthen (acquiresleep (SL_inode ip) s) (\<lambda>_ s.
     andthen (if i_valid (icache s ! ip) \<and> i_nlink (icache s ! ip) = 0
       then andthen (kacquire LK_icache s) (\<lambda>_ s.
         let r = i_ref (icache s ! ip) in
         andthen (krelease LK_icache s) (\<lambda>_ s.
         if r = 1
         then andthen (itrunc ip s) (\<lambda>_ s.
           andthen (iupdate ip (upd_inode ip (\<lambda>q. q\<lparr>i_type := 0\<rparr>) s)) (\<lambda>_ s.
           Ok () (upd_inode ip (\<lambda>q. q\<lparr>i_valid := False\<rparr>) s)))
         else Ok () s))
       else Ok () s) (\<lambda>_ s.
     andthen (releasesleep (SL_inode ip) s) (\<lambda>_ s.
     andthen (kacquire LK_icache s) (\<lambda>_ s.
     krelease LK_icache (upd_inode ip (\<lambda>q. q\<lparr>i_ref := i_ref q - 1\<rparr>) s)))))"

definition iunlockput :: "nat \<Rightarrow> 'z ist_scheme \<Rightarrow> (unit, 'z ist_scheme) out" where
  "iunlockput ip s = andthen (iunlock (Some ip) s) (\<lambda>_ s. iput ip s)"

record stat_rec =
  st_type :: ushort
  st_dev :: u32
  st_ino :: u32
  st_nlink :: ushort
  st_size :: u32

definition stati :: "nat \<Rightarrow> 'z ist_scheme \<Rightarrow> stat_rec" where
  "stati ip s = (let q = icache s ! ip in
     \<lparr>st_type = i_type q, st_dev = i_dev q, st_ino = i_inum q, st_nlink = i_nlink q, st_size = i_size q\<rparr>)"

section \<open>The inode cache\<close>

text \<open>
  The cache is well formed when no inode has two referenced entries. \<open>irefs\<close> is what it stands for: how many
  references each inode has.
\<close>

definition ikey :: "inode \<Rightarrow> u32 \<times> u32" where
  "ikey q = (i_dev q, i_inum q)"

definition icache_ok :: "'z ist_scheme \<Rightarrow> bool" where
  "icache_ok s \<longleftrightarrow> length (icache s) = NINODE \<and> (\<forall>i<NINODE. 0 \<le> i_ref (icache s ! i)) \<and>
     (\<forall>i<NINODE. \<forall>j<NINODE. 0 < i_ref (icache s ! i) \<and> 0 < i_ref (icache s ! j) \<and>
        ikey (icache s ! i) = ikey (icache s ! j) \<longrightarrow> i = j)"

definition irefs :: "'z ist_scheme \<Rightarrow> u32 \<times> u32 \<Rightarrow> int" where
  "irefs s k = (\<Sum>i<NINODE. if ikey (icache s ! i) = k then i_ref (icache s ! i) else 0)"

lemma upd_inode_frame [simp]:
  "icache (upd_inode i f s) = (icache s)[i := f (icache s ! i)]" "hw (upd_inode i f s) = hw s"
  "upd_inode i f (s\<lparr>hw := h\<rparr>) = (upd_inode i f s)\<lparr>hw := h\<rparr>"
  by (simp_all add: upd_inode_def)

lemma iget_scan_spec:
  "iget_scan dev inum k emp qs =
     (case find (\<lambda>i. 0 < i_ref (qs ! i) \<and> ikey (qs ! i) = (dev, inum)) [0..<length qs] of
        Some i \<Rightarrow> (Some (k + i), snd (iget_scan dev inum k emp qs))
      | None \<Rightarrow> (None, if emp \<noteq> None then emp
          else map_option (\<lambda>i. k + i) (find (\<lambda>i. i_ref (qs ! i) = 0) [0..<length qs])))"
proof (induction qs arbitrary: k emp)
  case (Cons q qs)
  have u: "[0..<length (q # qs)] = 0 # map Suc [0..<length qs]" by (simp add: upt_conv_Cons map_Suc_upt del: upt_Suc)
  have f: "find P (map Suc xs) = map_option Suc (find (P \<circ> Suc) xs)" for P xs by (induction xs) auto
  have p: "(+) (Suc k) = (\<lambda>x. Suc (k + x))" by (simp add: fun_eq_iff)
  show ?case
    unfolding u using Cons [of "k + 1" "if emp = None \<and> i_ref q = 0 then Some k else emp"]
    by (auto simp: f p ikey_def comp_def option.map_comp split: option.splits)
qed simp

lemma irefs_unique:
  assumes "icache_ok s" and "i < NINODE" and "0 < i_ref (icache s ! i)"
  shows "irefs s (ikey (icache s ! i)) = i_ref (icache s ! i)"
proof -
  have z: "(if ikey (icache s ! j) = ikey (icache s ! i) then i_ref (icache s ! j) else 0) = 0"
    if "j \<in> {..<NINODE} - {i}" for j
  proof -
    have "j < NINODE" "j \<noteq> i" using that by auto
    then have "\<not> (0 < i_ref (icache s ! j) \<and> ikey (icache s ! j) = ikey (icache s ! i))" "0 \<le> i_ref (icache s ! j)"
      using assms unfolding icache_ok_def by blast+
    then show ?thesis by auto
  qed
  have "irefs s (ikey (icache s ! i)) =
    (if ikey (icache s ! i) = ikey (icache s ! i) then i_ref (icache s ! i) else 0) +
    (\<Sum>j\<in>{..<NINODE} - {i}. if ikey (icache s ! j) = ikey (icache s ! i) then i_ref (icache s ! j) else 0)"
    unfolding irefs_def using assms(2) by (intro sum.remove) auto
  then show ?thesis by (simp only: sum.neutral [OF ballI [OF z]]) simp
qed

lemma irefs_pos:
  assumes "icache_ok s"
  shows "0 < irefs s k \<longleftrightarrow> (\<exists>i<NINODE. 0 < i_ref (icache s ! i) \<and> ikey (icache s ! i) = k)"
proof
  assume p: "0 < irefs s k"
  show "\<exists>i<NINODE. 0 < i_ref (icache s ! i) \<and> ikey (icache s ! i) = k"
  proof (rule ccontr)
    assume "\<not> ?thesis"
    then have "\<not> (0 < i_ref (icache s ! i) \<and> ikey (icache s ! i) = k)" if "i < NINODE" for i
      using that by blast
    then have "(if ikey (icache s ! i) = k then i_ref (icache s ! i) else 0) \<le> 0" if "i < NINODE" for i
      using that by fastforce
    then have "irefs s k \<le> (\<Sum>i<NINODE. 0)" unfolding irefs_def by (intro sum_mono) simp
    then show False using p by simp
  qed
qed (use irefs_unique [OF assms] in auto)

lemma irefs_update:
  assumes "length (icache s) = NINODE" and "i < NINODE"
  shows "irefs (upd_inode i f s) k = irefs s k
    - (if ikey (icache s ! i) = k then i_ref (icache s ! i) else 0)
    + (if ikey (f (icache s ! i)) = k then i_ref (f (icache s ! i)) else 0)"
proof -
  let ?g = "\<lambda>t j. if ikey (icache t ! j) = k then i_ref (icache t ! j) else 0"
  have "irefs (upd_inode i f s) k = ?g (upd_inode i f s) i + (\<Sum>j\<in>{..<NINODE} - {i}. ?g (upd_inode i f s) j)"
    unfolding irefs_def using assms(2) by (intro sum.remove) auto
  also have "(\<Sum>j\<in>{..<NINODE} - {i}. ?g (upd_inode i f s) j) = (\<Sum>j\<in>{..<NINODE} - {i}. ?g s j)"
    by (intro sum.cong) (auto simp: assms)
  also have "\<dots> = irefs s k - ?g s i"
    unfolding irefs_def using sum.remove [of "{..<NINODE}" i "?g s"] assms(2) by simp
  finally show ?thesis using assms by simp
qed

lemma icache_ok_update:
  assumes "icache_ok s" and "i < NINODE" and "0 \<le> i_ref (f (icache s ! i))"
    and "\<And>j. j < NINODE \<Longrightarrow> j \<noteq> i \<Longrightarrow> 0 < i_ref (icache s ! j) \<Longrightarrow> ikey (icache s ! j) \<noteq> ikey (f (icache s ! i))"
  shows "icache_ok (upd_inode i f s)"
proof -
  have l: "length (icache s) = NINODE" using assms(1) by (simp add: icache_ok_def)
  have n: "icache (upd_inode i f s) ! j = (if j = i then f (icache s ! i) else icache s ! j)" if "j < NINODE" for j
    using that l assms(2) by simp
  show ?thesis
    unfolding icache_ok_def
  proof (intro conjI allI impI)
    fix j k
    assume a: "j < NINODE" "k < NINODE" and b: "0 < i_ref (icache (upd_inode i f s) ! j) \<and>
      0 < i_ref (icache (upd_inode i f s) ! k) \<and> ikey (icache (upd_inode i f s) ! j) = ikey (icache (upd_inode i f s) ! k)"
    show "j = k"
    proof (cases "j = i \<or> k = i")
      case True
      then show ?thesis using b assms(4) [of j] assms(4) [of k] unfolding n [OF a(1)] n [OF a(2)] using a by (auto split: if_splits)
    next
      case False
      then show ?thesis using b assms(1) a unfolding n [OF a(1)] n [OF a(2)] icache_ok_def by auto
    qed
  next
    fix j :: nat
    assume "j < NINODE"
    then show "0 \<le> i_ref (icache (upd_inode i f s) ! j)" unfolding n [OF \<open>j < NINODE\<close>] using assms(1,3) by (auto simp: icache_ok_def)
  qed (simp add: l)
qed

text \<open>Which entry \<open>iget\<close> chooses: the referenced one of the inode, else the first unreferenced one.\<close>

lemma iget_eval:
  assumes "icache_ok s" and "quiet (hw s)"
  shows "iget dev inum s =
    (case find (\<lambda>i. 0 < i_ref (icache s ! i) \<and> ikey (icache s ! i) = (dev, inum)) [0..<NINODE] of
       Some i \<Rightarrow> Ok i (upd_inode i (\<lambda>q. q\<lparr>i_ref := i_ref q + 1\<rparr>) s)
     | None \<Rightarrow> (case find (\<lambda>i. i_ref (icache s ! i) = 0) [0..<NINODE] of
         None \<Rightarrow> Panic ''iget: no inodes''
       | Some i \<Rightarrow> Ok i (upd_inode i (\<lambda>q. q\<lparr>i_dev := dev, i_inum := inum, i_ref := 1, i_valid := False\<rparr>) s)))"
proof -
  have l: "length (icache s) = NINODE" using assms(1) by (simp add: icache_ok_def)
  have "andthen (krelease LK_icache (upd_inode i f (s\<lparr>hw := acq LK_icache (hw s)\<rparr>))) (\<lambda>_ s. Ok i s) = Ok i (upd_inode i f s)" for i f
    using quiet_simps [OF assms(2)] by (simp add: lock_simps upd_inode_def)
  then show ?thesis
    using quiet_simps [OF assms(2)] iget_scan_spec [of dev inum 0 None "icache s"]
    by (auto simp: iget_def lock_simps l split: option.splits prod.splits)
qed

text \<open>
  C20: The inode cache keeps one entry per inode. From a well-formed cache with the inode referenced or an entry free, \<open>iget\<close>
  returns an entry for the inode, keeps the cache well formed and adds one to the references of that
  inode and of no other; the entry is marked as not yet read from disk when the inode had no reference
  before, and keeps its contents when it had.
\<close>

theorem iget_one_entry:
  assumes "icache_ok s" and "quiet (hw s)" and "0 < irefs s (dev, inum) \<or> (\<exists>i<NINODE. i_ref (icache s ! i) = 0)"
  shows "succeeds (iget dev inum s) (\<lambda>ip t. ip < NINODE \<and> icache_ok t \<and>
    irefs t = (irefs s)((dev, inum) := irefs s (dev, inum) + 1) \<and>
    i_ref (icache t ! ip) = irefs t (dev, inum) \<and> ikey (icache t ! ip) = (dev, inum) \<and>
    (if 0 < irefs s (dev, inum) then icache t ! ip = (icache s ! ip)\<lparr>i_ref := i_ref (icache s ! ip) + 1\<rparr>
     else \<not> i_valid (icache t ! ip)))"
proof -
  have l: "length (icache s) = NINODE" using assms(1) by (simp add: icache_ok_def)
  let ?P = "\<lambda>i. 0 < i_ref (icache s ! i) \<and> ikey (icache s ! i) = (dev, inum)"
  show ?thesis
  proof (cases "find ?P [0..<NINODE]")
    case (Some i)
    let ?t = "upd_inode i (\<lambda>q. q\<lparr>i_ref := i_ref q + 1\<rparr>) s"
    have i: "i < NINODE" "?P i" using find_SomeD [OF Some] by auto
    have "icache_ok ?t"
      using i assms(1) by (intro icache_ok_update) (auto simp: ikey_def icache_ok_def)
    moreover have "irefs ?t = (irefs s)((dev, inum) := irefs s (dev, inum) + 1)"
      using irefs_update [OF l i(1)] i(2) by (auto simp: fun_eq_iff ikey_def)
    moreover have "irefs s (dev, inum) = i_ref (icache s ! i)" using irefs_unique [OF assms(1) i(1)] i(2) by simp
    ultimately show ?thesis
      using i l by (simp add: iget_eval [OF assms(1,2)] Some) (simp add: ikey_def)
  next
    case None
    have n: "\<not> ?P j" if "j < NINODE" for j using None that by (auto simp: find_None_iff)
    then have z: "irefs s (dev, inum) \<le> 0" using irefs_pos [OF assms(1), of "(dev, inum)"] by force
    have "0 \<le> irefs s (dev, inum)" unfolding irefs_def using assms(1) by (intro sum_nonneg) (auto simp: icache_ok_def)
    with z have z0: "irefs s (dev, inum) = 0" by simp
    obtain k where "k < NINODE" "i_ref (icache s ! k) = 0" using assms(3) z by auto
    then obtain i where f: "find (\<lambda>i. i_ref (icache s ! i) = 0) [0..<NINODE] = Some i"
      by (cases "find (\<lambda>i. i_ref (icache s ! i) = 0) [0..<NINODE]") (auto simp: find_None_iff)
    have i: "i < NINODE" "i_ref (icache s ! i) = 0" using find_SomeD [OF f] by auto
    let ?t = "upd_inode i (\<lambda>q. q\<lparr>i_dev := dev, i_inum := inum, i_ref := 1, i_valid := False\<rparr>) s"
    have "icache_ok ?t"
      using i assms(1) n by (intro icache_ok_update) (auto simp: ikey_def)
    moreover have "irefs ?t = (irefs s)((dev, inum) := irefs s (dev, inum) + 1)"
      using irefs_update [OF l i(1)] i(2) by (auto simp: fun_eq_iff ikey_def)
    ultimately show ?thesis
      using i l z0 by (simp add: iget_eval [OF assms(1,2)] None f) (simp add: ikey_def)
  qed
qed

section \<open>The block bitmap\<close>

text \<open>A block is in use when its bit in the bitmap, as the cache shows it, is set.\<close>

definition bused :: "'z ist_scheme \<Rightarrow> u32 \<Rightarrow> bool" where
  "bused s b \<longleftrightarrow> \<not> bit_clear (bview s (BBLOCK b (sb s))) (unat b mod BPB)"

definition bitmap_ok :: "'z ist_scheme \<Rightarrow> bool" where
  "bitmap_ok s \<longleftrightarrow> sb_size (sb s) \<le> disksize s \<and> (\<forall>b < sb_size (sb s). BBLOCK b (sb s) < sb_size (sb s) \<and>
     bused s (BBLOCK b (sb s)) \<and> length (bview s (BBLOCK b (sb s))) = BSIZE)"

lemma lst_more_ist:
  assumes "lst.more t = lst.more s"
  shows "sb t = sb s" "icache t = icache s" "devsw t = devsw s" "ist.more t = ist.more s"
  using assms by (cases s; cases t; simp)+

lemma bit_clear_bit: "bit_clear d bi \<longleftrightarrow> \<not> bit (d ! (bi div 8)) (bi mod 8)"
  by (simp add: bit_clear_def and_exp_eq_0_iff_not_bit)

lemma bit_clear_set:
  assumes "length d = BSIZE" and "bi < BPB" and "bj < BPB"
  shows "bit_clear (set_bit_in d bi) bj \<longleftrightarrow> bit_clear d bj \<and> bj \<noteq> bi"
proof -
  have l: "bi div 8 < length d" "bj div 8 < length d" using assms by simp_all
  have e: "bj = bi \<longleftrightarrow> bj div 8 = bi div 8 \<and> bj mod 8 = bi mod 8" by (metis div_mult_mod_eq)
  have m: "bj mod 8 < 8" by simp
  show ?thesis
    unfolding bit_clear_bit set_bit_in_def e using l m by (auto simp: nth_update_if bit_simps)
qed

lemma free_bit_Some:
  assumes "free_bit d b sz = Some bi"
  shows "bi < BPB" "b + bi < sz" "bit_clear d bi"
  using find_SomeD [OF assms [unfolded free_bit_def]] by auto

lemma free_bit_None: "free_bit d b sz = None \<Longrightarrow> bi < BPB \<Longrightarrow> b + bi < sz \<Longrightarrow> \<not> bit_clear d bi"
  by (auto simp: free_bit_def find_None_iff)

text \<open>The block a bit of the bitmap block that starts at \<open>b\<close> stands for.\<close>

lemma bitmap_index:
  assumes "b = BPB * k" and "b + bi < 2 ^ 32" and "bi < BPB"
  shows "BBLOCK (of_nat (b + bi)) x = BBLOCK (of_nat b) x" "unat (of_nat (b + bi) :: u32) mod BPB = bi"
proof -
  have u: "unat (of_nat (b + bi) :: u32) = b + bi" "unat (of_nat b :: u32) = b"
    using assms(2) by (simp_all only: unat_of_nat) simp_all
  show "unat (of_nat (b + bi) :: u32) mod BPB = bi" unfolding u using assms by simp
  have "unat ((of_nat (b + bi) :: u32) div 4096) = unat ((of_nat b :: u32) div 4096)"
    unfolding unat_div u using assms by simp
  then have "(of_nat (b + bi) :: u32) div 4096 = of_nat b div 4096" by (simp add: word_unat_eq_iff)
  then show "BBLOCK (of_nat (b + bi)) x = BBLOCK (of_nat b) x" by simp
qed

text \<open>What a successful allocation of block \<open>b\<close> does.\<close>

definition balloc_effect :: "nat \<Rightarrow> u32 list \<Rightarrow> 'z ist_scheme \<Rightarrow> u32 \<Rightarrow> 'z ist_scheme \<Rightarrow> bool" where
  "balloc_effect p L s b t \<longleftrightarrow> (let m = BBLOCK b (sb s) in
     b < sb_size (sb s) \<and> \<not> bused s b \<and> txn p {} (absorb b (absorb m L)) t \<and> log_only s t \<and> disk t = disk s \<and>
     bview t = (bview s)(m := set_bit_in (bview s m) (unat b mod BPB), b := replicate BSIZE 0))"

lemma balloc_block_spec:
  assumes t: "txn p {} L s" and room: "length L < 28" and o: "1 \<le> lg_outstanding s" and ok: "bitmap_ok s"
    and b: "b = BPB * k" "b < unat (sb_size (sb s))"
  shows "succeeds (balloc_block 1 b s) (\<lambda>r u. case r of
      Some c \<Rightarrow> balloc_effect p L s c u
    | None \<Rightarrow> (\<forall>bi < BPB. b + bi < unat (sb_size (sb s)) \<longrightarrow> bused s (of_nat (b + bi))) \<and> txn p {} L u \<and> log_only s u \<and>
        bview u = bview s \<and> disk u = disk s)"
proof -
  let ?sz = "sb_size (sb s)" and ?m = "BBLOCK (of_nat b) (sb s)"
  have lt: "unat ?sz < 2 ^ 32" using unsigned_less [of ?sz, where 'a = nat] by simp
  have ub: "unat (of_nat b :: u32) = b" using b(2) lt by (simp only: unat_of_nat) simp
  have "(of_nat b :: u32) < ?sz" using b(2) by (simp add: word_less_nat_alt ub)
  then have m: "?m < ?sz" "bused s ?m" "length (bview s ?m) = BSIZE" "?sz \<le> disksize s"
    using ok by (auto simp: bitmap_ok_def)
  have ml: "?m < disksize s" using m(1,4) by simp
  show ?thesis
    unfolding balloc_block_def succeeds_andthen
  proof (rule succeeds_mono [OF txn_bread [OF t _ _ ml]], simp, use room in simp, elim conjE)
    fix x u
    assume u: "txn p (insert x {}) L u" "b_blockno (bufs u ! x) = ?m" "b_data (bufs u ! x) = bview s ?m" "bview u = bview s"
      "disk u = disk s" "log_only s u"
    note fu = log_only_frame [OF u(6)] lst_more_ist [OF log_only_frame(7) [OF u(6)]]
    show "succeeds (case free_bit (b_data (bufs u ! x)) b (unat (sb_size (sb u))) of
        None \<Rightarrow> andthen (brelse x u) (\<lambda>_. Ok None)
      | Some bi \<Rightarrow> andthen (log_write x (set_data x (set_bit_in (b_data (bufs u ! x)) bi) u)) (\<lambda>_ s.
          andthen (brelse x s) (\<lambda>_ s. andthen (bzero 1 (of_nat (b + bi)) s) (\<lambda>_. Ok (Some (of_nat (b + bi)))))))
      (\<lambda>r u. case r of Some c \<Rightarrow> balloc_effect p L s c u
        | None \<Rightarrow> (\<forall>bi < BPB. b + bi < unat ?sz \<longrightarrow> bused s (of_nat (b + bi))) \<and> txn p {} L u \<and> log_only s u \<and>
          bview u = bview s \<and> disk u = disk s)"
    proof (cases "free_bit (bview s ?m) b (unat ?sz)")
      case None
      have "bused s (of_nat (b + bi))" if "bi < BPB" "b + bi < unat ?sz" for bi
        using free_bit_None [OF None that] bitmap_index [OF b(1) _ that(1)] that(2) lt by (simp add: bused_def)
      moreover have d: "insert x {} - {x} = {}" by simp
      ultimately show ?thesis
        unfolding u(3) fu(11) None option.case succeeds_andthen
        by (intro succeeds_mono [OF txn_brelse [OF u(1) insertI1]]) (unfold d, use u log_only_trans in auto)
    next
      case (Some bi)
      let ?c = "of_nat (b + bi) :: u32"
      note f = free_bit_Some [OF Some]
      have ci: "BBLOCK ?c (sb s) = ?m" "unat ?c mod BPB = bi" using bitmap_index [OF b(1) _ f(1)] f(2) lt by simp_all
      have uc: "unat ?c = b + bi" using f(2) lt by (simp only: unat_of_nat) simp
      have "\<not> bused s ?c" unfolding bused_def ci using f(3) by simp
      moreover have "?c < ?sz" unfolding word_less_nat_alt uc by (rule f(2))
      ultimately have c: "?c < ?sz" "\<not> bused s ?c" by simp_all
      have cm: "?c \<noteq> ?m" using c(2) m(2) by auto
      have o': "1 \<le> lg_outstanding u" using o fu(4) by simp
      have d: "insert x {} - {x} = {}" by simp
      show ?thesis
        unfolding u(3) fu(11) Some option.case succeeds_andthen
      proof (rule succeeds_mono [OF txn_write [OF u(1) insertI1 _ o']], use room in simp, elim conjE)
        fix v
        assume v: "txn p (insert x {}) (absorb (b_blockno (bufs u ! x)) L) v" "bview v = (bview u)(b_blockno (bufs u ! x) := set_bit_in (bview s ?m) bi)"
          "disk v = disk u" "log_only u v"
        show "succeeds (brelse x v) (\<lambda>_ v. succeeds (bzero 1 ?c v) (\<lambda>_ s'. succeeds (Ok (Some ?c) s') (\<lambda>r u. case r of Some c \<Rightarrow> balloc_effect p L s c u
          | None \<Rightarrow> (\<forall>bi < BPB. b + bi < unat ?sz \<longrightarrow> bused s (of_nat (b + bi))) \<and> txn p {} L u \<and> log_only s u \<and> bview u = bview s \<and> disk u = disk s)))"
        proof (rule succeeds_mono [OF txn_brelse [OF v(1) insertI1]], unfold d, elim conjE)
          fix w
          assume w: "txn p {} (absorb (b_blockno (bufs u ! x)) L) w" "bview w = bview v" "disk w = disk v" "log_only v w"
          have sw: "log_only s w" by (rule log_only_trans [OF log_only_trans [OF u(6) v(4)] w(4)])
          note fw = log_only_frame [OF sw]
          have l: "length (absorb (b_blockno (bufs u ! x)) L) < 29" 
            by (rule le_less_trans [OF absorb_simps(2)]) (use room in simp)
          have cl: "?c < disksize w" "1 \<le> lg_outstanding w" using c(1) m(4) fw(2,4) o by simp_all
          show "succeeds (bzero 1 ?c w) (\<lambda>_ s'. succeeds (Ok (Some ?c) s') (\<lambda>r u. case r of Some c \<Rightarrow> balloc_effect p L s c u
            | None \<Rightarrow> (\<forall>bi < BPB. b + bi < unat ?sz \<longrightarrow> bused s (of_nat (b + bi))) \<and> txn p {} L u \<and> log_only s u \<and> bview u = bview s \<and> disk u = disk s))"
            unfolding bzero_def
          proof (rule succeeds_mono [OF txn_modify [OF w(1) _ _ l cl, where f = "\<lambda>_. replicate BSIZE 0"]], simp, use l in simp, elim conjE)
            fix y
            assume y: "txn p {} (absorb ?c (absorb (b_blockno (bufs u ! x)) L)) y" "bview y = (bview w)(?c := replicate BSIZE 0)"
              "disk y = disk w" "log_only w y"
            have "balloc_effect p L s ?c y"
              unfolding balloc_effect_def Let_def ci using c y w v u log_only_trans [OF sw y(4)] by simp
            then show "succeeds (Ok (Some ?c) y) (\<lambda>r u. case r of Some c \<Rightarrow> balloc_effect p L s c u
              | None \<Rightarrow> (\<forall>bi < BPB. b + bi < unat ?sz \<longrightarrow> bused s (of_nat (b + bi))) \<and> txn p {} L u \<and> log_only s u \<and> bview u = bview s \<and> disk u = disk s)"
              by simp
          qed
        qed
      qed
    qed
  qed
qed

lemma balloc_scan:
  assumes "txn p {} L s" and "length L < 28" and "1 \<le> lg_outstanding s" and "bitmap_ok s"
    and "\<And>b. b \<in> set bs \<Longrightarrow> BPB dvd b \<and> b < unat (sb_size (sb s))"
  shows "succeeds (forany (balloc_block 1) bs s) (\<lambda>r t. case r of Some c \<Rightarrow> balloc_effect p L s c t
    | None \<Rightarrow> \<forall>b \<in> set bs. \<forall>bi < BPB. b + bi < unat (sb_size (sb s)) \<longrightarrow> bused s (of_nat (b + bi)))"
  using assms
proof (induction bs arbitrary: s)
  case (Cons b bs)
  obtain k where k: "b = BPB * k" "b < unat (sb_size (sb s))" using Cons.prems(5) [of b] by (auto elim: dvdE)
  show ?case
    unfolding forany.simps succeeds_andthen
  proof (rule succeeds_mono [OF balloc_block_spec [OF Cons.prems(1-4) k]])
    fix r u
    assume r: "case r of Some c \<Rightarrow> balloc_effect p L s c u
      | None \<Rightarrow> (\<forall>bi < BPB. b + bi < unat (sb_size (sb s)) \<longrightarrow> bused s (of_nat (b + bi))) \<and> txn p {} L u \<and> log_only s u \<and>
          bview u = bview s \<and> disk u = disk s"
    show "succeeds (case r of Some x \<Rightarrow> Ok (Some x) u | None \<Rightarrow> forany (balloc_block 1) bs u) (\<lambda>r t. case r of Some c \<Rightarrow> balloc_effect p L s c t
      | None \<Rightarrow> \<forall>b \<in> set (b # bs). \<forall>bi < BPB. b + bi < unat (sb_size (sb s)) \<longrightarrow> bused s (of_nat (b + bi)))"
    proof (cases r)
      case None
      then have u: "\<forall>bi < BPB. b + bi < unat (sb_size (sb s)) \<longrightarrow> bused s (of_nat (b + bi))" "txn p {} L u" "log_only s u"
        "bview u = bview s" "disk u = disk s" using r by simp_all
      note fu = log_only_frame(2,4) [OF u(3)] lst_more_ist(1) [OF log_only_frame(7) [OF u(3)]]
      have bu: "bused u = bused s" by (simp add: fun_eq_iff bused_def fu u(4))
      have e: "balloc_effect p L u c t \<Longrightarrow> balloc_effect p L s c t" for c t
        using log_only_trans [OF u(3)] by (simp add: balloc_effect_def Let_def bu fu u(4,5))
      have ok: "bitmap_ok u" "1 \<le> lg_outstanding u" using Cons.prems(3,4) by (simp_all add: bitmap_ok_def bu fu u(4))
      have bs: "\<And>b. b \<in> set bs \<Longrightarrow> BPB dvd b \<and> b < unat (sb_size (sb u))" using Cons.prems(5) by (simp add: fu)
      show ?thesis
        unfolding None option.case
        by (rule succeeds_mono [OF Cons.IH [OF u(2) Cons.prems(2) ok(2,1) bs]]) (use e u(1) bu fu in \<open>auto split: option.splits\<close>)
    next
      case (Some c)
      then show ?thesis using r by simp
    qed
  qed
qed simp

text \<open>The blocks whose bits the scan looks at are all blocks of the file system.\<close>

lemma bitmap_cover:
  assumes "b < (sz :: u32)"
  obtains st bi where "st \<in> set (map (\<lambda>k. BPB * k) [0..<(unat sz + BPB - 1) div BPB])" "bi < BPB" "st + bi < unat sz" "b = of_nat (st + bi)"
proof
  have lt: "unat b < unat sz" using assms by (simp add: word_less_nat_alt)
  have "(unat b + BPB) div BPB \<le> (unat sz + BPB - 1) div BPB" using lt by (intro div_le_mono) simp
  then show "BPB * (unat b div BPB) \<in> set (map (\<lambda>k. BPB * k) [0..<(unat sz + BPB - 1) div BPB])" by simp
  show "unat b mod BPB < BPB" by simp
  show "BPB * (unat b div BPB) + unat b mod BPB < unat sz" "b = of_nat (BPB * (unat b div BPB) + unat b mod BPB)" using lt by simp_all
qed

lemma balloc_effect_bits:
  assumes e: "balloc_effect p L s b t" and ok: "bitmap_ok s"
  shows "bused t b" "c < sb_size (sb s) \<Longrightarrow> c \<noteq> b \<Longrightarrow> bused t c = bused s c" "bitmap_ok t"
proof -
  let ?m = "BBLOCK b (sb s)"
  have b: "b < sb_size (sb s)" "\<not> bused s b" "log_only s t"
    and v: "bview t = (bview s)(?m := set_bit_in (bview s ?m) (unat b mod BPB), b := replicate BSIZE 0)"
    using e by (simp_all add: balloc_effect_def Let_def)
  have sb: "sb t = sb s" "disksize t = disksize s"
    using lst_more_ist(1) [OF log_only_frame(7) [OF b(3)]] log_only_frame(2) [OF b(3)] by simp_all
  have m: "BBLOCK c (sb s) < sb_size (sb s)" "bused s (BBLOCK c (sb s))" "length (bview s (BBLOCK c (sb s))) = BSIZE"
    if "c < sb_size (sb s)" for c using ok that by (simp_all add: bitmap_ok_def)
  have ne: "BBLOCK c (sb s) \<noteq> b" if "c < sb_size (sb s)" for c using m(2) [OF that] b(2) by auto
  have vt: "bview t (BBLOCK c (sb s)) = (if BBLOCK c (sb s) = ?m then set_bit_in (bview s ?m) (unat b mod BPB) else bview s (BBLOCK c (sb s)))"
    if "c < sb_size (sb s)" for c using ne [OF that] by (simp add: v)
  have bt: "bused t c \<longleftrightarrow> bused s c \<or> c = b" if c: "c < sb_size (sb s)" for c
  proof (cases "BBLOCK c (sb s) = ?m")
    case True
    have "c = b \<longleftrightarrow> unat c mod BPB = unat b mod BPB"
    proof
      assume "unat c mod BPB = unat b mod BPB"
      moreover have "unat (c div 4096) = unat (b div 4096)" using True by simp
      then have "unat c div BPB = unat b div BPB" by (simp add: unat_div)
      ultimately show "c = b" by (metis div_mult_mod_eq word_unat_eq_iff)
    qed simp
    moreover have "length (bview s ?m) = BSIZE" by (rule m(3) [OF b(1)])
    ultimately show ?thesis unfolding bused_def sb vt [OF c] using True by (simp add: bit_clear_set)
  next
    case False
    then show ?thesis unfolding bused_def sb vt [OF c] by auto
  qed
  show "bused t b" using bt [OF b(1)] by simp
  show "bused t c = bused s c" if "c < sb_size (sb s)" "c \<noteq> b" using bt [OF that(1)] that(2) by simp
  have "length (bview t (BBLOCK c (sb s))) = BSIZE" if "c < sb_size (sb s)" for c
    unfolding vt [OF that] using m(3) [OF that] m(3) [OF b(1)] by (simp add: set_bit_in_def)
  then show "bitmap_ok t" using ok bt m(1,2) by (simp add: bitmap_ok_def sb)
qed

text \<open>
  C19: The block allocator hands out fresh, zeroed blocks. Inside a transaction with room for two more blocks and with a
  sound bitmap, when some block is free \<open>balloc\<close> returns one that was free, marks it and only it as used, and fills
  it with zeros; no other block but the one holding its bit changes, the bitmap stays sound and exactly these two
  blocks are added to the transaction. When no block is free it panics.
\<close>

theorem balloc_fresh:
  assumes "txn p {} L s" and "length L < 28" and "1 \<le> lg_outstanding s" and "bitmap_ok s"
  shows "if \<exists>b < sb_size (sb s). \<not> bused s b
    then succeeds (balloc 1 s) (\<lambda>b t. b < sb_size (sb s) \<and> \<not> bused s b \<and> bused t b \<and>
      (\<forall>c < sb_size (sb s). c \<noteq> b \<longrightarrow> bused t c = bused s c) \<and> bview t b = replicate BSIZE 0 \<and>
      (\<forall>c. c \<noteq> b \<and> c \<noteq> BBLOCK b (sb s) \<longrightarrow> bview t c = bview s c) \<and> bitmap_ok t \<and>
      txn p {} (absorb b (absorb (BBLOCK b (sb s)) L)) t)
    else balloc 1 s = Panic ''balloc: out of blocks''"
proof -
  let ?st = "map (\<lambda>k. BPB * k) [0..<(unat (sb_size (sb s)) + BPB - 1) div BPB]"
  have st: "BPB dvd b \<and> b < unat (sb_size (sb s))" if "b \<in> set ?st" for b
  proof -
    from that obtain k where "k \<in> set [0..<(unat (sb_size (sb s)) + BPB - 1) div BPB]" and b: "b = BPB * k"
      unfolding set_map by blast
    then have k: "b = BPB * k" "k < (unat (sb_size (sb s)) + BPB - 1) div BPB" by simp_all
    then have "BPB * k + BPB \<le> unat (sb_size (sb s)) + BPB - 1" by (simp add: less_eq_div_iff_mult_less_eq flip: Suc_le_eq)
    then show ?thesis using k(1) by simp
  qed
  obtain r t where f: "forany (balloc_block 1) ?st s = Ok r t" and r: "case r of Some c \<Rightarrow> balloc_effect p L s c t
    | None \<Rightarrow> \<forall>b \<in> set ?st. \<forall>bi < BPB. b + bi < unat (sb_size (sb s)) \<longrightarrow> bused s (of_nat (b + bi))"
    using balloc_scan [OF assms st] by (rule succeedsE)
  have bal: "balloc 1 s = (case r of Some b \<Rightarrow> Ok b t | None \<Rightarrow> Panic ''balloc: out of blocks'')"
    unfolding balloc_def f by simp
  show ?thesis
  proof (cases r)
    case None
    then have "bused s b" if "b < sb_size (sb s)" for b using bitmap_cover [OF that] r by fastforce
    then show ?thesis using None by (auto simp: bal)
  next
    case (Some b)
    then have e: "balloc_effect p L s b t" using r by simp
    note q = balloc_effect_bits [OF e assms(4)]
    have "b < sb_size (sb s)" "\<not> bused s b" "txn p {} (absorb b (absorb (BBLOCK b (sb s)) L)) t"
      "bview t = (bview s)(BBLOCK b (sb s) := set_bit_in (bview s (BBLOCK b (sb s))) (unat b mod BPB), b := replicate BSIZE 0)"
      using e by (simp_all add: balloc_effect_def Let_def)
    then show ?thesis using q Some by (auto simp: bal)
  qed
qed

text \<open>
  An example: a file system of 1000 blocks with the log at block 2, the inodes from block 32 and the bitmap in block
  58, where the first 59 blocks are in use.
\<close>

definition zero_inode :: inode where
  "zero_inode = \<lparr>i_dev = 0, i_inum = 0, i_ref = 0, i_valid = False, i_type = 0, i_major = 0, i_minor = 0, i_nlink = 0,
     i_size = 0, i_addrs = replicate 13 0\<rparr>"

definition sb_ex :: superblock where
  "sb_ex = \<lparr>sb_size = 1000, sb_nblocks = 941, sb_ninodes = 200, sb_nlog = 30, sb_logstart = 2, sb_inodestart = 32, sb_bmapstart = 58\<rparr>"

definition bitmap_ex :: block where
  "bitmap_ex = replicate 7 0xFF @ [7] @ replicate 504 0"

definition fs_boot :: "(u32 \<Rightarrow> block) \<Rightarrow> ist" where
  "fs_boot d = lst.extend (log_boot d) (ist.fields sb_ex (replicate NINODE zero_inode) (replicate 10 None))"

lemma fs_boot_sel [simp]:
  "sb (fs_boot d) = sb_ex" "icache (fs_boot d) = replicate NINODE zero_inode" "bufs (fs_boot d) = bufs (log_boot d)"
  "disk (fs_boot d) = disk (log_boot d)" "slocks (fs_boot d) = slocks (log_boot d)" "hw (fs_boot d) = hw (log_boot d)"
  "ptable (fs_boot d) = ptable (log_boot d)" "disksize (fs_boot d) = 1000" "lg_block (fs_boot d) = replicate 30 0"
  "lg_size (fs_boot d) = 30" "lg_n (fs_boot d) = 0" "lg_outstanding (fs_boot d) = 1"
  using log_boot_ok(5) [of d] log_boot_lg [of d]
  by (simp_all add: fs_boot_def lst.defs ist.defs)

lemma fs_boot_view: "bview (fs_boot d) = d"
proof -
  have c: "bcached (fs_boot d) = bcached (log_boot d)" unfolding bcached_def fs_boot_sel by (rule refl)
  show ?thesis using log_boot_ok(2) [of d] unfolding bview_def c fs_boot_sel .
qed

lemma fs_boot_txn: "txn 0 {} [] (fs_boot d)"
proof -
  have "buf_ok 0 {} (fs_boot d) i = buf_ok 0 {} (log_boot d) i" for i unfolding buf_ok_def fs_boot_sel by (rule refl)
  then have "bc_ok 0 {} (fs_boot d)" using log_boot_ok(1) [of d] unfolding bc_ok_def fs_boot_sel by simp
  moreover have "dirties (fs_boot d) = {}" using log_boot_ok(3) [of d] unfolding dirties_def fs_boot_sel .
  ultimately show ?thesis using log_boot_ok(4) [of d] by (simp add: txn_def fs_boot_view)
qed

theorem iget_one_entry_witness:
  "succeeds (iget 1 7 (fs_boot (\<lambda>_. []))) (\<lambda>ip t. ikey (icache t ! ip) = (1, 7) \<and> irefs t (1, 7) = 1)"
proof -
  have z: "irefs (fs_boot (\<lambda>_. [])) (1, 7) = 0" by (simp add: irefs_def ikey_def zero_inode_def)
  have "icache_ok (fs_boot (\<lambda>_. []))" by (simp add: icache_ok_def zero_inode_def)
  moreover have "\<exists>i<NINODE. i_ref (icache (fs_boot (\<lambda>_. [])) ! i) = 0" by (intro exI [of _ 0]) (simp add: zero_inode_def)
  ultimately show ?thesis
    using iget_one_entry [of "fs_boot (\<lambda>_. [])" 1 7] txnD(9) [OF fs_boot_txn] z by (auto elim!: succeeds_mono)
qed

theorem balloc_fresh_witness:
  "succeeds (balloc 1 (fs_boot (\<lambda>b. if b = 58 then bitmap_ex else []))) (\<lambda>b t. b < 1000 \<and> bused t b \<and> bview t b = replicate BSIZE 0)"
proof -
  let ?s = "fs_boot (\<lambda>b. if b = 58 then bitmap_ex else [])"
  have d: "b div 4096 = 0" if "b < 1000" for b :: u32
    using that by (simp add: word_less_nat_alt word_unat_eq_iff unat_div)
  have u: "bused ?s 58" "\<not> bused ?s 59"
    by (simp_all add: bused_def fs_boot_view sb_ex_def bit_clear_def bitmap_ex_def nth_append)
  have ok: "bitmap_ok ?s"
    using u d by (simp add: bitmap_ok_def sb_ex_def fs_boot_view bitmap_ex_def)
  have "59 < sb_size (sb ?s)" by (simp add: sb_ex_def)
  then have e: "(\<exists>b < sb_size (sb ?s). \<not> bused ?s b) = True" using u(2) by blast
  have "sb_size (sb ?s) = 1000" by (simp add: sb_ex_def)
  then show ?thesis
    using balloc_fresh [OF fs_boot_txn [of "\<lambda>b. if b = 58 then bitmap_ex else []"] _ _ ok]
    unfolding e if_True by (auto elim!: succeeds_mono)
qed

end
