(* ===== verification/Vm.thy ===== *)
theory Vm
  imports Kalloc
begin

text \<open>
  Page tables (the first part of vm.c): \<open>walkpgdir\<close>, \<open>mappages\<close>, the kernel map of \<open>setupkvm\<close>, and the
  operations that read or change single page table entries. Page directories and page tables live in
  the kernel's byte memory, at the pages \<open>kalloc\<close> returned, with the bit layout of mmu.h.

  \<open>ptes m pgdir\<close> is the abstract content of an address space: the page table entry of every virtual
  address, 0 where no page table exists. \<open>walkpgdir\<close> leaves it unchanged even when it allocates a page
  table, and the address it returns is where the entry is stored.
\<close>

section \<open>Definitions\<close>

definition walkpgdir :: "addr \<Rightarrow> u32 \<Rightarrow> bool \<Rightarrow> 'z kmst_scheme \<Rightarrow> (addr, 'z kmst_scheme) out" where
  "walkpgdir pgdir va alloc s =
     (let pde = pgdir + 4 * PDX va in
      if ld32 (mem s) pde AND PTE_P \<noteq> 0
      then Ok (P2V (PTE_ADDR (ld32 (mem s) pde)) + 4 * PTX va) s
      else if \<not> alloc then Ok 0 s
      else andthen (kalloc s) (\<lambda>pgtab s.
        if pgtab = 0 then Ok 0 s
        else Ok (pgtab + 4 * PTX va)
          (s\<lparr>mem := st32 (memset pgtab 0 PGSIZE (mem s)) pde (V2P pgtab OR PTE_P OR PTE_W OR PTE_U)\<rparr>)))"

text \<open>
  The body of the loop of \<open>mappages\<close>, then the loop. \<open>a\<close> and \<open>last\<close> are page-aligned, so the test
  \<open>a == last\<close> succeeds after \<open>n = (last - a) / PGSIZE\<close> increments; \<open>n\<close> is the recursion argument.
\<close>

definition map_page :: "addr \<Rightarrow> u32 \<Rightarrow> u32 \<Rightarrow> u32 \<Rightarrow> 'z kmst_scheme \<Rightarrow> (int, 'z kmst_scheme) out" where
  "map_page pgdir a pa perm s =
     andthen (walkpgdir pgdir a True s) (\<lambda>pte s.
     if pte = 0 then Ok (- 1) s
     else if ld32 (mem s) pte AND PTE_P \<noteq> 0 then Panic ''remap''
     else Ok 0 (s\<lparr>mem := st32 (mem s) pte (pa OR perm OR PTE_P)\<rparr>))"

primrec mappages_loop ::
  "nat \<Rightarrow> addr \<Rightarrow> u32 \<Rightarrow> u32 \<Rightarrow> u32 \<Rightarrow> 'z kmst_scheme \<Rightarrow> (int, 'z kmst_scheme) out" where
  "mappages_loop 0 pgdir a pa perm s = map_page pgdir a pa perm s"
| "mappages_loop (Suc n) pgdir a pa perm s =
     andthen (map_page pgdir a pa perm s) (\<lambda>r s.
     if r < 0 then Ok (- 1) s else mappages_loop n pgdir (a + PGSIZE) (pa + PGSIZE) perm s)"

definition mappages ::
  "addr \<Rightarrow> u32 \<Rightarrow> u32 \<Rightarrow> u32 \<Rightarrow> u32 \<Rightarrow> 'z kmst_scheme \<Rightarrow> (int, 'z kmst_scheme) out" where
  "mappages pgdir va sz pa perm s =
     (let a = PGROUNDDOWN va; b = PGROUNDDOWN (va + sz - 1) in
      mappages_loop (unat (b - a) div 4096) pgdir a pa perm s)"

definition find_pa :: "addr \<Rightarrow> u32 \<Rightarrow> 'z kmst_scheme \<Rightarrow> (u32, 'z kmst_scheme) out" where
  "find_pa pgdir va s = andthen (walkpgdir pgdir va False s) (\<lambda>pte s.
     Ok (if pte = 0 then - 1 else PTE_ADDR (ld32 (mem s) pte)) s)"

text \<open>Read-modify-write of the entry at address \<open>pte\<close>.\<close>

definition upd_pte :: "addr \<Rightarrow> (u32 \<Rightarrow> u32) \<Rightarrow> 'z kmst_scheme \<Rightarrow> 'z kmst_scheme" where
  "upd_pte pte f s = s\<lparr>mem := st32 (mem s) pte (f (ld32 (mem s) pte))\<rparr>"

definition set_page_flags_in_mem ::
  "addr \<Rightarrow> u32 \<Rightarrow> u32 \<Rightarrow> 'z kmst_scheme \<Rightarrow> (unit, 'z kmst_scheme) out" where
  "set_page_flags_in_mem pgdir va pa s = andthen (walkpgdir pgdir va False s) (\<lambda>pte s.
     if pte = 0 then Panic ''failed setting PTE flags when handling trap''
     else Ok () (upd_pte pte (\<lambda>e. ((e OR PTE_P OR PTE_W OR PTE_U) AND NOT PTE_PG) OR pa) s))"

definition set_page_flags_in_disk :: "addr \<Rightarrow> u32 \<Rightarrow> 'z kmst_scheme \<Rightarrow> (unit, 'z kmst_scheme) out" where
  "set_page_flags_in_disk pgdir va s = andthen (walkpgdir pgdir va False s) (\<lambda>pte s.
     if pte = 0 then Panic ''failed setting PTE flags after writing to file''
     else Ok () (upd_pte pte (\<lambda>e. let e = (e OR PTE_PG) AND NOT PTE_P in e AND PTE_FLAGS e) s))"

definition clearpteu :: "addr \<Rightarrow> u32 \<Rightarrow> 'z kmst_scheme \<Rightarrow> (unit, 'z kmst_scheme) out" where
  "clearpteu pgdir uva s = andthen (walkpgdir pgdir uva False s) (\<lambda>pte s.
     if pte = 0 then Panic ''clearpteu'' else Ok () (upd_pte pte (\<lambda>e. e AND NOT PTE_U) s))"

text \<open>\<open>uva2ka\<close> dereferences the result of \<open>walkpgdir\<close> without a null check.\<close>

definition uva2ka :: "addr \<Rightarrow> u32 \<Rightarrow> 'z kmst_scheme \<Rightarrow> (addr, 'z kmst_scheme) out" where
  "uva2ka pgdir uva s = andthen (walkpgdir pgdir uva False s) (\<lambda>pte s.
     if pte = 0 then Undef ''null pte''
     else let e = ld32 (mem s) pte in
       if e AND PTE_P = 0 then Ok 0 s
       else if e AND PTE_U = 0 then Ok 0 s
       else Ok (P2V (PTE_ADDR e)) s)"

text \<open>
  \<open>deallocuvm\<close>. The scan of \<open>memory_pages\<close> clears the first matching slot. The loop steps over the
  range of a missing page table; for the bounds the kernel passes (at most \<open>KERNBASE\<close>) \<open>a\<close> does not
  wrap around, and a range so large that it would is outside the model.
\<close>

definition check_policy :: "'z kmst_scheme \<Rightarrow> bool" where
  "check_policy s \<longleftrightarrow> selection s \<noteq> NONE"

primrec forget_page :: "addr \<Rightarrow> u32 \<Rightarrow> page list \<Rightarrow> page list" where
  "forget_page pgdir a [] = []"
| "forget_page pgdir a (q # qs) =
     (if pg_is_used q \<and> pg_pgdir q = pgdir \<and> pg_va q = a then q\<lparr>pg_is_used := False\<rparr> # qs
      else q # forget_page pgdir a qs)"

definition dealloc_page :: "addr \<Rightarrow> u32 \<Rightarrow> addr \<Rightarrow> nat option \<Rightarrow> 'z kmst_scheme \<Rightarrow> (unit, 'z kmst_scheme) out" where
  "dealloc_page pgdir a pte p s =
     (let pa = PTE_ADDR (ld32 (mem s) pte) in
      if pa = 0 then Panic ''kfree''
      else andthen (kfree (P2V pa) s) (\<lambda>_ s.
        let s = upd_pte pte (\<lambda>e. e AND NOT PTE_P) s;
            s = upd_pte pte (\<lambda>e. e AND NOT (PTE_FLAGS e)) s in
        andthen (if check_policy s
          then (case p of None \<Rightarrow> Undef ''null proc''
            | Some i \<Rightarrow> Ok () (upd_proc i (\<lambda>q. q\<lparr>p_memory_pages := forget_page pgdir a (p_memory_pages q)\<rparr>) s))
          else Ok () s) (\<lambda>_ s.
        Ok () (upd_pte pte (\<lambda>_. 0) s))))"

function deallocuvm_loop ::
  "addr \<Rightarrow> u32 \<Rightarrow> u32 \<Rightarrow> nat option \<Rightarrow> 'z kmst_scheme \<Rightarrow> (unit, 'z kmst_scheme) out" where
  "deallocuvm_loop pgdir a oldsz p s =
     (if \<not> a < oldsz then Ok () s
      else andthen (walkpgdir pgdir a False s) (\<lambda>pte s.
        if pte = 0
        then if unat a + 1024 * 4096 < 2 ^ 32 then deallocuvm_loop pgdir (a + 1024 * PGSIZE) oldsz p s
          else Undef ''address wraps around''
        else andthen (if ld32 (mem s) pte AND PTE_P \<noteq> 0 then dealloc_page pgdir a pte p s else Ok () s) (\<lambda>_ s.
          if unat a + 4096 < 2 ^ 32 then deallocuvm_loop pgdir (a + PGSIZE) oldsz p s
          else Undef ''address wraps around'')))"
  by pat_completeness auto

termination deallocuvm_loop
  by (relation "measure (\<lambda>(pgdir, a, oldsz, p, s). unat oldsz - unat a)")
    (auto simp: unat_plus_lt word_less_nat_alt)

declare deallocuvm_loop.simps [simp del]

definition deallocuvm :: "addr \<Rightarrow> u32 \<Rightarrow> u32 \<Rightarrow> 'z kmst_scheme \<Rightarrow> (u32, 'z kmst_scheme) out" where
  "deallocuvm pgdir oldsz newsz s =
     andthen (kmyproc s) (\<lambda>p s.
     if oldsz \<le> newsz then Ok oldsz s
     else andthen (deallocuvm_loop pgdir (PGROUNDUP newsz) oldsz p s) (\<lambda>_ s. Ok newsz s))"

definition free_table :: "addr \<Rightarrow> u32 \<Rightarrow> 'z kmst_scheme \<Rightarrow> (unit, 'z kmst_scheme) out" where
  "free_table pgdir i s =
     (let pde = pgdir + 4 * i in
      if ld32 (mem s) pde AND PTE_P = 0 then Ok () s
      else andthen (kfree (P2V (PTE_ADDR (ld32 (mem s) pde))) s) (\<lambda>_ s.
        let s = upd_pte pde (\<lambda>e. e AND NOT PTE_P) s in
        Ok () (upd_pte pde (\<lambda>e. e AND NOT (PTE_FLAGS e)) s)))"

definition freevm :: "addr \<Rightarrow> 'z kmst_scheme \<Rightarrow> (unit, 'z kmst_scheme) out" where
  "freevm pgdir s =
     (if pgdir = 0 then Panic ''freevm: no pgdir''
      else andthen (deallocuvm pgdir KERNBASE 0 s) (\<lambda>_ s.
        andthen (foreach (free_table pgdir) (map of_nat [0..<1024]) s) (\<lambda>_ s.
        kfree pgdir s)))"

record kmap_entry =
  virt :: addr
  phys_start :: u32
  phys_end :: u32
  perm :: u32

definition kmap :: "addr \<Rightarrow> kmap_entry list" where
  "kmap dat =
    [\<lparr>virt = KERNBASE, phys_start = 0, phys_end = EXTMEM, perm = PTE_W\<rparr>,
     \<lparr>virt = KERNLINK, phys_start = V2P KERNLINK, phys_end = V2P dat, perm = 0\<rparr>,
     \<lparr>virt = dat, phys_start = V2P dat, phys_end = PHYSTOP, perm = PTE_W\<rparr>,
     \<lparr>virt = DEVSPACE, phys_start = DEVSPACE, phys_end = 0, perm = PTE_W\<rparr>]"

definition setupkvm :: "'z kmst_scheme \<Rightarrow> (addr, 'z kmst_scheme) out" where
  "setupkvm s =
     andthen (kalloc s) (\<lambda>pgdir s.
     if pgdir = 0 then Ok 0 s
     else let s = s\<lparr>mem := memset pgdir 0 PGSIZE (mem s)\<rparr> in
       if DEVSPACE < P2V PHYSTOP then Panic ''PHYSTOP too high''
       else andthen (forany (\<lambda>k s.
           andthen (mappages pgdir (virt k) (phys_end k - phys_start k) (phys_start k) (perm k) s) (\<lambda>r s.
           if r < 0 then andthen (freevm pgdir s) (\<lambda>_ s. Ok (Some 0) s) else Ok None s))
         (kmap (kdata s)) s) (\<lambda>r s.
       Ok (case r of Some x \<Rightarrow> x | None \<Rightarrow> pgdir) s))"

definition kvmalloc :: "'z kmst_scheme \<Rightarrow> (addr, 'z kmst_scheme) out" where
  "kvmalloc s = andthen (setupkvm s) (\<lambda>kpgdir s. Ok kpgdir (switchkvm kpgdir s))"

text \<open>
  \<open>inituvm\<close>: \<open>init\<close> is the kernel address of the code. The result of \<open>kalloc\<close> is not tested.
\<close>

definition inituvm :: "addr \<Rightarrow> addr \<Rightarrow> u32 \<Rightarrow> 'z kmst_scheme \<Rightarrow> (unit, 'z kmst_scheme) out" where
  "inituvm pgdir init sz s =
     (if PGSIZE \<le> sz then Panic ''inituvm: more than a page''
      else andthen (kalloc s) (\<lambda>pg s.
        if pg = 0 then Undef ''null page''
        else andthen (mappages pgdir 0 PGSIZE (V2P pg) (PTE_W OR PTE_U)
            (s\<lparr>mem := memset pg 0 PGSIZE (mem s)\<rparr>)) (\<lambda>_ s.
          Ok () (s\<lparr>mem := memmove pg init sz (mem s)\<rparr>))))"

text \<open>The addresses \<open>0, PGSIZE, ...\<close> below \<open>sz\<close>, over which the copy loops run.\<close>

definition page_starts :: "u32 \<Rightarrow> u32 list" where
  "page_starts sz = map (\<lambda>k. of_nat (4096 * k)) [0..<(unat sz + 4095) div 4096]"

definition copyuvm_page :: "addr \<Rightarrow> addr \<Rightarrow> u32 \<Rightarrow> 'z kmst_scheme \<Rightarrow> (addr option, 'z kmst_scheme) out" where
  "copyuvm_page pgdir d i s =
     andthen (walkpgdir pgdir i False s) (\<lambda>pte s.
     if pte = 0 then Panic ''copyuvm: pte should exist''
     else let e = ld32 (mem s) pte in
       if e AND PTE_P = 0 then Panic ''copyuvm: page not present''
       else andthen (kalloc s) (\<lambda>pg s.
         if pg = 0 then andthen (freevm d s) (\<lambda>_ s. Ok (Some 0) s)
         else andthen (mappages d i PGSIZE (V2P pg) (PTE_FLAGS e)
             (s\<lparr>mem := memmove pg (P2V (PTE_ADDR e)) PGSIZE (mem s)\<rparr>)) (\<lambda>r s.
           if r < 0 then andthen (kfree pg s) (\<lambda>_ s. andthen (freevm d s) (\<lambda>_ s. Ok (Some 0) s))
           else Ok None s)))"

definition copyuvm :: "addr \<Rightarrow> u32 \<Rightarrow> 'z kmst_scheme \<Rightarrow> (addr, 'z kmst_scheme) out" where
  "copyuvm pgdir sz s =
     andthen (setupkvm s) (\<lambda>d s.
     if d = 0 then Ok 0 s
     else andthen (forany (copyuvm_page pgdir d) (page_starts sz) s) (\<lambda>r s.
       Ok (case r of Some x \<Rightarrow> x | None \<Rightarrow> d) s))"

text \<open>Reloading the page table register of the executing CPU with the process's page directory.\<close>

definition klcr3 :: "nat option \<Rightarrow> 'z kst_scheme \<Rightarrow> (unit, 'z kst_scheme) out" where
  "klcr3 p s = (case p of None \<Rightarrow> Undef ''null proc''
     | Some i \<Rightarrow> Ok () (s\<lparr>hw := lcr3 (V2P (p_pgdir (ptable s ! i))) (hw s)\<rparr>))"

definition cow_page ::
  "addr \<Rightarrow> addr \<Rightarrow> nat option \<Rightarrow> u32 \<Rightarrow> 'z kmst_scheme \<Rightarrow> (unit, 'z kmst_scheme) out" where
  "cow_page pgdir d p i s =
     andthen (walkpgdir pgdir i False s) (\<lambda>pte s.
     if pte = 0 then Panic ''copyonwriteuvm: pte should exist''
     else if ld32 (mem s) pte AND PTE_PG \<noteq> 0
       then andthen (set_page_flags_in_disk d i s) (\<lambda>_ s. klcr3 p s)
     else if ld32 (mem s) pte AND PTE_P = 0 then Panic ''copyonwriteuvm: page not present''
     else let s = upd_pte pte (\<lambda>e. (e OR PTE_COW) AND NOT PTE_W) s;
              e = ld32 (mem s) pte in
       andthen (inc_counter (PTE_ADDR e) s) (\<lambda>_ s.
       andthen (mappages d i PGSIZE (PTE_ADDR e) (PTE_FLAGS e) s) (\<lambda>r s.
       if r < 0 then Panic ''copyonwriteuvm: should not happen'' else Ok () s)))"

definition copyonwriteuvm :: "addr \<Rightarrow> u32 \<Rightarrow> 'z kmst_scheme \<Rightarrow> (addr, 'z kmst_scheme) out" where
  "copyonwriteuvm pgdir sz s =
     andthen (kmyproc s) (\<lambda>p s.
     andthen (setupkvm s) (\<lambda>d s.
     if d = 0 then Ok 0 s
     else andthen (foreach (cow_page pgdir d p) (page_starts sz) s) (\<lambda>_ s.
       andthen (klcr3 p s) (\<lambda>_ s. Ok d s))))"

text \<open>
  \<open>handle_cow\<close>; \<open>va\<close> is what \<open>rcr2()\<close> returns, the result tells whether the fault was handled.
  \<open>cow_copy\<close> is its branch for a page with more than one reference.
\<close>

definition cow_copy :: "addr \<Rightarrow> u32 \<Rightarrow> 'z kmst_scheme \<Rightarrow> (unit, 'z kmst_scheme) out" where
  "cow_copy pte pa s =
     andthen (kalloc s) (\<lambda>pg s.
     if pg = 0 then Panic ''COW: kalloc failed''
     else andthen (dec_counter pa (s\<lparr>mem := memmove pg (P2V pa) PGSIZE (mem s)\<rparr>)) (\<lambda>_ s.
       let s = upd_pte pte (\<lambda>e. e AND NOT PTE_COW) s in
       Ok () (upd_pte pte (\<lambda>_. V2P pg OR PTE_P OR PTE_U OR PTE_W) s)))"

definition handle_cow :: "u32 \<Rightarrow> 'z kmst_scheme \<Rightarrow> (bool, 'z kmst_scheme) out" where
  "handle_cow va s =
     andthen (thisproc s) (\<lambda>p s.
     andthen (walkpgdir (p_pgdir (ptable s ! p)) va False s) (\<lambda>pte s.
     if pte = 0 then Panic ''handle_cow: walkdir failed''
     else let e = ld32 (mem s) pte; pa = PTE_ADDR e in
       if e AND PTE_W \<noteq> 0 \<or> e AND PTE_COW = 0 then Ok False s
       else andthen (get_ref_counter pa s) (\<lambda>c s.
         andthen (if 1 < sint c then cow_copy pte pa s
           else Ok () (upd_pte pte (\<lambda>e. (e AND NOT PTE_COW) OR PTE_W) s)) (\<lambda>_ s.
         andthen (klcr3 (Some p) s) (\<lambda>_ s. Ok True s)))))"

section \<open>The content of an address space\<close>

definition has_table :: "memory \<Rightarrow> addr \<Rightarrow> u32 \<Rightarrow> bool" where
  "has_table m pgdir i \<longleftrightarrow> ld32 m (pgdir + 4 * i) AND PTE_P \<noteq> 0"

definition table :: "memory \<Rightarrow> addr \<Rightarrow> u32 \<Rightarrow> addr" where
  "table m pgdir i = P2V (PTE_ADDR (ld32 m (pgdir + 4 * i)))"

definition ptes :: "memory \<Rightarrow> addr \<Rightarrow> u32 \<Rightarrow> u32" where
  "ptes m pgdir va = (if has_table m pgdir (PDX va)
     then ld32 m (table m pgdir (PDX va) + 4 * PTX va) else 0)"

definition pt_pages :: "memory \<Rightarrow> addr \<Rightarrow> addr set" where
  "pt_pages m pgdir = insert pgdir (table m pgdir ` {i. i < NPDENTRIES \<and> has_table m pgdir i})"

definition pt_wf :: "memory \<Rightarrow> addr \<Rightarrow> bool" where
  "pt_wf m pgdir \<longleftrightarrow> page_aligned pgdir \<and>
     inj_on (table m pgdir) {i. i < NPDENTRIES \<and> has_table m pgdir i} \<and>
     (\<forall>i < NPDENTRIES. has_table m pgdir i \<longrightarrow> table m pgdir i \<noteq> pgdir)"

definition pt_ok :: "addr \<Rightarrow> 'z kmst_scheme \<Rightarrow> bool" where
  "pt_ok pgdir s \<longleftrightarrow> km_ok s \<and> pt_wf (mem s) pgdir \<and> pt_pages (mem s) pgdir \<subseteq> km_pool s - km_avail s"

lemma fields_less [simp]: "PDX va < 1024" "PTX va < 1024"
proof -
  have "take_bit 10 x < 1024" for x :: u32
    by (simp add: word_less_nat_alt take_bit_eq_mod unat_mod)
  then show "PDX va < 1024" "PTX va < 1024" by (simp_all add: macro_forms)
qed

lemma unat_4_times: "i < 1024 \<Longrightarrow> 4 * unat (i :: u32) < 4096"
  unfolding word_less_nat_alt by simp

lemma slot:
  assumes "page_aligned pg" and "i < 1024"
  shows "aligned4 (pg + 4 * i)" and "PGROUNDDOWN (pg + 4 * i) = pg"
    and "j < 1024 \<Longrightarrow> pg + 4 * i = pg + 4 * j \<longleftrightarrow> i = j"
proof -
  note i = unat_4_times [OF assms(2)]
  have u: "unat (pg + 4 * i) = unat pg + 4 * unat i"
    using unat_page_plus [OF assms(1), of "4 * unat i"] i by simp
  then show "aligned4 (pg + 4 * i)"
    using page_aligned_aligned4 [OF assms(1)] by (simp add: aligned4_iff)
  show "PGROUNDDOWN (pg + 4 * i) = pg"
    using PGROUNDDOWN_plus [OF assms(1), of "4 * unat i"] i by simp
  show "pg + 4 * i = pg + 4 * j \<longleftrightarrow> i = j" if "j < 1024"
  proof
    assume "pg + 4 * i = pg + 4 * j"
    moreover have "unat (pg + 4 * j) = unat pg + 4 * unat j"
      using unat_page_plus [OF assms(1), of "4 * unat j"] unat_4_times [OF that] by simp
    ultimately show "i = j" using u by (simp add: word_unat_eq_iff)
  qed simp
qed

lemma page_aligned_plus:
  assumes "page_aligned a" and "page_aligned b"
  shows "page_aligned (a + b)"
  using assms unfolding page_aligned_iff by (simp add: unat_word_ariths dvd_mod)

lemma page_aligned_P2V [simp]: "page_aligned (P2V (PTE_ADDR e))"
  unfolding P2V_def by (rule page_aligned_plus) (simp, simp add: page_aligned_def)

lemma table_aligned [simp]: "page_aligned (table m pgdir i)"
  by (simp add: table_def)

lemma times4_inj: "i < 1024 \<Longrightarrow> j < 1024 \<Longrightarrow> 4 * i = 4 * (j :: u32) \<longleftrightarrow> i = j"
  using slot(3) [of 0 i j] by (simp add: page_aligned_def)

text \<open>A write into a page that is not the page directory keeps the directory.\<close>

lemma dir_cong:
  assumes "page_aligned pgdir" and "\<And>b. PGROUNDDOWN b = pgdir \<Longrightarrow> m' b = m b" and "i < 1024"
  shows "ld32 m' (pgdir + 4 * i) = ld32 m (pgdir + 4 * i)"
  using assms slot [OF assms(1,3)] by (intro ld32_page_cong) auto

lemma dir_cong':
  assumes "page_aligned pgdir" and "\<And>b. PGROUNDDOWN b = pgdir \<Longrightarrow> m' b = m b" and "i < 1024"
  shows "has_table m' pgdir i = has_table m pgdir i" and "table m' pgdir i = table m pgdir i"
  using dir_cong [OF assms] by (simp_all add: has_table_def table_def)

text \<open>An address space depends only on its own page table pages.\<close>

lemma space_cong:
  assumes "pt_wf m pgdir" and "\<And>b. PGROUNDDOWN b \<in> pt_pages m pgdir \<Longrightarrow> m' b = m b"
  shows "ptes m' pgdir = ptes m pgdir" and "pt_wf m' pgdir" and "pt_pages m' pgdir = pt_pages m pgdir"
    and "i < 1024 \<Longrightarrow> has_table m' pgdir i = has_table m pgdir i"
    and "i < 1024 \<Longrightarrow> table m' pgdir i = table m pgdir i"
proof -
  have al: "page_aligned pgdir" using assms(1) by (simp add: pt_wf_def)
  have dir: "has_table m' pgdir i = has_table m pgdir i \<and> table m' pgdir i = table m pgdir i" if "i < 1024" for i
    using dir_cong' [OF al _ that, of m' m] assms(2) by (simp add: pt_pages_def)
  show "ptes m' pgdir = ptes m pgdir"
  proof
    fix va
    have "ld32 m' (table m pgdir (PDX va) + 4 * PTX va) = ld32 m (table m pgdir (PDX va) + 4 * PTX va)"
      if "has_table m pgdir (PDX va)"
      using that assms(2) slot [OF table_aligned fields_less(2)]
      by (intro ld32_page_cong) (auto simp: pt_pages_def)
    then show "ptes m' pgdir va = ptes m pgdir va" using dir by (simp add: ptes_def)
  qed
  have set: "{i. i < 1024 \<and> has_table m' pgdir i} = {i. i < 1024 \<and> has_table m pgdir i}" using dir by blast
  show "pt_pages m' pgdir = pt_pages m pgdir"
    unfolding pt_pages_def set using dir by (auto intro!: image_cong)
  have "inj_on (table m' pgdir) {i. i < 1024 \<and> has_table m pgdir i} =
      inj_on (table m pgdir) {i. i < 1024 \<and> has_table m pgdir i}"
    using dir by (intro inj_on_cong) auto
  then show "pt_wf m' pgdir" using assms(1) dir unfolding pt_wf_def set by auto
  show "i < 1024 \<Longrightarrow> has_table m' pgdir i = has_table m pgdir i"
    and "i < 1024 \<Longrightarrow> table m' pgdir i = table m pgdir i" using dir by auto
qed

lemma pgno_split: "pgno a = push_bit 10 (PDX a) OR PTX a"
proof (rule bit_word_eqI)
  fix n :: nat
  assume "n < LENGTH(32)"
  show "bit (pgno a) n = bit (push_bit 10 (PDX a) OR PTX a) n"
  proof (cases "n < 10")
    case True
    then show ?thesis unfolding pgno_def macro_forms by (simp add: bit_simps)
  next
    case False
    then have "bit a (n + 12) \<longleftrightarrow> n < 20 \<and> bit a (n + 12)" by (auto dest: bit_imp_le_length)
    then show ?thesis using False unfolding pgno_def macro_forms by (auto simp: bit_simps add.commute)
  qed
qed

lemma pgno_fields: "pgno a = pgno b \<longleftrightarrow> PDX a = PDX b \<and> PTX a = PTX b"
proof -
  have "PDX a = take_bit 10 (drop_bit 10 (pgno a))" "PTX a = take_bit 10 (pgno a)" for a
    unfolding macro_forms pgno_def by (simp_all only: drop_bit_drop_bit) simp_all
  then have "PDX a = PDX b \<and> PTX a = PTX b" if "pgno a = pgno b" using that by simp
  moreover have "pgno a = pgno b" if "PDX a = PDX b \<and> PTX a = PTX b"
    unfolding pgno_split [of a] pgno_split [of b] using that by simp
  ultimately show ?thesis by blast
qed

text \<open>Storing into the entry of \<open>va\<close> changes the space at the page of \<open>va\<close> only.\<close>

lemma store_pte:
  fixes v :: u32
  assumes "pt_wf m pgdir" and "has_table m pgdir (PDX va)"
  defines "m' \<equiv> st32 m (table m pgdir (PDX va) + 4 * PTX va) v"
  shows "ptes m' pgdir = (\<lambda>b. if pgno b = pgno va then v else ptes m pgdir b)"
    and "pt_wf m' pgdir" and "pt_pages m' pgdir = pt_pages m pgdir"
    and "i < 1024 \<Longrightarrow> has_table m' pgdir i = has_table m pgdir i"
    and "i < 1024 \<Longrightarrow> table m' pgdir i = table m pgdir i"
    and "PGROUNDDOWN b \<noteq> table m pgdir (PDX va) \<Longrightarrow> m' b = m b"
proof -
  let ?t = "table m pgdir (PDX va)"
  note sl = slot [OF table_aligned fields_less(2)]
  have al: "page_aligned pgdir" and ne: "?t \<noteq> pgdir" using assms(1,2) by (auto simp: pt_wf_def)
  show off: "PGROUNDDOWN b \<noteq> ?t \<Longrightarrow> m' b = m b" for b
    unfolding m'_def by (rule st32_other_page) (simp_all add: sl)
  have dir: "has_table m' pgdir i = has_table m pgdir i" "table m' pgdir i = table m pgdir i" if "i < 1024" for i
    using dir_cong' [OF al _ that, of m' m] off ne by metis+
  show "ptes m' pgdir = (\<lambda>b. if pgno b = pgno va then v else ptes m pgdir b)"
  proof
    fix b
    have "ld32 m' (table m pgdir (PDX b) + 4 * PTX b) =
        (if pgno b = pgno va then v else ld32 m (table m pgdir (PDX b) + 4 * PTX b))"
      if h: "has_table m pgdir (PDX b)"
    proof (cases "PDX b = PDX va")
      case True
      then show ?thesis
        unfolding m'_def by (subst ld32_st32) (auto simp: sl pgno_fields times4_inj)
    next
      case False
      then have "table m pgdir (PDX b) \<noteq> ?t"
        using assms(1,2) h by (auto simp: pt_wf_def dest: inj_onD)
      then have "ld32 m' (table m pgdir (PDX b) + 4 * PTX b) = ld32 m (table m pgdir (PDX b) + 4 * PTX b)"
        using off sl by (intro ld32_page_cong) auto
      then show ?thesis using False by (simp add: pgno_fields)
    qed
    moreover have "pgno b \<noteq> pgno va" if "\<not> has_table m pgdir (PDX b)"
      using that assms(2) by (auto simp: pgno_fields)
    ultimately show "ptes m' pgdir b = (if pgno b = pgno va then v else ptes m pgdir b)"
      by (simp add: ptes_def dir)
  qed
  have set: "{i. i < 1024 \<and> has_table m' pgdir i} = {i. i < 1024 \<and> has_table m pgdir i}" using dir by blast
  show "pt_pages m' pgdir = pt_pages m pgdir"
    unfolding pt_pages_def set using dir by (auto intro!: image_cong)
  have "inj_on (table m' pgdir) {i. i < 1024 \<and> has_table m pgdir i} =
      inj_on (table m pgdir) {i. i < 1024 \<and> has_table m pgdir i}"
    using dir by (intro inj_on_cong) auto
  then show "pt_wf m' pgdir" using assms(1) dir unfolding pt_wf_def set by auto
  show "i < 1024 \<Longrightarrow> has_table m' pgdir i = has_table m pgdir i"
    and "i < 1024 \<Longrightarrow> table m' pgdir i = table m pgdir i" using dir by auto
qed

text \<open>Linking a fresh, zeroed page into the directory leaves every entry as it was.\<close>

definition link_table :: "memory \<Rightarrow> addr \<Rightarrow> u32 \<Rightarrow> addr \<Rightarrow> memory" where
  "link_table m pgdir i pg =
     st32 (memset pg 0 PGSIZE m) (pgdir + 4 * i) (V2P pg OR PTE_P OR PTE_W OR PTE_U)"

lemma new_pde:
  assumes "page_aligned (V2P pg)"
  shows "P2V (PTE_ADDR (V2P pg OR PTE_P OR PTE_W OR PTE_U)) = pg"
    and "(V2P pg OR PTE_P OR PTE_W OR PTE_U) AND PTE_P \<noteq> 0"
proof -
  have f: "V2P pg OR PTE_P OR PTE_W OR PTE_U = V2P pg OR 7" by simp
  have "PTE_FLAGS 7 = 7" by (simp add: PTE_FLAGS_def)
  then show "P2V (PTE_ADDR (V2P pg OR PTE_P OR PTE_W OR PTE_U)) = pg"
    unfolding f using PTE_ADDR_or_flags(1) [OF assms] by simp
  have "bit ((V2P pg OR PTE_P OR PTE_W OR PTE_U) AND PTE_P) 0" by (simp add: bit_simps)
  then show "(V2P pg OR PTE_P OR PTE_W OR PTE_U) AND PTE_P \<noteq> 0" by (metis bit_0_eq bot_apply bot_bool_def)
qed

lemma link_table:
  assumes "pt_wf m pgdir" and "\<not> has_table m pgdir i" and "i < 1024"
    and "page_aligned pg" and "page_aligned (V2P pg)" and "pg \<notin> pt_pages m pgdir"
  defines "m' \<equiv> link_table m pgdir i pg"
  shows "ptes m' pgdir = ptes m pgdir" and "pt_wf m' pgdir"
    and "pt_pages m' pgdir = insert pg (pt_pages m pgdir)"
    and "j < 1024 \<Longrightarrow> has_table m' pgdir j = (j = i \<or> has_table m pgdir j)"
    and "j < 1024 \<Longrightarrow> table m' pgdir j = (if j = i then pg else table m pgdir j)"
    and "PGROUNDDOWN b \<noteq> pgdir \<Longrightarrow> PGROUNDDOWN b \<noteq> pg \<Longrightarrow> m' b = m b"
    and "PGROUNDDOWN b = pg \<Longrightarrow> m' b = 0"
proof -
  have al: "page_aligned pgdir" and ne: "pg \<noteq> pgdir" using assms(1,6) by (auto simp: pt_wf_def pt_pages_def)
  note sl = slot [OF al assms(3)]
  define z where "z = memset pg 0 PGSIZE m"
  have z: "z b = (if PGROUNDDOWN b = pg then 0 else m b)" for b
    unfolding z_def memset_fill using in_page_iff [OF assms(4), of b] by (simp add: fill_def)
  have m': "m' = st32 z (pgdir + 4 * i) (V2P pg OR PTE_P OR PTE_W OR PTE_U)"
    by (simp add: m'_def link_table_def z_def)
  have off: "m' b = z b" if "PGROUNDDOWN b \<noteq> pgdir" for b
    unfolding m' using that sl by (intro st32_other_page) auto
  show "PGROUNDDOWN b \<noteq> pgdir \<Longrightarrow> PGROUNDDOWN b \<noteq> pg \<Longrightarrow> m' b = m b" for b using off z by simp
  show zero: "PGROUNDDOWN b = pg \<Longrightarrow> m' b = 0" for b using off ne z by simp
  have zdir: "ld32 z (pgdir + 4 * j) = ld32 m (pgdir + 4 * j)" if "j < 1024" for j
    using that ne z by (intro dir_cong [OF al]) auto
  have dir: "ld32 m' (pgdir + 4 * j) = (if j = i then V2P pg OR PTE_P OR PTE_W OR PTE_U else ld32 m (pgdir + 4 * j))"
    if "j < 1024" for j
    unfolding m' using that sl slot [OF al that] times4_inj [OF assms(3) that]
    by (subst ld32_st32) (auto simp: zdir)
  show has: "has_table m' pgdir j = (j = i \<or> has_table m pgdir j)" if "j < 1024" for j
    using dir [OF that] new_pde(2) [OF assms(5)] by (auto simp: has_table_def)
  show tab: "table m' pgdir j = (if j = i then pg else table m pgdir j)" if "j < 1024" for j
    using dir [OF that] new_pde(1) [OF assms(5)] by (simp add: table_def)
  show "ptes m' pgdir = ptes m pgdir"
  proof
    fix va
    let ?a = "table m pgdir (PDX va) + 4 * PTX va"
    have "ld32 m' (pg + 4 * PTX va) = ld32 (\<lambda>_. 0) (pg + 4 * PTX va)"
      using zero slot [OF assms(4) fields_less(2)] by (intro ld32_page_cong) auto
    moreover have "ld32 m' ?a = ld32 m ?a" if "has_table m pgdir (PDX va)"
    proof (rule ld32_page_cong)
      have "table m pgdir (PDX va) \<noteq> pgdir" "table m pgdir (PDX va) \<noteq> pg"
        using that assms(1,6) by (auto simp: pt_wf_def pt_pages_def)
      then show "m' b = m b" if "PGROUNDDOWN b = PGROUNDDOWN ?a" for b
        using that off z slot(2) [OF table_aligned fields_less(2)] by simp
    qed (simp add: slot)
    ultimately show "ptes m' pgdir va = ptes m pgdir va"
      using has tab assms(2) by (auto simp: ptes_def ld32_def)
  qed
  have set: "{j. j < 1024 \<and> has_table m' pgdir j} = insert i {j. j < 1024 \<and> has_table m pgdir j}"
    using has assms(3) by auto
  have img: "table m' pgdir ` {j. j < 1024 \<and> has_table m pgdir j} = table m pgdir ` {j. j < 1024 \<and> has_table m pgdir j}"
    using tab assms(2) by (intro image_cong) auto
  show "pt_pages m' pgdir = insert pg (pt_pages m pgdir)"
    unfolding pt_pages_def set using img tab [OF assms(3)] by auto
  have "inj_on (table m' pgdir) {j. j < 1024 \<and> has_table m pgdir j}"
    using assms(1,2) tab by (auto simp: pt_wf_def inj_on_def split: if_splits)
  then have "inj_on (table m' pgdir) {j. j < 1024 \<and> has_table m' pgdir j}"
    unfolding set using img tab [OF assms(3)] assms(6) by (auto simp: pt_pages_def)
  then show "pt_wf m' pgdir"
    using al ne assms(1) has tab unfolding pt_wf_def by auto
qed

section \<open>Walking and mapping\<close>

text \<open>Only the allocator's fields and memory differ.\<close>

definition kmem_only :: "'z kmst_scheme \<Rightarrow> 'z kmst_scheme \<Rightarrow> bool" where
  "kmem_only s t \<longleftrightarrow> t = s\<lparr>mem := mem t, km_freelist := km_freelist t,
     km_references_count := km_references_count t, km_free_pages := km_free_pages t\<rparr>"

lemma kmem_onlyD:
  assumes "kmem_only s t"
  shows "hw t = hw s" "ptable t = ptable s" "slocks t = slocks s" "kend t = kend s" "kdata t = kdata s"
    "kbuffer t = kbuffer s" "selection t = selection s" "km_use_lock t = km_use_lock s" "kmst.more t = kmst.more s"
    "initproc t = initproc s" "nextpid t = nextpid s"
  using arg_cong [OF assms [unfolded kmem_only_def], of hw] arg_cong [OF assms [unfolded kmem_only_def], of ptable]
    arg_cong [OF assms [unfolded kmem_only_def], of slocks] arg_cong [OF assms [unfolded kmem_only_def], of kend]
    arg_cong [OF assms [unfolded kmem_only_def], of kdata] arg_cong [OF assms [unfolded kmem_only_def], of kbuffer]
    arg_cong [OF assms [unfolded kmem_only_def], of selection] arg_cong [OF assms [unfolded kmem_only_def], of km_use_lock]
    arg_cong [OF assms [unfolded kmem_only_def], of kmst.more] arg_cong [OF assms [unfolded kmem_only_def], of initproc]
    arg_cong [OF assms [unfolded kmem_only_def], of nextpid]
  by simp_all

lemma kmem_onlyI:
  assumes "hw t = hw s" "ptable t = ptable s" "slocks t = slocks s" "kend t = kend s" "kdata t = kdata s"
    "kbuffer t = kbuffer s" "selection t = selection s" "km_use_lock t = km_use_lock s" "kmst.more t = kmst.more s"
    "initproc t = initproc s" "nextpid t = nextpid s"
  shows "kmem_only s t"
  unfolding kmem_only_def using assms by (intro kmst.equality) simp_all

lemma kmem_only_refl [simp]: "kmem_only s s"
  by (rule kmem_onlyI) simp_all

lemma kmem_only_trans: "kmem_only s t \<Longrightarrow> kmem_only t u \<Longrightarrow> kmem_only s u"
  by (rule kmem_onlyI) (simp_all add: kmem_onlyD)

lemma kmem_only_mem [simp]: "kmem_only s (s\<lparr>mem := m\<rparr>)"
  by (rule kmem_onlyI) simp_all

lemma km_ok_mem_cong:
  assumes "km_ok s" and "\<And>b. PGROUNDDOWN b \<in> km_avail s \<Longrightarrow> m b = mem s b"
  shows "km_ok (s\<lparr>mem := m\<rparr>)" and "km_avail (s\<lparr>mem := m\<rparr>) = km_avail s" and "km_pool (s\<lparr>mem := m\<rparr>) = km_pool s"
proof -
  obtain xs where xs: "kmem_ready s" "kmem_inv s xs" using assms(1) by (auto simp: km_ok_def)
  have "ld32 m x = ld32 (mem s) x" if "x \<in> set xs" for x
  proof (rule ld32_page_cong)
    have al: "page_aligned x" using that xs(2) by (auto simp: kmem_inv_def kpage_def)
    then show "aligned4 x" by (rule page_aligned_aligned4)
    have "PGROUNDDOWN x = x" using PGROUNDDOWN_plus [OF al, of 0] by simp
    then show "m b = mem s b" if "PGROUNDDOWN b = PGROUNDDOWN x" for b
      using that \<open>x \<in> set xs\<close> assms(2) km_avail_set [OF xs(2)] by simp
  qed
  then have "kmem_inv (s\<lparr>mem := m\<rparr>) xs"
    using xs(2) chain_cong [of xs m "mem s"] by (simp add: kmem_inv_def)
  then show "km_ok (s\<lparr>mem := m\<rparr>)" and "km_avail (s\<lparr>mem := m\<rparr>) = km_avail s"
    using xs km_avail_set [OF xs(2)] km_avail_set [of "s\<lparr>mem := m\<rparr>" xs] by (auto simp: km_ok_def kmem_ready_def)
  show "km_pool (s\<lparr>mem := m\<rparr>) = km_pool s" by (simp add: km_pool_def)
qed

lemma kalloc_frame:
  assumes "km_ok s"
  shows "succeeds (kalloc s) (\<lambda>r t. kmem_only s t \<and>
    (\<forall>x. x \<in> km_pool s - km_avail s \<longrightarrow>
      km_references_count t (frame (V2P x)) = km_references_count s (frame (V2P x))) \<and>
    (r \<noteq> 0 \<longrightarrow> km_references_count t (frame (V2P r)) = 1))"
proof -
  obtain xs where xs: "kmem_ready s" "kmem_inv s xs" using assms by (auto simp: km_ok_def)
  show ?thesis
  proof (cases xs)
    case Nil
    then show ?thesis using kalloc_eval [OF xs] by simp
  next
    case (Cons x ys)
    have "kpage s x" using kmem_inv_ConsD xs(2) Cons by blast
    then have "frame (V2P y) \<noteq> frame (V2P x)" if "y \<in> km_pool s - km_avail s" for y
      using that frame_V2P_inj [of s y x] km_avail_set [OF xs(2)] Cons by (auto simp: km_pool_def)
    then show ?thesis
      using kalloc_eval [OF xs] Cons by (auto simp: lalloc_def intro!: kmem_onlyI)
  qed
qed

text \<open>
  The effect of building page tables: pages move from the free list to the page tables of \<open>pgdir\<close>,
  which only grow; nothing outside those page tables is written.
\<close>

definition grows :: "addr \<Rightarrow> 'z kmst_scheme \<Rightarrow> 'z kmst_scheme \<Rightarrow> bool" where
  "grows pgdir s t \<longleftrightarrow> pt_ok pgdir t \<and> kmem_only s t \<and>
     km_avail t \<union> pt_pages (mem t) pgdir = km_avail s \<union> pt_pages (mem s) pgdir \<and>
     pt_pages (mem s) pgdir \<subseteq> pt_pages (mem t) pgdir \<and>
     (\<forall>b. PGROUNDDOWN b \<notin> pt_pages (mem t) pgdir \<longrightarrow> mem t b = mem s b) \<and>
     (\<forall>x. x \<in> km_pool s - km_avail s \<longrightarrow>
       km_references_count t (frame (V2P x)) = km_references_count s (frame (V2P x)))"

lemma km_pool_only: "kmem_only s t \<Longrightarrow> km_pool t = km_pool s"
  by (simp add: km_pool_def kpage_def kmem_onlyD)

lemma grows_refl: "pt_ok pgdir s \<Longrightarrow> grows pgdir s s"
  by (simp add: grows_def)

lemma grows_avail: "grows pgdir s t \<Longrightarrow> km_avail t \<subseteq> km_avail s"
  by (auto simp: grows_def pt_ok_def km_pool_only)

lemma grows_trans: "grows pgdir s t \<Longrightarrow> grows pgdir t u \<Longrightarrow> grows pgdir s u"
  using grows_avail [of pgdir s t] km_pool_only [of s t]
  by (auto simp: grows_def intro: kmem_only_trans)

definition pte_slot :: "memory \<Rightarrow> addr \<Rightarrow> u32 \<Rightarrow> addr" where
  "pte_slot m pgdir va = (if has_table m pgdir (PDX va) then table m pgdir (PDX va) + 4 * PTX va else 0)"

lemma walk_lookup: "walkpgdir pgdir va False s = Ok (pte_slot (mem s) pgdir va) s"
  by (simp add: walkpgdir_def pte_slot_def has_table_def table_def Let_def)

lemma pool_slot_nonzero: "x \<in> km_pool s \<Longrightarrow> x + 4 * PTX va \<noteq> 0"
proof
  assume x: "x \<in> km_pool s" and z: "x + 4 * PTX va = 0"
  then have "PGROUNDDOWN 0 = x" using slot(2) [of x "PTX va"] pa.pool_page [OF x] by simp
  then show False using pa.pool_page [OF x] by (simp add: PGROUNDDOWN_def)
qed

lemma dir_in_pages [simp]: "pgdir \<in> pt_pages m pgdir"
  by (simp add: pt_pages_def)

lemma table_in_pages: "i < 1024 \<Longrightarrow> has_table m pgdir i \<Longrightarrow> table m pgdir i \<in> pt_pages m pgdir"
  by (simp add: pt_pages_def)

lemma pte_slot_zero:
  assumes "pt_ok pgdir s"
  shows "pte_slot (mem s) pgdir va = 0 \<longleftrightarrow> \<not> has_table (mem s) pgdir (PDX va)"
proof -
  have "table (mem s) pgdir (PDX va) \<in> km_pool s" if "has_table (mem s) pgdir (PDX va)"
    using that assms table_in_pages [OF fields_less(1)] by (auto simp: pt_ok_def)
  then show ?thesis using pool_slot_nonzero by (auto simp: pte_slot_def)
qed

lemma ptes_slot: "has_table m pgdir (PDX va) \<Longrightarrow> ld32 m (pte_slot m pgdir va) = ptes m pgdir va"
  by (simp add: ptes_def pte_slot_def)

lemma ptes_nonzero_slot:
  "pt_ok pgdir s \<Longrightarrow> ptes (mem s) pgdir va \<noteq> 0 \<Longrightarrow> pte_slot (mem s) pgdir va \<noteq> 0"
  by (auto simp: pte_slot_zero ptes_def split: if_splits)

lemma upd_pte_spec:
  fixes f :: "u32 \<Rightarrow> u32"
  assumes "pt_ok pgdir s" and "has_table (mem s) pgdir (PDX va)"
  defines "t \<equiv> upd_pte (pte_slot (mem s) pgdir va) f s"
  shows "grows pgdir s t" and "ptes (mem t) pgdir = (\<lambda>b. if pgno b = pgno va then f (ptes (mem s) pgdir va)
      else ptes (mem s) pgdir b)"
    and "pt_pages (mem t) pgdir = pt_pages (mem s) pgdir" and "km_avail t = km_avail s"
    and "i < 1024 \<Longrightarrow> has_table (mem t) pgdir i = has_table (mem s) pgdir i"
    and "PGROUNDDOWN b \<noteq> table (mem s) pgdir (PDX va) \<Longrightarrow> mem t b = mem s b"
    and "km_references_count t = km_references_count s"
proof -
  let ?v = "f (ptes (mem s) pgdir va)"
  have m: "mem t = st32 (mem s) (table (mem s) pgdir (PDX va) + 4 * PTX va) ?v"
    using assms(2) by (simp add: t_def upd_pte_def ptes_def pte_slot_def)
  have wf: "pt_wf (mem s) pgdir" using assms(1) by (simp add: pt_ok_def)
  note st = store_pte [OF wf assms(2), where v = ?v, folded m]
  have tp: "table (mem s) pgdir (PDX va) \<in> pt_pages (mem s) pgdir" using assms(2) by (simp add: table_in_pages)
  have "table (mem s) pgdir (PDX va) \<notin> km_avail s" using tp assms(1) by (auto simp: pt_ok_def)
  then have eq: "mem t b = mem s b" if "PGROUNDDOWN b \<in> km_avail s" for b
    using that st(6) [of b] by metis
  have "km_ok s" using assms(1) by (simp add: pt_ok_def)
  note km_ok_mem_cong(1,2) [OF this eq]
  moreover have t: "s\<lparr>mem := mem t\<rparr> = t" by (simp add: t_def upd_pte_def)
  ultimately have ok: "km_ok t" and av: "km_avail t = km_avail s" by simp_all
  have only: "kmem_only s t" by (simp add: t_def upd_pte_def)
  have refs: "km_references_count t = km_references_count s" by (simp add: t_def upd_pte_def)
  have "mem t b = mem s b" if "PGROUNDDOWN b \<notin> pt_pages (mem s) pgdir" for b
    using that st(6) [of b] tp by metis
  then show "grows pgdir s t"
    using assms(1) ok av only st(2,3) refs by (simp add: grows_def pt_ok_def km_pool_only)
  show "ptes (mem t) pgdir = (\<lambda>b. if pgno b = pgno va then ?v else ptes (mem s) pgdir b)"
    and "pt_pages (mem t) pgdir = pt_pages (mem s) pgdir" and "km_avail t = km_avail s"
    and "i < 1024 \<Longrightarrow> has_table (mem t) pgdir i = has_table (mem s) pgdir i"
    and "PGROUNDDOWN b \<noteq> table (mem s) pgdir (PDX va) \<Longrightarrow> mem t b = mem s b"
    and "km_references_count t = km_references_count s"
    using st av refs by simp_all
qed

lemma link_grows:
  assumes ok: "pt_ok pgdir s" and nt: "\<not> has_table (mem s) pgdir (PDX va)"
    and t: "km_ok t" "mem t = mem s" "kmem_only s t" "r \<in> km_avail s" "km_avail t = km_avail s - {r}"
      "\<forall>x. x \<in> km_pool s - km_avail s \<longrightarrow>
        km_references_count t (frame (V2P x)) = km_references_count s (frame (V2P x))"
  defines "u \<equiv> t\<lparr>mem := link_table (mem t) pgdir (PDX va) r\<rparr>"
  shows "grows pgdir s u" and "ptes (mem u) pgdir = ptes (mem s) pgdir"
    and "pte_slot (mem u) pgdir va = r + 4 * PTX va"
    and "i < 1024 \<Longrightarrow> has_table (mem u) pgdir i = (i = PDX va \<or> has_table (mem s) pgdir i)"
proof -
  have pl: "km_pool t = km_pool s" using t(3) by (rule km_pool_only)
  have r: "r \<in> km_pool s" "r \<notin> pt_pages (mem s) pgdir"
    using t(4) ok pa.avail_pool [of s] by (auto simp: pt_ok_def)
  have al: "page_aligned r" "page_aligned (V2P r)"
    using r(1) pa.pool_page [of r s] V2P_page by auto
  have wf: "pt_wf (mem s) pgdir" using ok by (simp add: pt_ok_def)
  note lk = link_table [OF wf nt fields_less(1) al r(2), folded t(2)]
  have mu: "mem u = link_table (mem t) pgdir (PDX va) r" by (simp add: u_def)
  have "pgdir \<notin> km_avail t" "r \<notin> km_avail t"
    using ok t(5) by (auto simp: pt_ok_def pt_pages_def)
  then have "link_table (mem t) pgdir (PDX va) r b = mem t b" if "PGROUNDDOWN b \<in> km_avail t" for b
    using that lk(6) [of b] by auto
  note mc = km_ok_mem_cong [OF t(1) this, folded u_def]
  have pgs: "pt_pages (mem u) pgdir = insert r (pt_pages (mem s) pgdir)" using lk(3) by (simp add: mu t(2))
  show "ptes (mem u) pgdir = ptes (mem s) pgdir" using lk(1) by (simp add: mu t(2))
  show "pte_slot (mem u) pgdir va = r + 4 * PTX va"
    using lk(4,5) [OF fields_less(1), of va] by (simp add: pte_slot_def mu)
  show "i < 1024 \<Longrightarrow> has_table (mem u) pgdir i = (i = PDX va \<or> has_table (mem s) pgdir i)"
    using lk(4) by (simp add: mu t(2))
  have "pt_ok pgdir u"
    using mc ok lk(2,3) t(5) r pl unfolding pt_ok_def mu by (auto simp: t(2))
  moreover have "kmem_only s u" using t(3) unfolding u_def by (rule kmem_only_trans) simp
  moreover have "km_avail u \<union> pt_pages (mem u) pgdir = km_avail s \<union> pt_pages (mem s) pgdir"
    using mc(2) t(4,5) by (auto simp: pgs)
  moreover have "mem u b = mem s b" if "PGROUNDDOWN b \<notin> pt_pages (mem u) pgdir" for b
  proof -
    have "PGROUNDDOWN b \<noteq> pgdir" "PGROUNDDOWN b \<noteq> r"
      using that dir_in_pages unfolding pgs by blast+
    then show ?thesis using lk(6) [of b] by (simp add: mu t(2))
  qed
  moreover have "km_references_count u = km_references_count t" by (simp add: u_def)
  ultimately show "grows pgdir s u"
    using t(6) unfolding grows_def pgs by (simp add: subset_insertI)
qed

text \<open>
  \<open>walkpgdir\<close> with allocation: the space keeps its content; the result is 0 only when a page table is
  missing and memory is exhausted, and otherwise the place of the entry.
\<close>

lemma walk_alloc:
  assumes "pt_ok pgdir s"
  shows "succeeds (walkpgdir pgdir va True s) (\<lambda>r t. grows pgdir s t \<and>
    ptes (mem t) pgdir = ptes (mem s) pgdir \<and>
    (\<forall>i < 1024. has_table (mem t) pgdir i \<longrightarrow> i = PDX va \<or> has_table (mem s) pgdir i) \<and>
    (if r = 0 then km_avail t = {} else has_table (mem t) pgdir (PDX va) \<and> r = pte_slot (mem t) pgdir va))"
proof (cases "has_table (mem s) pgdir (PDX va)")
  case True
  then have "walkpgdir pgdir va True s = Ok (pte_slot (mem s) pgdir va) s"
    by (simp add: walkpgdir_def pte_slot_def has_table_def table_def Let_def)
  then show ?thesis using True assms pte_slot_zero [OF assms] by (simp add: grows_refl)
next
  case False
  have ok: "km_ok s" using assms by (simp add: pt_ok_def)
  have w: "walkpgdir pgdir va True s = andthen (kalloc s) (\<lambda>r t. if r = 0 then Ok 0 t
      else Ok (r + 4 * PTX va) (t\<lparr>mem := link_table (mem t) pgdir (PDX va) r\<rparr>))"
    using False by (simp add: walkpgdir_def has_table_def link_table_def Let_def cong: if_cong)
  show ?thesis
    unfolding w succeeds_andthen
  proof (rule succeeds_mono [OF succeeds_conj [OF kalloc_law [OF ok] kalloc_frame [OF ok]]], goal_cases)
    case (1 r t)
    then show ?case
    proof (cases "km_avail s = {}")
      case True
      then show ?thesis using 1 assms by (simp add: grows_refl)
    next
      case ne: False
      have r: "r \<in> km_avail s" using 1 ne by simp
      then have rp: "r \<in> km_pool s" "r \<noteq> 0" using pa.avail_pool [OF ok] pa.pool_page [of r s] by auto
      note lg = link_grows [OF assms False, of t r]
      show ?thesis using 1 ne rp pool_slot_nonzero [OF rp(1), of va] lg by auto
    qed
  qed
qed

lemma or_P_present: "(x OR PTE_P) AND PTE_P \<noteq> 0" for x :: u32
proof -
  have "bit ((x OR PTE_P) AND PTE_P) 0" by (simp add: bit_simps)
  then show ?thesis by (metis bit_0_eq bot_apply bot_bool_def)
qed

text \<open>
  \<open>mappages\<close> on pages that are not mapped: on success the entries of exactly those pages are set, to
  consecutive physical pages; on failure memory is exhausted. Either way no other entry changes.
\<close>

definition maps ::
  "addr \<Rightarrow> u32 \<Rightarrow> nat \<Rightarrow> u32 \<Rightarrow> u32 \<Rightarrow> 'z kmst_scheme \<Rightarrow> int \<Rightarrow> 'z kmst_scheme \<Rightarrow> bool" where
  "maps pgdir a len pa pm s r t \<longleftrightarrow> grows pgdir s t \<and>
    (\<forall>b. len \<le> unat (b - a) \<longrightarrow> ptes (mem t) pgdir b = ptes (mem s) pgdir b) \<and>
    (\<forall>i < 1024. has_table (mem t) pgdir i \<longrightarrow> has_table (mem s) pgdir i \<or>
      (\<exists>b. unat (b - a) < len \<and> i = PDX b)) \<and>
    (if r = 0 then \<forall>b. unat (b - a) < len \<longrightarrow>
        ptes (mem t) pgdir b = (pa + PGROUNDDOWN (b - a)) OR pm OR PTE_P
     else r = - 1 \<and> km_avail t = {})"

lemma map_page_spec:
  assumes "pt_ok pgdir s" and "page_aligned a" and "ptes (mem s) pgdir a AND PTE_P = 0"
  shows "succeeds (map_page pgdir a pa pm s) (maps pgdir a 4096 pa pm s)"
  unfolding map_page_def succeeds_andthen
proof (rule succeeds_mono [OF walk_alloc [OF assms(1), of a]], goal_cases)
  case (1 r t)
  have near: "unat (b - a) < 4096 \<longleftrightarrow> pgno b = pgno a" for b using pgno_near [OF assms(2)] by simp
  show ?case
  proof (cases "r = 0")
    case True
    then show ?thesis using 1 by (auto simp: maps_def near)
  next
    case False
    then have h: "has_table (mem t) pgdir (PDX a)" "r = pte_slot (mem t) pgdir a" using 1 by auto
    have ok: "pt_ok pgdir t" using 1 by (simp add: grows_def)
    have np: "ld32 (mem t) r AND PTE_P = 0" using h 1 ptes_slot [OF h(1)] assms(3) by simp
    have u: "t\<lparr>mem := st32 (mem t) r (pa OR pm OR PTE_P)\<rparr> =
        upd_pte (pte_slot (mem t) pgdir a) (\<lambda>_. pa OR pm OR PTE_P) t"
      using h by (simp add: upd_pte_def)
    note sp = upd_pte_spec [OF ok h(1), where f = "\<lambda>_. pa OR pm OR PTE_P", folded u]
    have "4096 \<le> unat (b - a) \<longleftrightarrow> pgno b \<noteq> pgno a" for b using near [of b] by auto
    then show ?thesis
      using False np 1 sp(2,5) grows_trans [OF _ sp(1), of s] off_first_page(2)
      by (auto simp: maps_def near)
  qed
qed

lemma maps_next:
  assumes "maps pgdir a 4096 pa pm s 0 t" and "maps pgdir (a + 4096) len (pa + 4096) pm t r u"
    and "len + 4096 \<le> 2 ^ 32"
  shows "maps pgdir a (len + 4096) pa pm s r u"
proof -
  have far: "unat (b - (a + 4096)) = unat (b - a) - 4096"
    "PGROUNDDOWN (b - (a + 4096)) = PGROUNDDOWN (b - a) - 4096" if "4096 \<le> unat (b - a)" for b
    using off_next_page [OF that] by (simp_all add: diff_diff_eq [symmetric])
  have near: "len \<le> unat (b - (a + 4096))" "PGROUNDDOWN (b - a) = 0" if "unat (b - a) < 4096" for b
    using off_first_page [OF that] assms(3) by (simp_all add: diff_diff_eq [symmetric])
  have "grows pgdir s u" using assms(1,2) grows_trans by (auto simp: maps_def)
  moreover have "ptes (mem u) pgdir b = ptes (mem s) pgdir b" if "len + 4096 \<le> unat (b - a)" for b
    using that assms(1,2) far(1) [of b] by (simp add: maps_def)
  moreover have "has_table (mem s) pgdir i \<or> (\<exists>b. unat (b - a) < len + 4096 \<and> i = PDX b)"
    if i: "i < 1024" "has_table (mem u) pgdir i" for i
  proof -
    consider "has_table (mem t) pgdir i" | b where "unat (b - (a + 4096)) < len" "i = PDX b"
      using i assms(2) by (auto simp: maps_def)
    then show ?thesis
    proof cases
      case 1
      then have "has_table (mem s) pgdir i \<or> (\<exists>b. unat (b - a) < 4096 \<and> i = PDX b)"
        using i(1) assms(1) by (auto simp: maps_def)
      then show ?thesis using trans_less_add2 by blast
    next
      case 2
      then have "unat (b - a) < len + 4096" using far(1) [of b] by (cases "unat (b - a) < 4096") auto
      then show ?thesis using 2 by blast
    qed
  qed
  moreover have "ptes (mem u) pgdir b = (pa + PGROUNDDOWN (b - a)) OR pm OR PTE_P"
    if "r = 0" "unat (b - a) < len + 4096" for b
  proof (cases "unat (b - a) < 4096")
    case True
    then show ?thesis using assms(1,2) near [OF True] by (simp add: maps_def)
  next
    case False
    then have "ptes (mem u) pgdir b = ((pa + 4096) + PGROUNDDOWN (b - (a + 4096))) OR pm OR PTE_P"
      using that assms(2) far(1) [of b] by (simp add: maps_def)
    then show ?thesis using False far(2) [of b] by (simp add: algebra_simps)
  qed
  ultimately show ?thesis using assms(2) by (auto simp: maps_def)
qed

lemma maps_fail: "maps pgdir a 4096 pa pm s r t \<Longrightarrow> r < 0 \<Longrightarrow> 4096 \<le> len \<Longrightarrow> maps pgdir a len pa pm s (- 1) t"
  by (auto simp: maps_def) (meson less_le_trans)

lemma mappages_loop_spec:
  assumes "pt_ok pgdir s" and "page_aligned a" and "n < 2 ^ 20"
    and "\<And>b. unat (b - a) < 4096 * Suc n \<Longrightarrow> ptes (mem s) pgdir b AND PTE_P = 0"
  shows "succeeds (mappages_loop n pgdir a pa pm s) (maps pgdir a (4096 * Suc n) pa pm s)"
  using assms
proof (induction n arbitrary: a pa s)
  case 0
  then show ?case using map_page_spec [OF 0(1,2)] 0(4) [of a] by simp
next
  case (Suc n)
  have np: "ptes (mem s) pgdir a AND PTE_P = 0" using Suc.prems(4) [of a] by simp
  show ?case
    unfolding mappages_loop.simps succeeds_andthen
  proof (rule succeeds_mono [OF map_page_spec [OF Suc.prems(1,2) np]], goal_cases)
    case (1 r t)
    show ?case
    proof (cases "r < 0")
      case True
      then show ?thesis using maps_fail [OF 1 True] by simp
    next
      case False
      then have m: "maps pgdir a 4096 pa pm s 0 t" using 1 by (auto simp: maps_def split: if_splits)
      have al: "page_aligned (a + 4096)"
        using Suc.prems(2) by (rule page_aligned_plus) (simp add: page_aligned_def)
      have "ptes (mem t) pgdir b AND PTE_P = 0" if "unat (b - (a + 4096)) < 4096 * Suc n" for b
      proof -
        have "4096 \<le> unat (b - a)"
          using that off_first_page(1) [of "b - a"] Suc.prems(3)
          by (cases "unat (b - a) < 4096") (auto simp: diff_diff_eq [symmetric])
        moreover from this have "unat (b - a) < 4096 * Suc (Suc n)"
          using that off_next_page(1) [of "b - a"] by (simp add: diff_diff_eq [symmetric])
        ultimately show ?thesis using m Suc.prems(4) by (simp add: maps_def)
      qed
      moreover have "pt_ok pgdir t" using m by (simp add: maps_def grows_def)
      ultimately have "succeeds (mappages_loop n pgdir (a + 4096) (pa + 4096) pm t)
          (maps pgdir (a + 4096) (4096 * Suc n) (pa + 4096) pm t)"
        using al Suc.prems(3) by (intro Suc.IH) auto
      then have "succeeds (mappages_loop n pgdir (a + 4096) (pa + 4096) pm t)
          (maps pgdir a (4096 * Suc n + 4096) pa pm s)"
        using Suc.prems(3) by (elim succeeds_mono maps_next [OF m]) simp
      moreover have "4096 * Suc n + 4096 = 4096 * Suc (Suc n)" by simp
      ultimately show ?thesis using False by (simp only: if_False)
    qed
  qed
qed

lemma mappages_spec:
  assumes "pt_ok pgdir s" and "page_aligned va" and "4096 dvd unat sz" and "sz \<noteq> 0"
    and "unat va + unat sz \<le> 2 ^ 32"
    and "\<And>b. unat (b - va) < unat sz \<Longrightarrow> ptes (mem s) pgdir b AND PTE_P = 0"
  shows "succeeds (mappages pgdir va sz pa pm s) (maps pgdir va (unat sz) pa pm s)"
proof -
  obtain k' where k': "unat sz = 4096 * k'" using assms(3) by (elim dvdE)
  moreover from this have "k' \<noteq> 0" using assms(4) by (auto simp: word_unat_eq_iff)
  ultimately obtain k where k: "unat sz = 4096 * Suc k" by (cases k') auto
  obtain j where j: "unat va = 4096 * j" using assms(2) by (auto simp: page_aligned_iff)
  have "unat (va + (sz - 1)) = unat va + (unat sz - 1)"
    using assms(4,5) k by (subst unat_plus_lt) (auto simp: unat_minus_one)
  moreover have "unat va + (unat sz - 1) = 4095 + 4096 * (j + k)" using j k by simp
  moreover have "(4095 + 4096 * q) div 4096 * 4096 = 4096 * q" for q :: nat by simp
  moreover have "va + sz - 1 = va + (sz - 1)" by simp
  ultimately have "unat (PGROUNDDOWN (va + sz - 1)) = 4096 * (j + k)"
    by (simp only: unat_PGROUNDDOWN)
  moreover have uk: "unat (of_nat (4096 * k) :: u32) = 4096 * k"
    using k assms(5) by (intro unat_of_nat_small) simp
  have "unat (va + of_nat (4096 * k)) = unat va + unat (of_nat (4096 * k) :: u32)"
    by (rule unat_plus_lt) (use k assms(5) in \<open>simp only: uk, simp\<close>)
  moreover note this [unfolded uk j]
  moreover have "4096 * j + 4096 * k = 4096 * (j + k)" by simp
  ultimately have b: "PGROUNDDOWN (va + sz - 1) = va + of_nat (4096 * k)"
    by (simp only: word_unat_eq_iff)
  have n: "unat (PGROUNDDOWN (va + sz - 1) - PGROUNDDOWN va) div 4096 = k"
    unfolding b PGROUNDDOWN_self [OF assms(2)] add_diff_cancel_left' uk by simp
  show ?thesis
    unfolding mappages_def Let_def n unfolding k PGROUNDDOWN_self [OF assms(2)]
    using assms(1,2,5,6) k by (intro mappages_loop_spec) auto
qed

section \<open>The kernel part of every address space\<close>

definition kvm_pte :: "addr \<Rightarrow> u32 \<Rightarrow> u32" where
  "kvm_pte dat b =
     (if 0x80000000 \<le> b \<and> b < 0x8E000000
      then V2P (PGROUNDDOWN b) OR (if 0x80100000 \<le> b \<and> b < dat then 0 else PTE_W) OR PTE_P
      else if 0xFE000000 \<le> b then PGROUNDDOWN b OR PTE_W OR PTE_P else 0)"

definition kvm_dir :: "u32 \<Rightarrow> bool" where
  "kvm_dir i \<longleftrightarrow> 512 \<le> i \<and> i < 568 \<or> 1016 \<le> i \<and> i < 1024"

definition building :: "addr \<Rightarrow> addr set \<Rightarrow> 'z kmst_scheme \<Rightarrow> bool" where
  "building pgdir U s \<longleftrightarrow> pt_ok pgdir s \<and> km_avail s \<union> pt_pages (mem s) pgdir = U \<and>
     (\<forall>i < 1024. has_table (mem s) pgdir i \<longrightarrow> kvm_dir i)"

lemma card_kvm_dir: "card {i. kvm_dir i} \<le> 64" and finite_kvm_dir: "finite {i. kvm_dir i}"
proof -
  have "{i. kvm_dir i} \<subseteq> (of_nat :: nat \<Rightarrow> u32) ` ({512..<568} \<union> {1016..<1024})"
  proof
    fix i assume "i \<in> {i. kvm_dir i}"
    then have "unat i \<in> {512..<568} \<union> {1016..<1024}"
      by (auto simp: kvm_dir_def word_le_nat_alt word_less_nat_alt)
    then show "i \<in> of_nat ` ({512..<568} \<union> {1016..<1024})" 
      using imageI [of "unat i" _ "of_nat :: nat \<Rightarrow> u32"] by simp
  qed
  then have "card {i. kvm_dir i} \<le> card ((of_nat :: nat \<Rightarrow> u32) ` ({512..<568} \<union> {1016..<1024}))"
    by (intro card_mono) auto
  also have "\<dots> \<le> card ({512..<568} \<union> {1016..<1024 :: nat})" by (rule card_image_le) simp
  also have "\<dots> \<le> 64" by (rule order_trans [OF card_Un_le]) simp
  finally show "card {i. kvm_dir i} \<le> 64" .
  show "finite {i. kvm_dir i}" by simp
qed

lemma building_enough:
  assumes "building pgdir U s" and "65 < card U"
  shows "km_avail s \<noteq> {}"
proof
  assume "km_avail s = {}"
  then have "U = pt_pages (mem s) pgdir" using assms(1) by (simp add: building_def)
  moreover have "pt_pages (mem s) pgdir \<subseteq> insert pgdir (table (mem s) pgdir ` {i. kvm_dir i})"
    using assms(1) by (auto simp: pt_pages_def building_def)
  then have "card (pt_pages (mem s) pgdir) \<le> card (insert pgdir (table (mem s) pgdir ` {i. kvm_dir i}))"
    by (intro card_mono) (simp_all add: finite_kvm_dir)
  moreover have "card (insert pgdir (table (mem s) pgdir ` {i. kvm_dir i})) \<le> Suc 64"
    using card_kvm_dir card_image_le [OF finite_kvm_dir, of "table (mem s) pgdir"]
    by (simp add: card_insert_if finite_kvm_dir)
  ultimately show False using assms(2) by simp
qed

lemma mappages_building:
  assumes "building pgdir U s" and "65 < card U"
    and "page_aligned va" and "4096 dvd unat sz" and "sz \<noteq> 0" and "unat va + unat sz \<le> 2 ^ 32"
    and "\<And>b. unat (b - va) < unat sz \<Longrightarrow> ptes (mem s) pgdir b = 0 \<and> kvm_dir (PDX b)"
  shows "succeeds (mappages pgdir va sz pa pm s) (\<lambda>r t. r = 0 \<and> building pgdir U t \<and> grows pgdir s t \<and>
    ptes (mem t) pgdir = (\<lambda>b. if unat (b - va) < unat sz then (pa + PGROUNDDOWN (b - va)) OR pm OR PTE_P
      else ptes (mem s) pgdir b))"
proof (rule succeeds_mono [OF mappages_spec [OF _ assms(3-6)]])
  show "pt_ok pgdir s" using assms(1) by (simp add: building_def)
  show "ptes (mem s) pgdir b AND PTE_P = 0" if "unat (b - va) < unat sz" for b using assms(7) [OF that] by simp
next
  fix r t
  assume m: "maps pgdir va (unat sz) pa pm s r t"
  have "kvm_dir i" if i: "i < 1024" "has_table (mem t) pgdir i" for i
  proof -
    have "has_table (mem s) pgdir i \<or> (\<exists>b. unat (b - va) < unat sz \<and> i = PDX b)"
      using m i by (auto simp: maps_def)
    then show ?thesis using assms(1,7) i(1) by (auto simp: building_def)
  qed
  then have "building pgdir U t"
    using assms(1) m by (simp add: maps_def building_def grows_def)
  then show "r = 0 \<and> building pgdir U t \<and> grows pgdir s t \<and>
    ptes (mem t) pgdir = (\<lambda>b. if unat (b - va) < unat sz then (pa + PGROUNDDOWN (b - va)) OR pm OR PTE_P
      else ptes (mem s) pgdir b)"
    using m building_enough [OF _ assms(2), of pgdir t]
    by (auto simp: maps_def fun_eq_iff split: if_splits)
qed

lemma range_iff:
  fixes b va :: u32
  assumes "unat va + n \<le> 2 ^ 32"
  shows "unat (b - va) < n \<longleftrightarrow> unat va \<le> unat b \<and> unat b < unat va + n"
proof (cases "va \<le> b")
  case True
  then show ?thesis using unat_sub [OF True] by (auto simp: word_le_nat_alt)
next
  case False
  then have "unat b < unat va" by (simp add: word_le_nat_alt)
  moreover from this have "unat (b - va) = 2 ^ 32 + unat b - unat va"
    by (simp add: unat_sub_if_size word_le_nat_alt word_size)
  ultimately show ?thesis using assms by auto
qed

lemma PGROUNDDOWN_minus:
  assumes "page_aligned va" and "unat va \<le> unat b"
  shows "PGROUNDDOWN (b - va) = PGROUNDDOWN b - va"
proof -
  obtain j where j: "unat va = 4096 * j" using assms(1) by (auto simp: page_aligned_iff)
  have "unat (b - va) = unat b - unat va" using assms(2) by (simp add: unat_sub word_le_nat_alt)
  moreover have le: "4096 * j \<le> unat b div 4096 * 4096" using assms(2) j by (metis div_le_mono mult.commute mult_le_mono2 nonzero_mult_div_cancel_right zero_neq_numeral)
  then have "va \<le> PGROUNDDOWN b" by (simp add: word_le_nat_alt unat_PGROUNDDOWN j)
  then have "unat (PGROUNDDOWN b - va) = unat (PGROUNDDOWN b) - unat va" by (rule unat_sub)
  moreover have "(unat b - 4096 * j) div 4096 * 4096 = unat b div 4096 * 4096 - 4096 * j"
  proof -
    have "unat b - 4096 * j = unat b mod 4096 + 4096 * (unat b div 4096 - j)"
      using le by (simp add: diff_mult_distrib2)
    then show ?thesis by (simp add: diff_mult_distrib mult.commute)
  qed
  ultimately show ?thesis by (simp add: word_unat_eq_iff unat_PGROUNDDOWN j)
qed

lemma kvm_dir_PDX:
  "0x80000000 \<le> unat b \<Longrightarrow> unat b < 0x8E000000 \<or> 0xFE000000 \<le> unat b \<Longrightarrow> kvm_dir (PDX b)"
proof -
  assume a: "0x80000000 \<le> unat b" "unat b < 0x8E000000 \<or> 0xFE000000 \<le> unat b"
  have "unat b < 2 ^ 32" using unsigned_less [of b, where 'a = nat] by simp
  then have "unat (PDX b) = unat b div 0x400000"
    unfolding macro_forms by (simp add: unat_drop_bit_eq drop_bit_eq_div take_bit_eq_mod unat_mod unat_div)
  then show ?thesis
    using a fields_less(1) [of b] by (auto simp: kvm_dir_def word_le_nat_alt word_less_nat_alt)
qed

lemma fresh_dir:
  assumes "km_ok t" and "r \<in> km_pool t" and "r \<notin> km_avail t"
  defines "s \<equiv> t\<lparr>mem := memset r 0 PGSIZE (mem t)\<rparr>"
  shows "building r (insert r (km_avail t)) s" and "ptes (mem s) r = (\<lambda>_. 0)" and "kmem_only t s"
    and "km_avail s = km_avail t" and "PGROUNDDOWN b \<noteq> r \<Longrightarrow> mem s b = mem t b"
proof -
  have al: "page_aligned r" using pa.pool_page [OF assms(2)] by simp
  have m: "mem s b = (if PGROUNDDOWN b = r then 0 else mem t b)" for b
    using in_page_iff [OF al, of b] by (simp add: s_def memset_fill fill_def)
  then have cong: "memset r 0 PGSIZE (mem t) b = mem t b" if "PGROUNDDOWN b \<in> km_avail t" for b
    using that assms(3) by (auto simp: s_def)
  note mc = km_ok_mem_cong [OF assms(1) cong, folded s_def]
  have nt: "\<not> has_table (mem s) r i" if "i < 1024" for i
  proof -
    have "ld32 (mem s) (r + 4 * i) = ld32 (\<lambda>_. 0) (r + 4 * i)"
      using slot [OF al that] m by (intro ld32_page_cong) auto
    then show ?thesis by (simp add: has_table_def ld32_def)
  qed
  then have "pt_pages (mem s) r = {r}" by (auto simp: pt_pages_def)
  then show "building r (insert r (km_avail t)) s"
    using mc assms(2,3) nt al by (auto simp: building_def pt_ok_def pt_wf_def inj_on_def)
  show "ptes (mem s) r = (\<lambda>_. 0)" using nt by (auto simp: ptes_def)
  show "kmem_only t s" by (simp add: s_def)
  show "km_avail s = km_avail t" by (rule mc(2))
  show "PGROUNDDOWN b \<noteq> r \<Longrightarrow> mem s b = mem t b" using m by simp
qed

lemma mappages_building':
  assumes "building pgdir U s" and "65 < card U" and "ptes (mem s) pgdir = F"
    and "page_aligned va" and "page_aligned sz" and "sz \<noteq> 0" and "unat va + unat sz \<le> 2 ^ 32"
    and "\<And>b. unat va \<le> unat b \<Longrightarrow> unat b < unat va + unat sz \<Longrightarrow> F b = 0 \<and> kvm_dir (PDX b)"
  shows "succeeds (mappages pgdir va sz pa pm s) (\<lambda>r t. r = 0 \<and> building pgdir U t \<and> grows pgdir s t \<and>
    ptes (mem t) pgdir = (\<lambda>b. if unat va \<le> unat b \<and> unat b < unat va + unat sz
      then (pa + (PGROUNDDOWN b - va)) OR pm OR PTE_P else F b))"
proof -
  have "ptes (mem s) pgdir b = 0 \<and> kvm_dir (PDX b)" if "unat (b - va) < unat sz" for b
    using that assms(3,8) by (simp add: range_iff [OF assms(7)])
  note m = mappages_building [OF assms(1,2,4) _ assms(6,7) this, of pa pm]
  have e: "(\<lambda>b. if unat (b - va) < unat sz then (pa + PGROUNDDOWN (b - va)) OR pm OR PTE_P else F b) =
      (\<lambda>b. if unat va \<le> unat b \<and> unat b < unat va + unat sz then (pa + (PGROUNDDOWN b - va)) OR pm OR PTE_P else F b)"
    by (auto simp: fun_eq_iff range_iff [OF assms(7)] PGROUNDDOWN_minus [OF assms(4)])
  show ?thesis
    using m assms(5) unfolding page_aligned_iff [symmetric] e [symmetric] assms(3) .
qed

lemma kmap_maps:
  fixes s :: "'z kmst_scheme"
  assumes b: "building pgdir U s" "65 < card U" "ptes (mem s) pgdir = (\<lambda>_. 0)"
    and d: "page_aligned dat" "0x80100000 < dat" "dat < 0x8E000000"
  shows "succeeds (forany (\<lambda>k s.
      andthen (mappages pgdir (virt k) (phys_end k - phys_start k) (phys_start k) (perm k) s) (\<lambda>r s.
      if r < 0 then andthen (freevm pgdir s) (\<lambda>_ s. Ok (Some 0) s) else Ok None s)) (kmap dat) s)
    (\<lambda>r t. r = None \<and> building pgdir U t \<and> grows pgdir s t \<and> ptes (mem t) pgdir = kvm_pte dat)"
proof -
  have ud: "0x80100000 < unat dat" "unat dat < 0x8E000000" using d by (simp_all add: word_less_nat_alt)
  have z2: "V2P dat - V2P KERNLINK = dat - 0x80100000" by (simp add: V2P_def)
  have u2: "unat (dat - 0x80100000) = unat dat - 0x80100000"
    using d(2) by (subst unat_sub) (auto simp: order_less_imp_le)
  have z3: "PHYSTOP - V2P dat = 0x8E000000 - dat" by (simp add: V2P_def)
  have u3: "unat (0x8E000000 - dat) = 0x8E000000 - unat dat"
    using d(3) by (subst unat_sub) (auto simp: order_less_imp_le)
  have a2: "page_aligned (dat - 0x80100000)" and a3: "page_aligned (0x8E000000 - dat)"
    using d(1) unfolding page_aligned_iff u2 u3 by (auto intro!: dvd_diff_nat)
  let ?F1 = "\<lambda>b. if 0x80000000 \<le> unat b \<and> unat b < 0x80100000
      then (0 + (PGROUNDDOWN b - 0x80000000)) OR PTE_W OR PTE_P else 0"
  let ?F2 = "\<lambda>b. if 0x80100000 \<le> unat b \<and> unat b < unat dat
      then (V2P KERNLINK + (PGROUNDDOWN b - 0x80100000)) OR 0 OR PTE_P else ?F1 b"
  let ?F3 = "\<lambda>b. if unat dat \<le> unat b \<and> unat b < 0x8E000000
      then (V2P dat + (PGROUNDDOWN b - dat)) OR PTE_W OR PTE_P else ?F2 b"
  let ?F4 = "\<lambda>b. if 0xFE000000 \<le> unat b \<and> unat b < 2 ^ 32
      then (0xFE000000 + (PGROUNDDOWN b - 0xFE000000)) OR PTE_W OR PTE_P else ?F3 b"
  have step1: "succeeds (mappages pgdir KERNBASE (EXTMEM - 0) 0 PTE_W t) (\<lambda>r u. r = 0 \<and> building pgdir U u \<and>
      grows pgdir t u \<and> ptes (mem u) pgdir = ?F1)"
    if "building pgdir U t" "ptes (mem t) pgdir = (\<lambda>_. 0)" for t :: "'z kmst_scheme"
    using mappages_building' [OF that(1) b(2) that(2), of KERNBASE "0x100000" 0 PTE_W]
    by (simp add: page_aligned_def kvm_dir_PDX)
  have step2: "succeeds (mappages pgdir KERNLINK (V2P dat - V2P KERNLINK) (V2P KERNLINK) 0 t)
      (\<lambda>r u. r = 0 \<and> building pgdir U u \<and> grows pgdir t u \<and> ptes (mem u) pgdir = ?F2)"
    if "building pgdir U t" "ptes (mem t) pgdir = ?F1" for t :: "'z kmst_scheme"
    using mappages_building' [OF that(1) b(2) that(2), of KERNLINK "V2P dat - V2P KERNLINK" "V2P KERNLINK" 0] a2 ud d(2)
    unfolding z2 u2 by (simp add: page_aligned_def kvm_dir_PDX)
  have step3: "succeeds (mappages pgdir dat (PHYSTOP - V2P dat) (V2P dat) PTE_W t)
      (\<lambda>r u. r = 0 \<and> building pgdir U u \<and> grows pgdir t u \<and> ptes (mem u) pgdir = ?F3)"
    if "building pgdir U t" "ptes (mem t) pgdir = ?F2" for t :: "'z kmst_scheme"
    using mappages_building' [OF that(1) b(2) that(2), of dat "PHYSTOP - V2P dat" "V2P dat" PTE_W] a3 ud d(1,3)
    unfolding z3 u3 by (simp add: kvm_dir_PDX)
  have step4: "succeeds (mappages pgdir DEVSPACE (0 - DEVSPACE) DEVSPACE PTE_W t)
      (\<lambda>r u. r = 0 \<and> building pgdir U u \<and> grows pgdir t u \<and> ptes (mem u) pgdir = ?F4)"
    if "building pgdir U t" "ptes (mem t) pgdir = ?F3" for t :: "'z kmst_scheme"
    using mappages_building' [OF that(1) b(2) that(2), of DEVSPACE "0 - DEVSPACE" DEVSPACE PTE_W] ud
    by (simp add: page_aligned_def kvm_dir_PDX)
  have F4: "?F4 = kvm_pte dat"
  proof
    fix b :: u32
    have "unat b < 2 ^ 32" using unsigned_less [of b, where 'a = nat] by simp
    then show "?F4 b = kvm_pte dat b"
      using ud by (auto simp: kvm_pte_def V2P_def word_le_nat_alt word_less_nat_alt)
  qed
  let ?Fs = "[\<lambda>_. 0, ?F1, ?F2, ?F3, ?F4]"
  have maps: "succeeds (mappages pgdir (virt (kmap dat ! k)) (phys_end (kmap dat ! k) - phys_start (kmap dat ! k))
      (phys_start (kmap dat ! k)) (perm (kmap dat ! k)) t)
      (\<lambda>r u. r = 0 \<and> building pgdir U u \<and> grows pgdir t u \<and> ptes (mem u) pgdir = ?Fs ! Suc k)"
    if "k < 4" "building pgdir U t" "ptes (mem t) pgdir = ?Fs ! k" for k and t :: "'z kmst_scheme"
  proof -
    consider "k = 0" | "k = 1" | "k = 2" | "k = 3" using \<open>k < 4\<close> by arith
    then show ?thesis
      using that(2,3) step1 [of t] step2 [of t] step3 [of t] step4 [of t]
      by cases (simp_all add: kmap_def numeral_2_eq_2 numeral_3_eq_3)
  qed
  define Fs where "Fs = ?Fs"
  define P where "P k t \<longleftrightarrow> building pgdir U t \<and> grows pgdir s t \<and> ptes (mem t) pgdir = Fs ! k" for k and t :: "'z kmst_scheme"
  have P0: "P 0 s" using b by (simp add: P_def Fs_def building_def grows_refl)
  have len: "length (kmap dat) = 4" by (simp add: kmap_def)
  let ?B = "\<lambda>k s. andthen (mappages pgdir (virt k) (phys_end k - phys_start k) (phys_start k) (perm k) s)
      (\<lambda>r s. if r < 0 then andthen (freevm pgdir s) (\<lambda>_ s. Ok (Some 0) s) else Ok None s)"
  have "succeeds (?B (kmap dat ! k) t) (\<lambda>r u. r = None \<and> P (Suc k) u)" if "k < length (kmap dat)" "P k t" for k t
    using that maps [folded Fs_def, of k t] grows_trans [of pgdir s t]
    by (auto simp: len P_def elim!: succeeds_mono)
  from forany_run [where P = P, OF this P0]
  have "succeeds (forany ?B (kmap dat) s) (\<lambda>r u. r = None \<and> P 4 u)" by (simp add: len)
  moreover have "Fs ! 4 = kvm_pte dat" unfolding Fs_def F4 [symmetric] by simp
  ultimately show ?thesis by (simp add: P_def)
qed

lemma setupkvm_spec:
  fixes s :: "'z kmst_scheme"
  assumes "km_ok s" and "page_aligned (kdata s)" and "0x80100000 < kdata s" and "kdata s < 0x8E000000"
    and "65 < card (km_avail s)"
  shows "succeeds (setupkvm s) (\<lambda>d t. d \<in> km_avail s \<and> pt_ok d t \<and> ptes (mem t) d = kvm_pte (kdata s) \<and>
    (\<forall>i < 1024. has_table (mem t) d i \<longrightarrow> kvm_dir i) \<and>
    kmem_only s t \<and> km_avail t = km_avail s - pt_pages (mem t) d \<and> pt_pages (mem t) d \<subseteq> km_avail s \<and>
    (\<forall>b. PGROUNDDOWN b \<notin> pt_pages (mem t) d \<longrightarrow> mem t b = mem s b) \<and>
    (\<forall>x. x \<in> km_pool s - km_avail s \<longrightarrow>
      km_references_count t (frame (V2P x)) = km_references_count s (frame (V2P x))))"
    (is "succeeds _ ?Q")
  unfolding setupkvm_def succeeds_andthen
proof (rule succeeds_mono [OF succeeds_conj [OF kalloc_law [OF assms(1)] kalloc_frame [OF assms(1)]]], goal_cases)
  case (1 d t)
  have ne: "km_avail s \<noteq> {}" using assms(5) by auto
  then have d: "d \<in> km_avail s" "km_avail t = km_avail s - {d}" "km_ok t" "mem t = mem s" "kmem_only s t"
    using 1 by auto
  have dp: "d \<in> km_pool t" "d \<notin> km_avail t" "d \<noteq> 0"
    using d pa.avail_pool [OF assms(1)] pa.pool_page [of d s] km_pool_only [OF d(5)] by auto
  have U: "insert d (km_avail t) = km_avail s" using d by auto
  define u where "u = t\<lparr>mem := memset d 0 PGSIZE (mem t)\<rparr>"
  note fd = fresh_dir [OF d(3) dp(1,2), folded u_def, unfolded U]
  have ku: "kdata u = kdata s" using kmem_onlyD(5) [OF d(5)] by (simp add: u_def)
  have run: "succeeds (forany (\<lambda>k s.
      andthen (mappages d (virt k) (phys_end k - phys_start k) (phys_start k) (perm k) s) (\<lambda>r s.
      if r < 0 then andthen (freevm d s) (\<lambda>_ s. Ok (Some 0) s) else Ok None s)) (kmap (kdata s)) u)
    (\<lambda>r v. r = None \<and> building d (km_avail s) v \<and> grows d u v \<and> ptes (mem v) d = kvm_pte (kdata s))"
    using kmap_maps [OF fd(1) assms(5) fd(2) assms(2-4)] .
  have post: "?Q d v" if v: "building d (km_avail s) v" "grows d u v" "ptes (mem v) d = kvm_pte (kdata s)" for v
  proof -
    have ok: "pt_ok d v" and un: "km_avail v \<union> pt_pages (mem v) d = km_avail s"
      using v(1) by (simp_all add: building_def)
    have only: "kmem_only s v"
      using v(2) fd(3) d(5) kmem_only_trans unfolding grows_def by blast
    have "mem v b = mem s b" if "PGROUNDDOWN b \<notin> pt_pages (mem v) d" for b
    proof -
      have "PGROUNDDOWN b \<noteq> d" using that dir_in_pages by blast
      then show ?thesis using that v(2) fd(5) [of b] d(4) by (simp add: grows_def)
    qed
    moreover have "km_references_count v (frame (V2P x)) = km_references_count s (frame (V2P x))"
      if "x \<in> km_pool s - km_avail s" for x
    proof -
      have "x \<in> km_pool u - km_avail u"
        using that d(2) fd(4) km_pool_only [OF d(5)] km_pool_only [OF fd(3)] by auto
      then show ?thesis using v(2) 1 that by (simp add: grows_def u_def)
    qed
    moreover have "\<forall>i < 1024. has_table (mem v) d i \<longrightarrow> kvm_dir i" using v(1) by (simp add: building_def)
    ultimately show ?thesis using ok un d(1) only v(3) by (auto simp: pt_ok_def)
  qed
  have dev: "\<not> DEVSPACE < P2V PHYSTOP" by (simp add: P2V_def)
  have "?Q (case r of Some x \<Rightarrow> x | None \<Rightarrow> d) v" if "r = None \<and> building d (km_avail s) v \<and> grows d u v \<and>
      ptes (mem v) d = kvm_pte (kdata s)" for r v
  proof -
    have r: "r = None" using that by simp
    have "?Q d v" using that by (intro post) simp_all
    then show ?thesis unfolding r option.case .
  qed
  from succeeds_mono [OF run this] show ?case
    unfolding u_def [symmetric] Let_def ku if_not_P [OF dp(3)] if_not_P [OF dev] succeeds_andthen succeeds.simps .
qed

text \<open>
  C7: every page directory \<open>setupkvm\<close> builds maps the kernel as the table \<open>kmap\<close> says. With more than
  65 free pages it succeeds; in the new directory, each address of \<open>KERNBASE..KERNBASE+PHYSTOP\<close> maps to
  the physical address it names, read-only in kernel text and writable elsewhere, the device space
  from 0xFE000000 maps to itself, every other address (all of user space) is unmapped and no entry
  is accessible to user code; only pages taken from the free list are written.
\<close>

theorem setupkvm_maps_kernel:
  assumes "km_ok s" and "page_aligned (kdata s)" and "0x80100000 < kdata s" and "kdata s < 0x8E000000"
    and "65 < card (km_avail s)"
  shows "succeeds (setupkvm s) (\<lambda>d t. pt_ok d t \<and> ptes (mem t) d = kvm_pte (kdata s) \<and>
    pt_pages (mem t) d \<subseteq> km_avail s \<and> km_avail t = km_avail s - pt_pages (mem t) d \<and>
    (\<forall>b. PGROUNDDOWN b \<notin> pt_pages (mem t) d \<longrightarrow> mem t b = mem s b)) \<and>
    kvm_pte (kdata s) b AND PTE_U = 0"
proof -
  have low: "PGROUNDDOWN x AND PTE_U = 0" "V2P (PGROUNDDOWN x) AND PTE_U = 0" for x
  proof -
    have "a AND PTE_U = 0" if "page_aligned a" for a
    proof -
      have "a AND PTE_U = (a AND 0xFFF) AND PTE_U" by (simp add: and.assoc)
      then show ?thesis using that by (simp add: page_aligned_def)
    qed
    moreover have "page_aligned (PGROUNDDOWN x + 0x80000000)"
      by (rule page_aligned_plus) (simp, simp add: page_aligned_def)
    moreover have "V2P (PGROUNDDOWN x) = PGROUNDDOWN x + 0x80000000" by (simp add: V2P_def)
    ultimately show "PGROUNDDOWN x AND PTE_U = 0" "V2P (PGROUNDDOWN x) AND PTE_U = 0" by auto
  qed
  have "kvm_pte (kdata s) b AND PTE_U = 0"
    using low [of b] by (simp add: kvm_pte_def bit.conj_disj_distrib2)
  then show ?thesis
    using setupkvm_spec [OF assms] by (auto elim!: succeeds_mono)
qed

text \<open>The state after \<open>kinit2\<close> has freed the memory above 4 MB, for concrete examples.\<close>

definition km_boot :: kmst where
  "km_boot = (case kinit2 (P2V 0x400000) (P2V PHYSTOP) km0 of Ok _ s \<Rightarrow> s | _ \<Rightarrow> km0)
     \<lparr>hw := cpu0, kdata := 0x80109000, ptable := ptable km0\<rparr>"

lemma km_boot_ok:
  "km_ok km_boot" "kdata km_boot = 0x80109000" "hw km_boot = cpu0" "ptable km_boot = ptable kst0"
  "kend km_boot = 0x80120000"
  "km_avail km_boot = {x. page_aligned x \<and> 0x80400000 \<le> x \<and> unat x + 4096 \<le> 0x8E000000}"
proof -
  have "succeeds (freerange 0x80400000 0x8E000000 km0) (\<lambda>_ t. kmem_ready t \<and> kend t = kend km0 \<and>
    (\<exists>ys. kmem_inv t (ys @ []) \<and> km_free_pages t = km_free_pages km0 + of_nat (length ys) \<and>
      set ys = {x. page_aligned x \<and> 0x80400000 \<le> x \<and> unat x + 4096 \<le> unat (0x8E000000 :: addr)}))"
    by (intro freerange_ok) (simp_all add: kmem_inv_def)
  then obtain t ys where t: "freerange 0x80400000 0x8E000000 km0 = Ok () t" "kend t = kend km0" "kmem_inv t ys"
      "set ys = {x. page_aligned x \<and> 0x80400000 \<le> x \<and> unat x + 4096 \<le> 0x8E000000}"
    by (auto simp: succeeds_iff)
  have b: "km_boot = t\<lparr>km_use_lock := True, hw := cpu0, kdata := 0x80109000, ptable := ptable km0\<rparr>"
    using t(1) by (simp add: km_boot_def kinit2_def P2V_def)
  show "kdata km_boot = 0x80109000" "hw km_boot = cpu0" "ptable km_boot = ptable kst0" "kend km_boot = 0x80120000"
    using t(2) by (simp_all add: b)
  have inv: "kmem_inv km_boot ys" using t(3) by (simp add: b kmem_inv_def kpage_def)
  moreover have "kmem_ready km_boot" using quiet_simps(2) [OF cpu0_quiet] by (simp add: kmem_ready_def b)
  ultimately show "km_ok km_boot" by (auto simp: km_ok_def)
  show "km_avail km_boot = {x. page_aligned x \<and> 0x80400000 \<le> x \<and> unat x + 4096 \<le> 0x8E000000}"
    using km_avail_set [OF inv] t(4) by simp
qed

lemma km_boot_card: "1000 \<le> card (km_avail km_boot)"
proof -
  let ?f = "\<lambda>i. 0x80400000 + of_nat (4096 * i) :: addr"
  have u: "unat (?f i) = 0x80400000 + 4096 * i" if "i < 1000" for i
    using that unat_plus_lt [of "0x80400000" "of_nat (4096 * i)"] unat_of_nat_small [of "4096 * i"]
    by (simp del: of_nat_mult of_nat_numeral)
  have "inj_on ?f {..<1000}"
  proof (rule inj_onI)
    fix i j :: nat
    assume "i \<in> {..<1000}" "j \<in> {..<1000}" "?f i = ?f j"
    then have "0x80400000 + 4096 * i = 0x80400000 + 4096 * j" using u [of i] u [of j] by (metis lessThan_iff)
    then show "i = j" by simp
  qed
  moreover have "?f i \<in> km_avail km_boot" if "i < 1000" for i
    using that u [OF that] unfolding km_boot_ok(6) by (simp add: page_aligned_iff word_le_nat_alt del: of_nat_mult of_nat_numeral)
  ultimately have "card {..<1000 :: nat} \<le> card (km_avail km_boot)"
    using pa.avail_pool [OF km_boot_ok(1)] by (intro card_inj_on_le [of ?f]) auto
  then show ?thesis by simp
qed

theorem setupkvm_maps_kernel_witness:
  "succeeds (setupkvm km_boot) (\<lambda>d t. ptes (mem t) d 0x80100ABC = 0x100001 \<and> ptes (mem t) d 0 = 0)"
proof -
  have "page_aligned (kdata km_boot)" "0x80100000 < kdata km_boot" "kdata km_boot < 0x8E000000"
    "65 < card (km_avail km_boot)"
    using km_boot_card by (simp_all add: km_boot_ok(2) page_aligned_def)
  note setupkvm_maps_kernel [OF km_boot_ok(1) this, THEN conjunct1]
  moreover have "kvm_pte 0x80109000 0x80100ABC = 0x100001" "kvm_pte 0x80109000 0 = 0"
    by (simp_all add: kvm_pte_def V2P_def PGROUNDDOWN_def)
  ultimately show ?thesis by (elim succeeds_mono) (simp add: km_boot_ok(2))
qed

end
