(* ===== verification/Umem.thy ===== *)
theory Umem
  imports Vm
begin

text \<open>
  Access of kernel code to memory through the page directory loaded in cr3: addresses from KERNBASE on
  are mapped one to one, lower ones through the page table of the running process. The kernel writes with
  CR0\_WP set, so a write needs PTE\_W. An access that faults has no result here: what the trap handler
  does about it is modelled where the fault is the subject.
\<close>

section \<open>Definitions\<close>

definition vtrans :: "bool \<Rightarrow> addr \<Rightarrow> 'z kmst_scheme \<Rightarrow> addr option" where
  "vtrans w va s =
     (if KERNBASE \<le> va then Some va
      else let e = ptes (mem s) (P2V (cr3 (hw s) (lapic (hw s)))) va in
        if e AND PTE_P = 0 \<or> (w \<and> e AND PTE_W = 0) then None
        else Some (P2V (PTE_ADDR e) + (va AND 0xFFF)))"

primrec ureads :: "nat \<Rightarrow> addr \<Rightarrow> 'z kmst_scheme \<Rightarrow> byte list option" where
  "ureads 0 va s = Some []"
| "ureads (Suc n) va s = (case vtrans False va s of None \<Rightarrow> None
     | Some a \<Rightarrow> map_option (Cons (mem s a)) (ureads n (va + 1) s))"

primrec uwrites :: "byte list \<Rightarrow> addr \<Rightarrow> 'z kmst_scheme \<Rightarrow> 'z kmst_scheme option" where
  "uwrites [] va s = Some s"
| "uwrites (b # bs) va s = (case vtrans True va s of None \<Rightarrow> None
     | Some a \<Rightarrow> uwrites bs (va + 1) (s\<lparr>mem := (mem s)(a := b)\<rparr>))"

definition umem_read :: "nat \<Rightarrow> addr \<Rightarrow> 'z kmst_scheme \<Rightarrow> (byte list, 'z kmst_scheme) out" where
  "umem_read n va s = (case ureads n va s of None \<Rightarrow> Undef ''page fault'' | Some bs \<Rightarrow> Ok bs s)"

definition umem_write :: "byte list \<Rightarrow> addr \<Rightarrow> 'z kmst_scheme \<Rightarrow> (unit, 'z kmst_scheme) out" where
  "umem_write bs va s = (case uwrites bs va s of None \<Rightarrow> Undef ''page fault'' | Some s \<Rightarrow> Ok () s)"

definition umem_word :: "addr \<Rightarrow> 'z kmst_scheme \<Rightarrow> (u32, 'z kmst_scheme) out" where
  "umem_word va s = andthen (umem_read 4 va s) (\<lambda>bs s.
     Ok (ld32 (\<lambda>a. bs ! unat a) 0) s)"

text \<open>
  Where a routine that produces or consumes bytes puts or gets them: a local structure of the kernel
  (the bytes themselves) or an address.
\<close>

definition to_local :: "byte list \<Rightarrow> byte list \<Rightarrow> 's \<Rightarrow> (byte list, 's) out" where
  "to_local acc bs s = Ok (acc @ bs) s"

definition to_mem :: "addr \<Rightarrow> byte list \<Rightarrow> 'z kmst_scheme \<Rightarrow> (addr, 'z kmst_scheme) out" where
  "to_mem dst bs s = andthen (umem_write bs dst s) (\<lambda>_ s. Ok (dst + of_nat (length bs)) s)"

definition from_local :: "byte list \<Rightarrow> nat \<Rightarrow> 's \<Rightarrow> (byte list \<times> byte list, 's) out" where
  "from_local src m s = Ok (take m src, drop m src) s"

definition from_mem :: "addr \<Rightarrow> nat \<Rightarrow> 'z kmst_scheme \<Rightarrow> (byte list \<times> addr, 'z kmst_scheme) out" where
  "from_mem src m s = andthen (umem_read m src s) (\<lambda>bs s. Ok (bs, src + of_nat m) s)"

section \<open>Reading and writing\<close>

lemma ureads_length: "ureads n va s = Some bs \<Longrightarrow> length bs = n"
  by (induction n arbitrary: va bs) (auto split: option.splits)

lemma vtrans_kernel: "KERNBASE \<le> va \<Longrightarrow> vtrans w va s = Some va"
  by (simp add: vtrans_def)

lemma vtrans_mem_cong:
  "ptes (mem t) (P2V (cr3 (hw s) (lapic (hw s)))) va = ptes (mem s) (P2V (cr3 (hw s) (lapic (hw s)))) va \<Longrightarrow> hw t = hw s \<Longrightarrow>
   vtrans w va t = vtrans w va s"
  by (simp add: vtrans_def)

text \<open>What an access does depends on the memory and the loaded page directory only.\<close>

lemma vtrans_cong:
  "mem t = mem s \<Longrightarrow> cr3 (hw t) = cr3 (hw s) \<Longrightarrow> lapic (hw t) = lapic (hw s) \<Longrightarrow> vtrans w va t = vtrans w va s"
  by (simp add: vtrans_def)

lemma ureads_cong:
  "mem t = mem s \<Longrightarrow> cr3 (hw t) = cr3 (hw s) \<Longrightarrow> lapic (hw t) = lapic (hw s) \<Longrightarrow> ureads n va t = ureads n va s"
  by (induction n arbitrary: va) (simp_all add: vtrans_cong [of t s] split: option.split)

lemma uwrites_cong:
  "uwrites bs va s = Some u \<Longrightarrow> mem t = mem s \<Longrightarrow> cr3 (hw t) = cr3 (hw s) \<Longrightarrow> lapic (hw t) = lapic (hw s) \<Longrightarrow>
   uwrites bs va t = Some (t\<lparr>mem := mem u\<rparr>)"
proof (induction bs arbitrary: va s t)
  case Nil
  then have "t\<lparr>mem := mem u\<rparr> = t" by simp
  then show ?case by simp
next
  case (Cons b bs)
  obtain a where a: "vtrans True va s = Some a" "uwrites bs (va + 1) (s\<lparr>mem := (mem s)(a := b)\<rparr>) = Some u"
    using Cons.prems(1) by (auto split: option.splits)
  have v: "vtrans True va t = Some a" using a(1) vtrans_cong [of t s True va] Cons.prems by simp
  have "uwrites bs (va + 1) (t\<lparr>mem := (mem t)(a := b)\<rparr>) = Some ((t\<lparr>mem := (mem t)(a := b)\<rparr>)\<lparr>mem := mem u\<rparr>)"
    by (rule Cons.IH [OF a(2)]) (use Cons.prems in simp_all)
  then show ?case using v by simp
qed

lemma ureads_split:
  "ureads (m + k) va s = Some bs \<Longrightarrow> ureads m va s = Some (take m bs) \<and> ureads k (va + of_nat m) s = Some (drop m bs)"
proof (induction m arbitrary: va bs)
  case (Suc m)
  obtain a cs where a: "vtrans False va s = Some a" "ureads (m + k) (va + 1) s = Some cs" "bs = mem s a # cs"
    using Suc.prems by (auto split: option.splits)
  from Suc.IH [OF a(2)] show ?case using a(1,3) by (simp add: algebra_simps)
qed simp

text \<open>Storing bytes in kernel memory.\<close>

definition kstore :: "addr \<Rightarrow> byte list \<Rightarrow> memory \<Rightarrow> memory" where
  "kstore a bs m = (\<lambda>b. if unat (b - a) < length bs then bs ! unat (b - a) else m b)"

lemma kstore_append:
  assumes "unat a + length bs + length cs < 2 ^ 32"
  shows "kstore (a + of_nat (length bs)) cs (kstore a bs m) = kstore a (bs @ cs) m"
proof
  fix b
  let ?n = "of_nat (length bs) :: addr"
  have n: "unat ?n = length bs" by (rule unat_of_nat_small) (use assms in simp)
  have e: "b - (a + ?n) = (b - a) - ?n" by simp
  show "kstore (a + ?n) cs (kstore a bs m) b = kstore a (bs @ cs) m b"
  proof (cases "unat (b - a) < length bs")
    case True
    have "unat ((b - a) - ?n) = 2 ^ 32 - (length bs - unat (b - a))"
      using True unat_sub_if' [of "b - a" ?n] n by simp
    then have "\<not> unat (b - (a + ?n)) < length cs" unfolding e using True assms by simp
    then show ?thesis using True by (simp add: kstore_def nth_append)
  next
    case False
    then have "unat ((b - a) - ?n) = unat (b - a) - length bs" using unat_sub [of ?n "b - a"] n by (simp add: word_le_nat_alt)
    then show ?thesis using False unfolding kstore_def e by (auto simp: nth_append)
  qed
qed

lemma kstore_Nil [simp]: "kstore a [] m = m"
  by (simp add: kstore_def)

lemma uwrites_kernel:
  assumes "KERNBASE \<le> a" and "unat a + length bs < 2 ^ 32"
  shows "uwrites bs a s = Some (s\<lparr>mem := kstore a bs (mem s)\<rparr>)"
  using assms
proof (induction bs arbitrary: a s)
  case (Cons b bs)
  have u: "unat (a + 1) = unat a + 1" using Cons.prems(2) by (subst unat_plus_lt) simp_all
  have k: "KERNBASE \<le> a + 1" "unat (a + 1) + length bs < 2 ^ 32" using Cons.prems u by (simp_all add: word_le_nat_alt)
  have "(mem s)(a := b) = kstore a [b] (mem s)" by (auto simp: kstore_def fun_eq_iff unat_eq_0)
  moreover have "kstore (a + of_nat (length [b])) bs (kstore a [b] (mem s)) = kstore a ([b] @ bs) (mem s)"
    by (rule kstore_append) (use Cons.prems(2) in simp)
  ultimately show ?case using Cons.IH [OF k, of "s\<lparr>mem := (mem s)(a := b)\<rparr>"] vtrans_kernel [OF Cons.prems(1), of True s] by simp
qed simp

lemma ureads_kernel:
  assumes "KERNBASE \<le> a" and "unat a + n < 2 ^ 32"
  shows "ureads n a s = Some (map (\<lambda>i. mem s (a + of_nat i)) [0..<n])"
  using assms
proof (induction n arbitrary: a)
  case (Suc n)
  have u: "unat (a + 1) = unat a + 1" using Suc.prems(2) by (subst unat_plus_lt) simp_all
  have k: "KERNBASE \<le> a + 1" "unat (a + 1) + n < 2 ^ 32" using Suc.prems u by (simp_all add: word_le_nat_alt)
  have "map (\<lambda>i. mem s (a + of_nat i)) [0..<Suc n] = mem s a # map (\<lambda>i. mem s (a + 1 + of_nat i)) [0..<n]"
    by (simp add: upt_conv_Cons map_Suc_upt [symmetric] comp_def algebra_simps del: upt_Suc)
  then show ?case using Suc.IH [OF k] vtrans_kernel [OF Suc.prems(1), of False s] by simp
qed simp

end
