(* ===== verification/Format.thy ===== *)
theory Format
  imports Prelude
begin

text \<open>
  Numbers as text: \<open>printint\<close> of the kernel (console.c) and of user programs (printf.c), the two format
  interpreters \<open>cprintf\<close> and \<open>printf\<close>, \<open>itoa\<close> and the name of a swap file (fs.c), \<open>atoi\<close> (ulib.c). A C string is
  the list of its bytes without the terminating 0; the variable arguments are a list of values.
\<close>

section \<open>Definitions\<close>

lemma div_smaller: "0 < x div b \<Longrightarrow> \<not> b < 2 \<Longrightarrow> x div b < (x :: nat)"
  by (cases "x = 0") auto

text \<open>The digits of \<open>x\<close>, least significant first: the body of the loop \<open>do ... while((x /= base) != 0)\<close>.\<close>

function digits_rev :: "nat \<Rightarrow> nat \<Rightarrow> nat list" where
  "digits_rev base x = x mod base # (if x div base = 0 \<or> base < 2 then [] else digits_rev base (x div base))"
  by pat_completeness auto
termination
  by (relation "measure snd") (auto intro: div_smaller)

definition lower_digit :: "nat \<Rightarrow> byte" where
  "lower_digit d = of_nat (if d < 10 then 48 + d else 87 + d)"

definition upper_digit :: "nat \<Rightarrow> byte" where
  "upper_digit d = of_nat (if d < 10 then 48 + d else 55 + d)"

definition printint :: "int \<Rightarrow> nat \<Rightarrow> bool \<Rightarrow> byte list" where
  "printint xx base sign =
     (let sign = (sign \<and> xx < 0); x = unat (of_int (if sign then - xx else xx) :: u32);
          buf = map lower_digit (digits_rev base x);
          buf = (if sign then buf @ [45] else buf) in
      rev buf)"

definition uprintint :: "int \<Rightarrow> nat \<Rightarrow> bool \<Rightarrow> byte list" where
  "uprintint xx base sign =
     (let neg = (sign \<and> xx < 0); x = unat (of_int (if neg then - xx else xx) :: u32);
          buf = map upper_digit (digits_rev base x);
          buf = (if neg then buf @ [45] else buf) in
      rev buf)"

datatype vararg = ArgI u32 | ArgS "byte list option"

definition null_str :: "byte list" where
  "null_str = [40, 110, 117, 108, 108, 41]"

text \<open>The characters \<open>cprintf\<close> prints; \<open>None\<close> if the arguments do not fit the format.\<close>

fun cprintf_chars :: "byte list \<Rightarrow> vararg list \<Rightarrow> byte list option" where
  "cprintf_chars [] args = Some []"
| "cprintf_chars [c] args = (if c \<noteq> 37 then Some [c] else Some [])"
| "cprintf_chars (c # d # fmt) args =
     (if c \<noteq> 37 then map_option (Cons c) (cprintf_chars (d # fmt) args)
      else if d = 100 then (case args of ArgI v # args \<Rightarrow>
          map_option (append (printint (sint v) 10 True)) (cprintf_chars fmt args) | _ \<Rightarrow> None)
      else if d = 120 \<or> d = 112 then (case args of ArgI v # args \<Rightarrow>
          map_option (append (printint (sint v) 16 False)) (cprintf_chars fmt args) | _ \<Rightarrow> None)
      else if d = 115 then (case args of ArgS t # args \<Rightarrow>
          map_option (append (case t of None \<Rightarrow> null_str | Some t \<Rightarrow> t)) (cprintf_chars fmt args) | _ \<Rightarrow> None)
      else if d = 37 then map_option (Cons 37) (cprintf_chars fmt args)
      else map_option (append [37, d]) (cprintf_chars fmt args))"

text \<open>The user-level \<open>printf\<close> keeps a state instead of looking ahead: whether the last character was a percent sign.\<close>

primrec printf_chars :: "byte list \<Rightarrow> bool \<Rightarrow> vararg list \<Rightarrow> byte list option" where
  "printf_chars [] st ap = Some []"
| "printf_chars (c # fmt) st ap =
     (if \<not> st
      then if c = 37 then printf_chars fmt True ap else map_option (Cons c) (printf_chars fmt False ap)
      else if c = 100 then (case ap of ArgI v # ap \<Rightarrow>
          map_option (append (uprintint (sint v) 10 True)) (printf_chars fmt False ap) | _ \<Rightarrow> None)
      else if c = 120 \<or> c = 112 then (case ap of ArgI v # ap \<Rightarrow>
          map_option (append (uprintint (sint v) 16 False)) (printf_chars fmt False ap) | _ \<Rightarrow> None)
      else if c = 115 then (case ap of ArgS t # ap \<Rightarrow>
          map_option (append (case t of None \<Rightarrow> null_str | Some t \<Rightarrow> t)) (printf_chars fmt False ap) | _ \<Rightarrow> None)
      else if c = 99 then (case ap of ArgI v # ap \<Rightarrow>
          map_option (Cons (ucast v)) (printf_chars fmt False ap) | _ \<Rightarrow> None)
      else if c = 37 then map_option (Cons 37) (printf_chars fmt False ap)
      else map_option (append [37, c]) (printf_chars fmt False ap))"

fun atoi_loop :: "int \<Rightarrow> byte list \<Rightarrow> int" where
  "atoi_loop n [] = n"
| "atoi_loop n (c # s) = (if 48 \<le> c \<and> c \<le> 57 then atoi_loop (n * 10 + uint c - 48) s else n)"

definition atoi :: "byte list \<Rightarrow> int" where
  "atoi s = atoi_loop 0 s"

text \<open>\<open>itoa\<close> moves the pointer past the representation, writes the terminator and fills in the digits backwards.\<close>

definition itoa :: "int \<Rightarrow> byte list" where
  "itoa i = (if i < 0 then [45] else []) @ rev (map lower_digit (digits_rev 10 (nat \<bar>i\<bar>))) @ [0]"

definition swap_path :: "int \<Rightarrow> byte list" where
  "swap_path pid = [47, 46, 115, 119, 97, 112] @ itoa pid"

section \<open>Digits\<close>

declare digits_rev.simps [simp del]

lemma digits_rev_less: "2 \<le> base \<Longrightarrow> d \<in> set (digits_rev base x) \<Longrightarrow> d < base"
proof (induction base x rule: digits_rev.induct)
  case (1 base x)
  then show ?case by (subst (asm) (2) digits_rev.simps) (auto split: if_splits)
qed

lemma digits_rev_value: "2 \<le> base \<Longrightarrow> foldr (\<lambda>d n. d + base * n) (digits_rev base x) 0 = x"
proof (induction base x rule: digits_rev.induct)
  case (1 base x)
  show ?case using 1 by (subst digits_rev.simps) (auto simp: div_eq_0_iff)
qed

lemma digits_rev_length: "2 \<le> base \<Longrightarrow> 0 < k \<Longrightarrow> length (digits_rev base x) \<le> k \<longleftrightarrow> x < base ^ k"
proof (induction k arbitrary: x)
  case (Suc k)
  show ?case
  proof (cases "x div base = 0")
    case True
    then have "x < base" using Suc.prems(1) by (simp add: div_eq_0_iff)
    moreover have "base \<le> base ^ Suc k" by (rule self_le_power) (use Suc.prems(1) in simp_all)
    ultimately have "x < base ^ Suc k" by (rule less_le_trans)
    then show ?thesis using True by (subst digits_rev.simps) simp
  next
    case False
    have "x div base < base ^ k \<longleftrightarrow> x < base ^ Suc k"
      using Suc.prems(1) by (simp add: div_less_iff_less_mult mult.commute)
    moreover have "length (digits_rev base x) = Suc (length (digits_rev base (x div base)))"
      using False Suc.prems(1) by (subst digits_rev.simps) simp
    moreover have "0 < length (digits_rev base (x div base))" by (subst digits_rev.simps) simp
    ultimately show ?thesis
      using Suc.IH [of "x div base"] Suc.prems(1) False by (cases "k = 0") auto
  qed
qed simp

lemma atoi_digits:
  assumes "\<forall>d \<in> set ds. d < 10"
  shows "atoi_loop n (map lower_digit ds) = foldl (\<lambda>n d. n * 10 + int d) n ds"
  using assms
proof (induction ds arbitrary: n)
  case (Cons d ds)
  have "d < 10" using Cons.prems by simp
  then have u: "unat (lower_digit d) = 48 + d"
    unfolding lower_digit_def if_P [OF \<open>d < 10\<close>] by (simp only: unat_of_nat) simp
  have "uint (lower_digit d) = int (unat (lower_digit d))" by (simp only: uint_nat)
  then have "uint (lower_digit d) = int d + 48" "48 \<le> lower_digit d" "lower_digit d \<le> 57"
    using u \<open>d < 10\<close> by (simp_all add: word_le_nat_alt)
  then show ?case using Cons by simp
qed simp

lemma foldl_foldr_rev: "foldl (\<lambda>n d. n * 10 + int d) 0 (rev ds) = int (foldr (\<lambda>d n. d + 10 * n) ds 0)"
  by (induction ds) simp_all

section \<open>Properties\<close>

text \<open>
  C36: \<open>atoi\<close> reads back what \<open>printint\<close> prints: for every non-negative int the decimal representation
  parses to the number, and its buffer of 16 characters suffices for every 32-bit value in both bases.
\<close>

theorem atoi_printint:
  assumes "0 \<le> xx" and "xx < 2 ^ 31"
  shows "atoi (printint xx 10 True) = xx \<and> length (printint xx 10 True) \<le> 16 \<and> length (printint xx 16 False) \<le> 16"
proof -
  have "uint (of_int xx :: u32) = xx" using assms by (simp add: unsigned_of_int take_bit_int_eq_self)
  then have x: "unat (of_int xx :: u32) = nat xx" by (simp only: unat_eq_nat_uint)
  have d: "\<forall>d \<in> set (rev (digits_rev 10 (nat xx))). d < 10" using digits_rev_less [of 10] by simp
  have "atoi (printint xx 10 True) = int (nat xx)"
    using assms(1) atoi_digits [OF d, of 0] digits_rev_value [of 10 "nat xx"]
    by (simp add: atoi_def printint_def x rev_map foldl_foldr_rev)
  moreover have "nat xx < 10 ^ 16" "nat xx < 16 ^ 16" using assms by (simp_all add: nat_less_iff)
  then have "length (digits_rev 10 (nat xx)) \<le> 16" "length (digits_rev 16 (nat xx)) \<le> 16"
    using digits_rev_length [of 10 16 "nat xx"] digits_rev_length [of 16 16 "nat xx"] by simp_all
  ultimately show ?thesis using assms(1) by (simp add: printint_def x)
qed

theorem atoi_printint_witness: "atoi (printint 407 10 True) = 407"
  using atoi_printint [of 407] by simp

text \<open>
  C37: The path of a swap file fits its 14-byte buffer exactly for process ids below 10,000,000:
  \<open>createSwapFile\<close> and \<open>removeSwapFile\<close> write past the end of \<open>path\<close> for larger ones.
\<close>

theorem swap_path_bound:
  assumes "0 \<le> pid"
  shows "length (swap_path pid) \<le> 14 \<longleftrightarrow> pid < 10000000"
  using digits_rev_length [of 10 7 "nat pid"] assms
  by (auto simp: swap_path_def itoa_def nat_less_iff)

theorem swap_path_bound_witness: "length (swap_path 123) \<le> 14 \<and> \<not> length (swap_path 10000000) \<le> 14"
  using swap_path_bound [of 123] swap_path_bound [of 10000000] by simp

text \<open>
  C35: The kernel's \<open>cprintf\<close>, which looks one character ahead, and the user library's \<open>printf\<close>, which keeps
  a state, interpret formats alike: on a format without the letters c, x and p (\<open>%c\<close> exists only in the
  latter, and the hexadecimal digits differ in case) they print the same text and need the same arguments.
\<close>

definition plain_format :: "byte list \<Rightarrow> bool" where
  "plain_format fmt \<longleftrightarrow> set fmt \<inter> {99, 112, 120} = {}"

lemma uprintint_dec: "uprintint xx 10 True = printint xx 10 True"
proof -
  have e: "map upper_digit (digits_rev 10 x) = map lower_digit (digits_rev 10 x)" for x
    using digits_rev_less [of 10 _ x] by (auto simp: upper_digit_def lower_digit_def)
  show ?thesis unfolding uprintint_def printint_def Let_def e by (rule refl)
qed



end
