(* ===== verification/Ring.thy ===== *)
theory Ring
  imports Prelude
begin

text \<open>
  Ring buffers with free-running 32-bit counters, as pipe.c (\<open>data\<close>, \<open>nread\<close>, \<open>nwrite\<close>) and console.c
  (\<open>input.buf\<close>, \<open>r\<close>, \<open>w\<close>, \<open>e\<close>) use them: the counters only grow and wrap around at \<open>2 ^ 32\<close>, an index is a counter
  modulo the size of the buffer. The locale proves once that such a buffer is a queue, for every size
  that divides \<open>2 ^ 32\<close>; the two components are interpretations.
\<close>

definition ringq :: "nat \<Rightarrow> byte list \<Rightarrow> u32 \<Rightarrow> u32 \<Rightarrow> byte list" where
  "ringq n d r w = map (\<lambda>k. d ! ((unat r + k) mod n)) [0..<unat (w - r)]"

locale ring_buffer =
  fixes n :: nat
  assumes pos: "0 < n" and dvd: "n dvd 2 ^ 32" and small: "n < 2 ^ 32"
begin

lemma index: "unat ((x :: u32) mod of_nat n) = unat x mod n"
proof -
  have "unat (of_nat n :: u32) = n" using small by (rule unat_of_nat_small)
  then show ?thesis by (simp only: unat_mod_distrib)
qed

lemma index_less: "unat ((x :: u32) mod of_nat n) < n"
  by (simp add: index pos)

lemma next_index: "(unat (r + 1 :: u32) + k) mod n = (unat r + (k + 1)) mod n"
proof -
  have "unat (r + 1) = (unat r + 1) mod 2 ^ 32" by (simp add: unat_word_ariths)
  then have "(unat (r + 1) + k) mod n = ((unat r + 1) mod 2 ^ 32 mod n + k mod n) mod n" by (simp add: mod_add_eq)
  also have "\<dots> = ((unat r + 1) mod n + k mod n) mod n" by (simp only: mod_mod_cancel [OF dvd])
  finally show ?thesis by (simp add: mod_add_eq)
qed

lemma counter_index: "unat (w :: u32) mod n = (unat r + unat (w - r)) mod n"
proof -
  have "unat w = unat (r + (w - r))" by simp
  also have "\<dots> = (unat r + unat (w - r)) mod 2 ^ 32" by (simp only: unat_word_ariths) simp
  finally have "unat w mod n = (unat r + unat (w - r)) mod 2 ^ 32 mod n" by simp
  then show ?thesis by (simp only: mod_mod_cancel [OF dvd])
qed

lemma length_ringq [simp]: "length (ringq n d r w) = unat (w - r)"
  by (simp add: ringq_def)

lemma ringq_empty: "ringq n d r r = []"
  by (simp add: ringq_def)

lemma ringq_push:
  assumes "unat (w - r) < n" and "length d = n"
  shows "ringq n (d[unat (w mod of_nat n) := c]) r (w + 1) = ringq n d r w @ [c]"
proof -
  let ?m = "unat (w - r)"
  have e: "w + 1 - r = (w - r) + 1" by simp
  have "unat ((w - r) + 1) = ?m + 1" using assms(1) small by (intro trans [OF unat_plus_lt]) simp_all
  then have m: "unat (w + 1 - r) = Suc ?m" unfolding e by simp
  have i: "unat (w mod of_nat n) = (unat r + ?m) mod n" by (simp only: index counter_index [of w r])
  have ne: "(unat r + k) mod n \<noteq> (unat r + ?m) mod n" if "k < ?m" for k
  proof
    assume "(unat r + k) mod n = (unat r + ?m) mod n"
    then have "n dvd (unat r + ?m) - (unat r + k)" by (metis mod_eq_dvd_iff_nat that nat_add_left_cancel_le less_imp_le)
    then have "n dvd ?m - k" by simp
    then show False using that assms(1) by (auto dest: dvd_imp_le)
  qed
  have "d[(unat r + ?m) mod n := c] ! ((unat r + k) mod n) = d ! ((unat r + k) mod n)" if "k < ?m" for k
    using ne [OF that] by simp
  then show ?thesis
    unfolding ringq_def m i by (simp add: assms(2) pos)
qed

lemma ringq_pop:
  assumes "r \<noteq> w"
  shows "ringq n d r w = d ! unat (r mod of_nat n) # ringq n d (r + 1) w"
proof -
  have ne: "w - r \<noteq> 0" using assms by simp
  have e: "w - (r + 1) = (w - r) - 1" by simp
  have "unat (w - r) \<noteq> 0" using ne by (simp add: unat_eq_0)
  then have m: "unat (w - r) = Suc (unat (w - (r + 1)))" unfolding e using unat_minus_one [OF ne] by simp
  show ?thesis
    unfolding ringq_def m by (simp add: index upt_conv_Cons map_Suc_upt [symmetric] next_index comp_def del: upt_Suc)
qed

lemma ringq_unpush:
  assumes "r \<noteq> w"
  shows "ringq n d r (w - 1) = butlast (ringq n d r w)"
proof -
  have ne: "w - r \<noteq> 0" using assms by simp
  then have "unat (w - r) \<noteq> 0" by (simp add: unat_eq_0)
  moreover have e: "w - 1 - r = (w - r) - 1" by simp
  ultimately have m: "unat (w - r) = Suc (unat (w - 1 - r))" unfolding e using unat_minus_one [OF ne] by simp
  show ?thesis unfolding ringq_def m by (simp add: butlast_append)
qed

lemma ringq_split:
  assumes "unat (w - r) \<le> unat (e - r)"
  shows "ringq n d r w = take (unat (w - r)) (ringq n d r e)"
proof -
  have "[0..<unat (e - r)] = [0..<unat (w - r)] @ [unat (w - r)..<unat (e - r)]"
    using assms by (metis le_add_diff_inverse upt_add_eq_append zero_le)
  then show ?thesis by (simp add: ringq_def)
qed

lemma ringq_last:
  assumes "r \<noteq> e"
  shows "ringq n d r e \<noteq> []" "last (ringq n d r e) = d ! unat ((e - 1) mod of_nat n)"
proof -
  have ne: "e - r \<noteq> 0" using assms by simp
  then have "unat (e - r) \<noteq> 0" by (simp add: unat_eq_0)
  moreover have eq: "e - 1 - r = (e - r) - 1" by simp
  ultimately have m: "unat (e - r) = Suc (unat (e - 1 - r))" unfolding eq using unat_minus_one [OF ne] by simp
  show "ringq n d r e \<noteq> []" "last (ringq n d r e) = d ! unat ((e - 1) mod of_nat n)"
    unfolding ringq_def m index counter_index [of "e - 1" r] by simp_all
qed

end

end
