(* ===== verification/Console.thy ===== *)
theory Console
  imports Inode Umem Format Ring
begin

text \<open>
  The console (console.c) with the output half of the serial driver (uart.c): the screen with its cursor
  and scrolling, kernel messages, the line-editing input buffer filled by \<open>consoleintr\<close> and emptied by
  \<open>consoleread\<close>. Screen memory is a function from cell numbers to cells; \<open>crt_pos\<close> is the cursor position
  the CRT controller holds; \<open>uart_out\<close> is what has been sent to the serial line.
\<close>

section \<open>Definitions\<close>

abbreviation (input) "INPUT_BUF \<equiv> (128 :: u32)"
abbreviation (input) "BACKSPACE \<equiv> (0x100 :: int)"

record cst = ist +
  con_locking :: bool
  con_panicked :: bool
  crt :: "nat \<Rightarrow> ushort"
  crt_pos :: int
  uart :: bool
  uart_out :: "byte list"
  in_buf :: "byte list"
  in_r :: u32
  in_w :: u32
  in_e :: u32

definition cga_move :: "int \<Rightarrow> int \<Rightarrow> 'z cst_scheme \<Rightarrow> int \<times> 'z cst_scheme" where
  "cga_move c pos s =
     (if c = 10 then (pos + 80 - pos mod 80, s)
      else if c = BACKSPACE then (if 0 < pos then pos - 1 else pos, s)
      else (pos + 1, s\<lparr>crt := (crt s)(nat pos := (of_int c AND 0xFF) OR 0x0700)\<rparr>))"

definition cga_scroll :: "int \<Rightarrow> 'z cst_scheme \<Rightarrow> int \<times> 'z cst_scheme" where
  "cga_scroll pos s =
     (if 24 \<le> pos div 80
      then let old = crt s; pos = pos - 80 in
        (pos, s\<lparr>crt := (\<lambda>i. if nat pos \<le> i \<and> i < 24 * 80 then 0 else if i < 23 * 80 then old (i + 80) else old i)\<rparr>)
      else (pos, s))"

definition cgaputc :: "int \<Rightarrow> 'z cst_scheme \<Rightarrow> (unit, 'z cst_scheme) out" where
  "cgaputc c s =
     (case cga_move c (crt_pos s) s of (pos, s) \<Rightarrow>
      if pos < 0 \<or> 25 * 80 < pos then Panic ''pos under/overflow''
      else (case cga_scroll pos s of (pos, s) \<Rightarrow>
        Ok () (s\<lparr>crt := (crt s)(nat pos := 0x0720), crt_pos := pos\<rparr>)))"

definition uartputc :: "int \<Rightarrow> 'z cst_scheme \<Rightarrow> 'z cst_scheme" where
  "uartputc c s = (if \<not> uart s then s else s\<lparr>uart_out := uart_out s @ [of_int c]\<rparr>)"

definition consputc :: "int \<Rightarrow> 'z cst_scheme \<Rightarrow> (unit, 'z cst_scheme) out" where
  "consputc c s =
     (if con_panicked s then Hang ''panicked''
      else cgaputc c (if c = BACKSPACE then uartputc 8 (uartputc 32 (uartputc 8 s)) else uartputc c s))"

definition cprintf :: "byte list option \<Rightarrow> vararg list \<Rightarrow> 'z cst_scheme \<Rightarrow> (unit, 'z cst_scheme) out" where
  "cprintf fmt args s =
     (let locking = con_locking s in
      andthen (if locking then kacquire LK_cons s else Ok () s) (\<lambda>_ s.
      case fmt of None \<Rightarrow> Panic ''null fmt'' | Some fmt \<Rightarrow>
      (case cprintf_chars fmt args of None \<Rightarrow> Undef ''cprintf arguments'' | Some cs \<Rightarrow>
       andthen (foreach (\<lambda>c s. consputc (uint c) s) cs s) (\<lambda>_ s.
       if locking then krelease LK_cons s else Ok () s))))"

text \<open>
  One character of input. \<open>consoleintr\<close> handles the characters its argument \<open>getc\<close> returns until that is
  negative; they are a list here. The result says whether a process listing was asked for (control-P),
  which the caller prints after releasing the lock.
\<close>

definition in_prev :: "'z cst_scheme \<Rightarrow> byte" where
  "in_prev s = in_buf s ! unat ((in_e s - 1) mod INPUT_BUF)"

text \<open>
  Kill line: the loop runs until the edit index is back at \<open>w\<close> or a newline; each round moves it one back,
  so their distance bounds the rounds.
\<close>

primrec kill_line :: "nat \<Rightarrow> 'z cst_scheme \<Rightarrow> (unit, 'z cst_scheme) out" where
  "kill_line 0 s = Ok () s"
| "kill_line (Suc n) s =
     (if in_e s \<noteq> in_w s \<and> in_prev s \<noteq> 10
      then andthen (consputc BACKSPACE (s\<lparr>in_e := in_e s - 1\<rparr>)) (\<lambda>_ s. kill_line n s)
      else Ok () s)"

definition in_put :: "byte \<Rightarrow> 'z cst_scheme \<Rightarrow> 'z cst_scheme" where
  "in_put c s = s\<lparr>in_buf := (in_buf s)[unat (in_e s mod INPUT_BUF) := c], in_e := in_e s + 1\<rparr>"

definition console_char :: "int \<Rightarrow> 'z cst_scheme \<Rightarrow> (bool, 'z cst_scheme) out" where
  "console_char c s =
     (if c = 16 then Ok True s
      else if c = 21 then andthen (kill_line (unat (in_e s - in_w s)) s) (\<lambda>_ s. Ok False s)
      else if c = 8 \<or> c = 127
      then if in_e s \<noteq> in_w s
        then andthen (consputc BACKSPACE (s\<lparr>in_e := in_e s - 1\<rparr>)) (\<lambda>_ s. Ok False s) else Ok False s
      else if c \<noteq> 0 \<and> in_e s - in_r s < INPUT_BUF
      then let c = (if c = 13 then 10 else c) in
        andthen (consputc c (in_put (of_int c) s)) (\<lambda>_ s.
        if c = 10 \<or> c = 4 \<or> in_e s = in_r s + INPUT_BUF
        then andthen (wakeup Ch_input (s\<lparr>in_w := in_e s\<rparr>)) (\<lambda>_ s. Ok False s)
        else Ok False s)
      else Ok False s)"

primrec console_chars :: "int list \<Rightarrow> bool \<Rightarrow> 'z cst_scheme \<Rightarrow> (bool, 'z cst_scheme) out" where
  "console_chars [] dump s = Ok dump s"
| "console_chars (c # cs) dump s = andthen (console_char c s) (\<lambda>d s. console_chars cs (dump \<or> d) s)"

definition consoleintr :: "int list \<Rightarrow> 'z cst_scheme \<Rightarrow> (bool, 'z cst_scheme) out" where
  "consoleintr cs s =
     andthen (kacquire LK_cons s) (\<lambda>_ s.
     andthen (console_chars cs False s) (\<lambda>doprocdump s.
     andthen (krelease LK_cons s) (\<lambda>_ s. Ok doprocdump s)))"

text \<open>
  A wait inside a loop: the thread is suspended in \<open>sleep\<close> and evaluates the loop again from its test when it is
  resumed (\<open>sleep_return\<close>), so there is no result before that.
\<close>

definition suspend :: "chan \<Rightarrow> lockid \<Rightarrow> 'z kst_scheme \<Rightarrow> ('a, 'z kst_scheme) out" where
  "suspend ch lk s = andthen (sleep ch (Some lk) s) (\<lambda>_ s. Swtch s)"

text \<open>
  Reading: \<open>n\<close> counts the bytes still wanted of \<open>target\<close>. With no complete line the reader sleeps (and runs
  the loop again from the same \<open>n\<close> when woken) or, if killed, gives up with \<open>None\<close>.
\<close>

primrec consoleread_loop ::
  "('d \<Rightarrow> byte list \<Rightarrow> 'z cst_scheme \<Rightarrow> ('d, 'z cst_scheme) out) \<Rightarrow> nat \<Rightarrow> nat \<Rightarrow> 'd \<Rightarrow> 'z cst_scheme \<Rightarrow>
     ((nat \<times> 'd) option, 'z cst_scheme) out" where
  "consoleread_loop put target 0 dst s = Ok (Some (0, dst)) s"
| "consoleread_loop put target (Suc n) dst s =
     (if in_r s = in_w s
      then andthen (thisproc s) (\<lambda>p s.
        if p_killed (ptable s ! p) then Ok None s
        else suspend Ch_input LK_cons s)
      else let c = in_buf s ! unat (in_r s mod INPUT_BUF); s = s\<lparr>in_r := in_r s + 1\<rparr> in
        if c = 4
        then Ok (Some (Suc n, dst)) (if Suc n < target then s\<lparr>in_r := in_r s - 1\<rparr> else s)
        else andthen (put dst [c] s) (\<lambda>dst s.
          if c = 10 then Ok (Some (n, dst)) s else consoleread_loop put target n dst s))"

definition consoleread ::
  "('d \<Rightarrow> byte list \<Rightarrow> 'z cst_scheme \<Rightarrow> ('d, 'z cst_scheme) out) \<Rightarrow> nat \<Rightarrow> 'd \<Rightarrow> int \<Rightarrow> 'z cst_scheme \<Rightarrow>
     (int \<times> 'd, 'z cst_scheme) out" where
  "consoleread put ip dst n s =
     andthen (iunlock (Some ip) s) (\<lambda>_ s.
     andthen (kacquire LK_cons s) (\<lambda>_ s.
     andthen (consoleread_loop put (nat n) (nat n) dst s) (\<lambda>r s.
     andthen (krelease LK_cons s) (\<lambda>_ s.
     andthen (ilock (Some ip) s) (\<lambda>_ s.
     Ok (case r of None \<Rightarrow> (- 1, dst) | Some (left, dst) \<Rightarrow> (int (nat n) - int left, dst)) s)))))"

definition consolewrite ::
  "('d \<Rightarrow> nat \<Rightarrow> 'z cst_scheme \<Rightarrow> (byte list \<times> 'd, 'z cst_scheme) out) \<Rightarrow> nat \<Rightarrow> 'd \<Rightarrow> int \<Rightarrow> 'z cst_scheme \<Rightarrow>
     (int, 'z cst_scheme) out" where
  "consolewrite get ip src n s =
     andthen (iunlock (Some ip) s) (\<lambda>_ s.
     andthen (kacquire LK_cons s) (\<lambda>_ s.
     andthen (get src (nat n) s) (\<lambda>(bs, _) s.
     andthen (foreach (\<lambda>c s. consputc (uint c) s) bs s) (\<lambda>_ s.
     andthen (krelease LK_cons s) (\<lambda>_ s.
     andthen (ilock (Some ip) s) (\<lambda>_ s.
     Ok n s))))))"

definition consoleinit :: "'z cst_scheme \<Rightarrow> 'z cst_scheme" where
  "consoleinit s = s\<lparr>hw := initlock LK_cons ''console'' (hw s), devsw := (devsw s)[1 := Some Dev_console], con_locking := True\<rparr>"

section \<open>The screen\<close>

definition con_ready :: "'z cst_scheme \<Rightarrow> bool" where
  "con_ready s \<longleftrightarrow> \<not> con_panicked s \<and> 0 \<le> crt_pos s \<and> crt_pos s < 24 * 80"

lemma uartputc_out: "\<exists>u. uartputc c s = s\<lparr>uart_out := u\<rparr>"
  by (cases "uart s") (auto simp: uartputc_def intro: exI [of _ "uart_out s"])

lemma cgaputc_shows:
  assumes "0 \<le> crt_pos s" and "crt_pos s < 24 * 80"
  shows "\<exists>a b. cgaputc c s = Ok () (s\<lparr>crt := a, crt_pos := b\<rparr>) \<and> 0 \<le> b \<and> b < 24 * 80"
proof -
  have m: "crt_pos s + 80 - crt_pos s mod 80 \<le> 24 * 80" using assms by presburger
  have "\<exists>pos a. cga_move c (crt_pos s) s = (pos, s\<lparr>crt := a\<rparr>) \<and> 0 \<le> pos \<and> pos \<le> 24 * 80"
  proof (cases "c = 10 \<or> c = BACKSPACE")
    case True
    then have "snd (cga_move c (crt_pos s) s) = s\<lparr>crt := crt s\<rparr>" "0 \<le> fst (cga_move c (crt_pos s) s)"
      "fst (cga_move c (crt_pos s) s) \<le> 24 * 80" using assms m by (auto simp: cga_move_def)
    then show ?thesis by (metis prod.collapse)
  next
    case False
    then show ?thesis using assms by (simp add: cga_move_def) blast
  qed
  then obtain pos a where mv: "cga_move c (crt_pos s) s = (pos, s\<lparr>crt := a\<rparr>)" "0 \<le> pos" "pos \<le> 24 * 80" by blast
  obtain pos' a' where sc: "cga_scroll pos (s\<lparr>crt := a\<rparr>) = (pos', s\<lparr>crt := a'\<rparr>)" "0 \<le> pos'" "pos' < 24 * 80"
  proof (cases "24 \<le> pos div 80")
    case True
    then have "0 \<le> pos - 80" "pos - 80 < 24 * 80" using mv(3) by linarith+
    then show ?thesis using True by (intro that [of "pos - 80"]) (simp_all add: cga_scroll_def Let_def)
  next
    case False
    then show ?thesis using mv(2) by (intro that [of pos a]) (simp_all add: cga_scroll_def)
  qed
  show ?thesis
    using mv sc by (intro exI [of _ "a'(nat pos' := 0x0720)"] exI [of _ pos']) (simp add: cgaputc_def)
qed

lemma consputc_shows:
  assumes "con_ready s"
  shows "\<exists>a b u. consputc c s = Ok () (s\<lparr>crt := a, crt_pos := b, uart_out := u\<rparr>) \<and> 0 \<le> b \<and> b < 24 * 80"
proof -
  let ?s = "if c = BACKSPACE then uartputc 8 (uartputc 32 (uartputc 8 s)) else uartputc c s"
  have "\<exists>u. ?s = s\<lparr>uart_out := u\<rparr>"
  proof (cases "c = BACKSPACE")
    case True
    then show ?thesis
      by (intro exI [of _ "if uart s then uart_out s @ [8, 32, 8] else uart_out s"]) (simp add: uartputc_def)
  qed (use uartputc_out [of c s] in simp)
  then obtain u where u: "?s = s\<lparr>uart_out := u\<rparr>" by blast
  obtain a b where "cgaputc c (s\<lparr>uart_out := u\<rparr>) = Ok () (s\<lparr>uart_out := u, crt := a, crt_pos := b\<rparr>)" "0 \<le> b" "b < 24 * 80"
    using cgaputc_shows [of "s\<lparr>uart_out := u\<rparr>" c] assms by (auto simp: con_ready_def)
  then show ?thesis
    using assms unfolding consputc_def u by (intro exI [of _ a] exI [of _ b] exI [of _ u]) (auto simp: con_ready_def)
qed

interpretation cons_ring: ring_buffer 128
  by unfold_locales simp_all

section \<open>Line editing\<close>

text \<open>
  The input buffer as a terminal user sees it: the characters handed over to readers and the line being edited. The
  second component holds what \<open>backspace\<close> and \<open>kill\<close> can still take back.
\<close>

definition in_ok :: "'z cst_scheme \<Rightarrow> bool" where
  "in_ok s \<longleftrightarrow> length (in_buf s) = 128 \<and> unat (in_e s - in_r s) \<le> 128 \<and> unat (in_w s - in_r s) \<le> unat (in_e s - in_r s)"

definition in_all :: "'z cst_scheme \<Rightarrow> byte list" where
  "in_all s = ringq 128 (in_buf s) (in_r s) (in_e s)"

definition cooked :: "'z cst_scheme \<Rightarrow> byte list \<times> byte list" where
  "cooked s = (take (unat (in_w s - in_r s)) (in_all s), drop (unat (in_w s - in_r s)) (in_all s))"

definition cooked_char :: "int \<Rightarrow> byte list \<times> byte list \<Rightarrow> byte list \<times> byte list" where
  "cooked_char c x = (case x of (lines, edit) \<Rightarrow>
     if c = 16 \<or> c = 0 then (lines, edit)
     else if c = 21 then (lines, rev (dropWhile (\<lambda>c. c \<noteq> 10) (rev edit)))
     else if c = 8 \<or> c = 127 then (lines, butlast edit)
     else if length lines + length edit < 128
     then let c = (if c = 13 then 10 else c); edit = edit @ [of_int c] in
       if c = 10 \<or> c = 4 \<or> length lines + length edit = 128 then (lines @ edit, []) else (lines, edit)
     else (lines, edit))"

lemma in_ok_simps:
  assumes "in_ok s"
  shows "length (in_buf s) = 128" "length (in_all s) = unat (in_e s - in_r s)" "length (in_all s) \<le> 128"
    "unat (in_w s - in_r s) \<le> length (in_all s)" "in_e s = in_w s \<longleftrightarrow> unat (in_w s - in_r s) = length (in_all s)"
    "unat (in_e s - in_w s) = length (in_all s) - unat (in_w s - in_r s)"
proof -
  show l: "length (in_buf s) = 128" "length (in_all s) = unat (in_e s - in_r s)" "length (in_all s) \<le> 128"
    "unat (in_w s - in_r s) \<le> length (in_all s)"
    using assms by (simp_all add: in_ok_def in_all_def cons_ring.length_ringq [simplified])
  have "unat (in_w s - in_r s) = unat (in_e s - in_r s) \<longleftrightarrow> in_w s - in_r s = in_e s - in_r s" by (simp add: word_unat_eq_iff)
  then show "in_e s = in_w s \<longleftrightarrow> unat (in_w s - in_r s) = length (in_all s)" unfolding l(2) by auto
  have "in_e s - in_w s = (in_e s - in_r s) - (in_w s - in_r s)" by simp
  then show "unat (in_e s - in_w s) = length (in_all s) - unat (in_w s - in_r s)"
    using l(4) unat_sub [of "in_w s - in_r s" "in_e s - in_r s"] by (simp add: l(2) word_le_nat_alt)
qed

lemma cooked_frame:
  assumes "in_buf t = in_buf s" "in_r t = in_r s" "in_w t = in_w s" "in_e t = in_e s"
  shows "in_all t = in_all s" "cooked t = cooked s" "in_ok t = in_ok s"
  using assms by (simp_all add: in_all_def cooked_def in_ok_def)

text \<open>The three moves of the edit index.\<close>

lemma in_put_all:
  assumes "in_ok s" and "length (in_all s) < 128"
  shows "in_all (in_put c s) = in_all s @ [c]" "in_ok (in_put c s)"
    "cooked (in_put c s) = (fst (cooked s), snd (cooked s) @ [c])"
proof -
  note o = in_ok_simps [OF assms(1)]
  have lt: "unat (in_e s - in_r s) < 128" using assms(2) o(2) by simp
  show a: "in_all (in_put c s) = in_all s @ [c]"
    using cons_ring.ringq_push [OF lt o(1)] by (simp add: in_all_def in_put_def)
  have "length (in_all (in_put c s)) = unat (in_e s + 1 - in_r s)"
    using cons_ring.length_ringq [of "in_buf (in_put c s)" "in_r s" "in_e s + 1"] by (simp add: in_all_def in_put_def)
  then have e: "unat (in_e s + 1 - in_r s) = Suc (unat (in_e s - in_r s))" unfolding a using o(2) by simp
  show "in_ok (in_put c s)" using assms(1) lt unfolding in_ok_def in_put_def by (simp add: e)
  show "cooked (in_put c s) = (fst (cooked s), snd (cooked s) @ [c])"
    unfolding cooked_def a using o(4) by (simp add: in_put_def)
qed

lemma in_back:
  assumes "in_ok s" and "in_e s \<noteq> in_w s"
  shows "in_all (s\<lparr>in_e := in_e s - 1\<rparr>) = butlast (in_all s)" "in_ok (s\<lparr>in_e := in_e s - 1\<rparr>)"
    "cooked (s\<lparr>in_e := in_e s - 1\<rparr>) = (fst (cooked s), butlast (snd (cooked s)))"
    "snd (cooked s) \<noteq> []" "last (snd (cooked s)) = in_prev s"
proof -
  note o = in_ok_simps [OF assms(1)]
  have k: "unat (in_w s - in_r s) < length (in_all s)" using o(4,5) assms(2) by simp
  then have ne: "in_r s \<noteq> in_e s" using o(2) by auto
  show a: "in_all (s\<lparr>in_e := in_e s - 1\<rparr>) = butlast (in_all s)"
    using cons_ring.ringq_unpush [OF ne, of "in_buf s"] by (simp add: in_all_def)
  have "length (in_all (s\<lparr>in_e := in_e s - 1\<rparr>)) = unat (in_e s - 1 - in_r s)"
    using cons_ring.length_ringq [of "in_buf s" "in_r s" "in_e s - 1"] by (simp add: in_all_def)
  then have e: "unat (in_e s - 1 - in_r s) = unat (in_e s - in_r s) - 1" unfolding a using o(2) by simp
  show "in_ok (s\<lparr>in_e := in_e s - 1\<rparr>)" using assms(1) k o(2) unfolding in_ok_def by (auto simp add: e)
  show "cooked (s\<lparr>in_e := in_e s - 1\<rparr>) = (fst (cooked s), butlast (snd (cooked s)))"
    unfolding cooked_def a using k by (auto simp: butlast_conv_take drop_take min_def)
  show d: "snd (cooked s) \<noteq> []" using k by (simp add: cooked_def)
  have "last (snd (cooked s)) = last (in_all s)" using k by (simp add: cooked_def)
  then show "last (snd (cooked s)) = in_prev s"
    using cons_ring.ringq_last(2) [OF ne, of "in_buf s"] by (simp add: in_all_def in_prev_def)
qed

lemma in_commit:
  assumes "in_ok s"
  shows "cooked (s\<lparr>in_w := in_e s\<rparr>) = (fst (cooked s) @ snd (cooked s), [])" "in_ok (s\<lparr>in_w := in_e s\<rparr>)"
  using assms in_ok_simps(2) [OF assms] by (simp_all add: cooked_def in_all_def in_ok_def)

text \<open>The state of the handler: it holds the console lock and nothing else.\<close>

definition con_at :: "machine \<Rightarrow> 'z cst_scheme \<Rightarrow> bool" where
  "con_at h s \<longleftrightarrow> quiet h \<and> hw s = acq LK_cons h \<and> in_ok s \<and> con_ready s"

lemma con_at_put:
  assumes "con_at h s"
  shows "succeeds (consputc c s) (\<lambda>_ t. con_at h t \<and> cooked t = cooked s \<and> in_e t = in_e s \<and> in_w t = in_w s \<and> in_r t = in_r s)"
proof -
  obtain a b u where c: "consputc c s = Ok () (s\<lparr>crt := a, crt_pos := b, uart_out := u\<rparr>)" "0 \<le> b" "b < 24 * 80"
    using consputc_shows [of s c] assms by (auto simp: con_at_def)
  then show ?thesis using assms cooked_frame [of "s\<lparr>crt := a, crt_pos := b, uart_out := u\<rparr>" s] by (simp add: con_at_def con_ready_def)
qed

lemma con_at_wakeup:
  assumes "con_at h s"
  shows "succeeds (wakeup ch s) (\<lambda>_ t. con_at h t \<and> cooked t = cooked s)"
proof -
  have q: "quiet h" "hw s = acq LK_cons h" using assms by (simp_all add: con_at_def)
  have "wakeup ch s = Ok () (wakeup1 ch s)" using quiet_simps(5) [OF q(1), of LK_ptable LK_cons] q(2) by (simp add: wakeup_free)
  then show ?thesis
    using assms cooked_frame [of "wakeup1 ch s" s] by (simp add: con_at_def con_ready_def wakeup1_def)
qed

lemma kill_line_spec:
  assumes "con_at h s" and "n = unat (in_e s - in_w s)"
  shows "succeeds (kill_line n s) (\<lambda>_ t. con_at h t \<and>
    cooked t = (fst (cooked s), rev (dropWhile (\<lambda>c. c \<noteq> 10) (rev (snd (cooked s))))))"
  using assms
proof (induction n arbitrary: s)
  case 0
  then have o: "in_ok s" by (simp add: con_at_def)
  have "snd (cooked s) = []" using 0(2) in_ok_simps(4,6) [OF o] by (simp add: cooked_def)
  then show ?case using 0(1) by (cases "cooked s") simp
next
  case (Suc n)
  then have o: "in_ok s" by (simp add: con_at_def)
  have ne: "in_e s \<noteq> in_w s" using Suc.prems(2) by auto
  note b = in_back [OF o ne]
  obtain l e where e: "snd (cooked s) = e @ [l]" "l = in_prev s" using b(4,5) by (metis append_butlast_last_id)
  show ?case
  proof (cases "in_prev s = 10")
    case True
    then show ?thesis using e Suc.prems(1) by (cases "cooked s") simp
  next
    case False
    let ?s = "s\<lparr>in_e := in_e s - 1\<rparr>"
    have c: "con_at h ?s" using Suc.prems(1) b(2) by (simp add: con_at_def con_ready_def)
    have eq: "in_e s - 1 - in_w s = (in_e s - in_w s) - 1" by simp
    have n: "unat (in_e s - 1 - in_w s) = n"
      unfolding eq using Suc.prems(2) ne unat_minus_one [of "in_e s - in_w s"] by simp
    have d: "rev (dropWhile (\<lambda>c. c \<noteq> 10) (rev (snd (cooked s)))) = rev (dropWhile (\<lambda>c. c \<noteq> 10) (rev (butlast (snd (cooked s)))))"
      using e False by simp
    have "succeeds (consputc BACKSPACE ?s) (\<lambda>_ t. succeeds (kill_line n t) (\<lambda>_ t. con_at h t \<and>
      cooked t = (fst (cooked s), rev (dropWhile (\<lambda>c. c \<noteq> 10) (rev (snd (cooked s)))))))"
    proof (rule succeeds_mono [OF con_at_put [OF c]], elim conjE)
      fix t :: "'a cst_scheme"
      assume t: "con_at h t" "cooked t = cooked ?s" "in_e t = in_e ?s" "in_w t = in_w ?s"
      show "succeeds (kill_line n t) (\<lambda>_ t. con_at h t \<and>
        cooked t = (fst (cooked s), rev (dropWhile (\<lambda>c. c \<noteq> 10) (rev (snd (cooked s))))))"
        unfolding d by (rule succeeds_mono [OF Suc.IH [OF t(1)]]) (use t n b(3) in auto)
    qed
    then show ?thesis using ne False by simp
  qed
qed

lemma console_char_cooked:
  assumes c: "con_at h s"
  shows "succeeds (console_char c s) (\<lambda>d t. d = (c = 16) \<and> con_at h t \<and> cooked t = cooked_char c (cooked s))"
proof -
  have o: "in_ok s" and q: "quiet h" "hw s = acq LK_cons h" using c by (simp_all add: con_at_def)
  note i = in_ok_simps [OF o]
  have len: "length (fst (cooked s)) + length (snd (cooked s)) = unat (in_e s - in_r s)"
    using i(2,4) by (simp add: cooked_def)
  consider "c = 16" | "c = 21" | "c = 8 \<or> c = 127" | "c = 0" | "c \<noteq> 16" "c \<noteq> 21" "c \<noteq> 8" "c \<noteq> 127" "c \<noteq> 0" by blast
  then show ?thesis
  proof cases
    case 1
    then show ?thesis using c by (cases "cooked s") (simp add: console_char_def cooked_char_def)
  next
    case 2
    then show ?thesis using kill_line_spec [OF c refl]
      by (cases "cooked s") (auto simp: console_char_def cooked_char_def elim!: succeeds_mono)
  next
    case 3
    show ?thesis
    proof (cases "in_e s = in_w s")
      case True
      then have "snd (cooked s) = []" using i(5) by (simp add: cooked_def)
      then show ?thesis using 3 True c by (cases "cooked s") (auto simp: console_char_def cooked_char_def)
    next
      case False
      have b: "con_at h (s\<lparr>in_e := in_e s - 1\<rparr>)" using c in_back(2) [OF o False] by (simp add: con_at_def con_ready_def)
      show ?thesis
        using 3 False con_at_put [OF b, of BACKSPACE] in_back(3) [OF o False]
        by (cases "cooked s") (auto simp: console_char_def cooked_char_def elim!: succeeds_mono)
    qed
  next
    case 4
    then show ?thesis using c by (cases "cooked s") (simp add: console_char_def cooked_char_def)
  next
    case 5
    show ?thesis
    proof (cases "in_e s - in_r s < INPUT_BUF")
      case False
      then have "\<not> length (fst (cooked s)) + length (snd (cooked s)) < 128" unfolding len by (simp add: word_less_nat_alt)
      then show ?thesis using 5 False c by (cases "cooked s") (simp add: console_char_def cooked_char_def)
    next
      case True
      define d where "d = (if c = 13 then 10 else c)"
      have lt: "length (in_all s) < 128" using True i(2) by (simp add: word_less_nat_alt)
      note p = in_put_all [OF o lt, of "of_int d"]
      have cp: "con_at h (in_put (of_int d) s)" using c p(2) by (simp add: con_at_def con_ready_def in_put_def)
      have "in_e s + 1 = in_r s + INPUT_BUF \<longleftrightarrow> in_e s - in_r s = 127" by (auto simp: algebra_simps)
      then have full: "in_e s + 1 = in_r s + INPUT_BUF \<longleftrightarrow> length (in_all s) + 1 = 128"
        using i(2) by (simp add: word_unat_eq_iff)
      have e: "console_char c s = andthen (consputc d (in_put (of_int d) s)) (\<lambda>_ s.
          if d = 10 \<or> d = 4 \<or> in_e s = in_r s + INPUT_BUF
          then andthen (wakeup Ch_input (s\<lparr>in_w := in_e s\<rparr>)) (\<lambda>_ s. Ok False s) else Ok False s)"
        using 5 True by (simp add: console_char_def d_def Let_def)
      have cc: "cooked_char c (cooked s) = (if d = 10 \<or> d = 4 \<or> length (in_all s) + 1 = 128
          then (fst (cooked s) @ snd (cooked s) @ [of_int d], []) else (fst (cooked s), snd (cooked s) @ [of_int d]))"
        using 5 lt len i(2) by (cases "cooked s") (auto simp: cooked_char_def d_def Let_def)
      show ?thesis
        unfolding e succeeds_andthen
      proof (rule succeeds_mono [OF con_at_put [OF cp]], elim conjE)
        fix t :: "'a cst_scheme"
        assume t: "con_at h t" "cooked t = cooked (in_put (of_int d) s)" "in_e t = in_e (in_put (of_int d) s)"
          "in_r t = in_r (in_put (of_int d) s)"
        have f: "in_e t = in_r t + INPUT_BUF \<longleftrightarrow> length (in_all s) + 1 = 128" using t(3,4) full by (simp add: in_put_def)
        have ot: "in_ok t" using t(1) by (simp add: con_at_def)
        have ct: "con_at h (t\<lparr>in_w := in_e t\<rparr>)" using t(1) in_commit(2) [OF ot] by (simp add: con_at_def con_ready_def)
        show "succeeds (if d = 10 \<or> d = 4 \<or> in_e t = in_r t + INPUT_BUF
            then andthen (wakeup Ch_input (t\<lparr>in_w := in_e t\<rparr>)) (\<lambda>_ s. Ok False s) else Ok False t)
          (\<lambda>d t. d = (c = 16) \<and> con_at h t \<and> cooked t = cooked_char c (cooked s))"
          unfolding f cc using 5 t(1,2) p(3) con_at_wakeup [OF ct, of Ch_input] in_commit(1) [OF ot]
          by (auto elim!: succeeds_mono)
      qed
    qed
  qed
qed

lemma console_chars_cooked:
  assumes "con_at h s"
  shows "succeeds (console_chars cs dump s) (\<lambda>d t. d = (dump \<or> 16 \<in> set cs) \<and> con_at h t \<and> cooked t = fold cooked_char cs (cooked s))"
  using assms
proof (induction cs arbitrary: dump s)
  case (Cons c cs)
  show ?case unfolding console_chars.simps succeeds_andthen
  proof (rule succeeds_mono [OF console_char_cooked [OF Cons.prems]], elim conjE)
    fix d :: bool and t :: "'a cst_scheme"
    assume t: "d = (c = 16)" "con_at h t" "cooked t = cooked_char c (cooked s)"
    show "succeeds (console_chars cs (dump \<or> d) t)
      (\<lambda>d t. d = (dump \<or> 16 \<in> set (c # cs)) \<and> con_at h t \<and> cooked t = fold cooked_char (c # cs) (cooked s))"
      by (rule succeeds_mono [OF Cons.IH [OF t(2)]]) (use t in auto)
  qed
qed simp

section \<open>Reading lines\<close>

text \<open>
  What a reader of \<open>n\<close> bytes takes from the finished lines: up to and including a newline, or up to a control-D, which is
  consumed only by a read that has nothing else to return.
\<close>

fun take_line :: "nat \<Rightarrow> nat \<Rightarrow> byte list \<Rightarrow> byte list \<times> byte list" where
  "take_line target 0 q = ([], q)"
| "take_line target (Suc n) [] = ([], [])"
| "take_line target (Suc n) (c # q) =
     (if c = 4 then ([], if Suc n < target then c # q else q)
      else if c = 10 then ([c], q)
      else case take_line target n q of (l, q) \<Rightarrow> (c # l, q))"

definition line_ready :: "nat \<Rightarrow> byte list \<Rightarrow> bool" where
  "line_ready n q \<longleftrightarrow> n \<le> length q \<or> 4 \<in> set q \<or> 10 \<in> set q"

lemma in_take:
  assumes o: "in_ok s" and q: "fst (cooked s) = c # q"
  shows "in_r s \<noteq> in_w s" "in_buf s ! unat (in_r s mod INPUT_BUF) = c"
    "in_ok (s\<lparr>in_r := in_r s + 1\<rparr>)" "cooked (s\<lparr>in_r := in_r s + 1\<rparr>) = (q, snd (cooked s))"
proof -
  note i = in_ok_simps [OF o]
  let ?k = "unat (in_w s - in_r s)"
  have t: "take ?k (in_all s) = c # q" using q by (simp add: cooked_def)
  then have k: "?k \<noteq> 0" "in_all s \<noteq> []" by (metis list.distinct(1) take_0, metis list.distinct(1) take_Nil)
  then show "in_r s \<noteq> in_w s" by auto
  have ne: "in_r s \<noteq> in_e s" using k(2) i(2) by auto
  note pop = cons_ring.ringq_pop [OF ne, of "in_buf s"]
  have a: "in_all s = in_buf s ! unat (in_r s mod INPUT_BUF) # in_all (s\<lparr>in_r := in_r s + 1\<rparr>)"
    using pop by (simp add: in_all_def)
  then show c: "in_buf s ! unat (in_r s mod INPUT_BUF) = c" using q k(1) by (cases ?k) (simp_all add: cooked_def)
  have step: "unat (x - (in_r s + 1)) = unat (x - in_r s) - 1" if "x - in_r s \<noteq> 0" for x
  proof -
    have eq: "x - (in_r s + 1) = (x - in_r s) - 1" by simp
    show ?thesis unfolding eq using unat_minus_one [OF that] by simp
  qed
  have w: "in_w s - in_r s \<noteq> 0" "in_e s - in_r s \<noteq> 0" using k(1) ne by auto
  show "in_ok (s\<lparr>in_r := in_r s + 1\<rparr>)" using o step [OF w(1)] step [OF w(2)] by (auto simp: in_ok_def)
  obtain m where m: "?k = Suc m" using k(1) by (cases ?k) auto
  show "cooked (s\<lparr>in_r := in_r s + 1\<rparr>) = (q, snd (cooked s))"
    using q a step [OF w(1)] m by (simp add: cooked_def)
qed

lemma consoleread_loop_cooked:
  assumes "in_ok s" "line_ready n (fst (cooked s))"
  shows "\<exists>r t. consoleread_loop to_local target n dst s = Ok (Some (n - length (fst (take_line target n (fst (cooked s)))),
      dst @ fst (take_line target n (fst (cooked s))))) (s\<lparr>in_r := r\<rparr>) \<and> in_ok (s\<lparr>in_r := r\<rparr>) \<and>
    cooked (s\<lparr>in_r := r\<rparr>) = (snd (take_line target n (fst (cooked s))), snd (cooked s)) \<and>
    length (fst (take_line target n (fst (cooked s)))) \<le> n"
  using assms
proof (induction n arbitrary: s dst)
  case 0
  then show ?case by (intro exI [of _ "in_r s"]) simp
next
  case (Suc n)
  obtain c q where q: "fst (cooked s) = c # q" using Suc.prems(2) by (cases "fst (cooked s)") (auto simp: line_ready_def)
  note i = in_take [OF Suc.prems(1) q]
  let ?s = "s\<lparr>in_r := in_r s + 1\<rparr>"
  consider "c = 4" | "c = 10" | "c \<noteq> 4" "c \<noteq> 10" by blast
  then show ?case
  proof cases
    case 1
    have "cooked s = (c # q, snd (cooked s))" using q by (cases "cooked s") simp
    then show ?thesis using 1 q i Suc.prems(1)
      by (cases "Suc n < target") (auto simp: Let_def intro: exI [of _ "in_r s"] exI [of _ "in_r s + 1"])
  next
    case 2
    then show ?thesis using q i by (intro exI [of _ "in_r s + 1"]) (simp add: Let_def to_local_def)
  next
    case 3
    have "line_ready n (fst (cooked ?s))" using Suc.prems(2) q i(4) 3 by (auto simp: line_ready_def)
    from Suc.IH [OF i(3) this, of "dst @ [c]"] show ?thesis
      using 3 q i(1,2,4) to_local_def [of dst "[c]" ?s] by (simp add: Let_def split: prod.splits) force
  qed
qed

section \<open>A machine with a console\<close>

definition con_boot :: "(u32 \<Rightarrow> block) \<Rightarrow> inode \<Rightarrow> cst" where
  "con_boot d q = ist.extend ((fs_boot d)\<lparr>icache := q # replicate 49 zero_inode\<rparr>)
     (cst.fields True False (\<lambda>_. 0) 0 True [] (replicate 128 0) 0 0 0)"

lemma con_boot_sel [simp]:
  "icache (con_boot d q) = q # replicate 49 zero_inode" "bufs (con_boot d q) = bufs (fs_boot d)"
  "disk (con_boot d q) = disk (fs_boot d)" "slocks (con_boot d q) = slocks (fs_boot d)" "hw (con_boot d q) = hw (fs_boot d)"
  "ptable (con_boot d q) = ptable (fs_boot d)" "disksize (con_boot d q) = 1000" "lg_block (con_boot d q) = replicate 30 0"
  "lg_size (con_boot d q) = 30" "lg_n (con_boot d q) = 0" "lg_outstanding (con_boot d q) = 1"
  unfolding con_boot_def ist.defs cst.defs by (simp_all del: fs_boot_sel(3-7))

lemma con_boot_input [simp]:
  "in_buf (con_boot d q) = replicate 128 0" "in_r (con_boot d q) = 0" "in_w (con_boot d q) = 0" "in_e (con_boot d q) = 0"
  "crt_pos (con_boot d q) = 0" "con_panicked (con_boot d q) = False"
  unfolding con_boot_def ist.defs cst.defs by simp_all

lemma con_boot_con: "in_ok (con_boot d q)" "con_ready (con_boot d q)" "cooked (con_boot d q) = ([], [])"
  by (simp_all add: in_ok_def con_ready_def cooked_def in_all_def ringq_def)

section \<open>Correctness\<close>

text \<open>
  C12: The keyboard and serial interrupt handler implements the line discipline: whatever characters arrive, the ring
  buffer with its three wrapping indices behaves as the pair of finished lines and line being edited, each character
  acting on the pair as \<open>cooked_char\<close> says (erase, kill, end of line, end of file, and discarding input when 128 characters
  are pending), the handler never loses the screen position, and it returns with the console lock released; it reports a
  process listing exactly when control-P was among the characters.
\<close>

theorem consoleintr_line_discipline:
  assumes "quiet (hw s)" and "in_ok s" and "con_ready s"
  shows "succeeds (consoleintr cs s) (\<lambda>d t. d = (16 \<in> set cs) \<and> cooked t = fold cooked_char cs (cooked s) \<and>
    in_ok t \<and> con_ready t \<and> hw t = hw s)"
proof -
  note q = quiet_simps [OF assms(1)]
  let ?s = "s\<lparr>hw := acq LK_cons (hw s)\<rparr>"
  have c: "con_at (hw s) ?s" using assms cooked_frame [of ?s s] by (simp add: con_at_def con_ready_def)
  have k: "cooked ?s = cooked s" by (rule cooked_frame) simp_all
  have "succeeds (console_chars cs False ?s) (\<lambda>d t. succeeds (andthen (krelease LK_cons t) (\<lambda>_ t. Ok d t))
    (\<lambda>d t. d = (16 \<in> set cs) \<and> cooked t = fold cooked_char cs (cooked s) \<and> in_ok t \<and> con_ready t \<and> hw t = hw s))"
  proof (rule succeeds_mono [OF console_chars_cooked [OF c]], elim conjE)
    fix d :: bool and t :: "'a cst_scheme"
    assume t: "d = (False \<or> 16 \<in> set cs)" "con_at (hw s) t" "cooked t = fold cooked_char cs (cooked ?s)"
    have h: "hw t = acq LK_cons (hw s)" using t(2) by (simp add: con_at_def)
    show "succeeds (andthen (krelease LK_cons t) (\<lambda>_ t. Ok d t))
      (\<lambda>d t. d = (16 \<in> set cs) \<and> cooked t = fold cooked_char cs (cooked s) \<and> in_ok t \<and> con_ready t \<and> hw t = hw s)"
      using t h q cooked_frame [of "t\<lparr>hw := hw s\<rparr>" t] k by (simp add: lock_simps con_at_def con_ready_def)
  qed
  then show ?thesis using q by (simp add: consoleintr_def lock_simps succeeds_andthen)
qed

theorem consoleintr_line_discipline_witness:
  "succeeds (consoleintr [104, 106, 8, 105, 13] (con_boot (\<lambda>_. []) zero_inode))
    (\<lambda>d t. \<not> d \<and> cooked t = ([104, 105, 10], []))"
  using consoleintr_line_discipline [OF _ con_boot_con(1,2), of "\<lambda>_. []" zero_inode "[104, 106, 8, 105, 13]"]
    txnD(9) [OF fs_boot_txn, of "\<lambda>_. []"] con_boot_con(3) [of "\<lambda>_. []" zero_inode]
  by (auto simp: cooked_char_def runs_def elim!: succeeds_mono)

text \<open>
  C29: Reading the console when a line is ready (or enough characters for the request are): \<open>consoleread\<close> returns, delivers
  exactly the next line of the finished input cut at \<open>n\<close> bytes, or nothing at an end-of-file mark, takes just that from the input
  and leaves the line being edited alone, and comes back with the inode locked again as it found it.
\<close>

theorem consoleread_delivers_line:
  assumes "runs (hw s) p" and "p < length (ptable s)" and "in_ok s" and "line_ready (nat n) (fst (cooked s))"
    and "sl_locked (slocks s (SL_inode ip))" and "sl_pid (slocks s (SL_inode ip)) = p_pid (ptable s ! p)"
    and "1 \<le> i_ref (icache s ! ip)" and "i_valid (icache s ! ip)"
  shows "succeeds (consoleread to_local ip [] n s) (\<lambda>(r, bs) t.
    bs = fst (take_line (nat n) (nat n) (fst (cooked s))) \<and> r = int (length bs) \<and> in_ok t \<and>
    cooked t = (snd (take_line (nat n) (nat n) (fst (cooked s))), snd (cooked s)) \<and>
    slocks t = slocks s \<and> icache t = icache s \<and> hw t = hw s)"
proof -
  have q: "quiet (hw s)" using assms(1) by (simp add: runs_def)
  note qs = quiet_simps [OF q]
  define s1 where "s1 = wakeup1 (Ch_sleep (SL_inode ip)) (upd_slock (SL_inode ip) (\<lambda>l. l\<lparr>sl_locked := False, sl_pid := 0\<rparr>) s)"
  have u: "iunlock (Some ip) s = Ok () s1"
    using assms by (simp add: iunlock_def lock_simps s1_def)
  let ?s = "s1\<lparr>hw := acq LK_cons (hw s)\<rparr>"
  have f: "in_buf ?s = in_buf s" "in_r ?s = in_r s" "in_w ?s = in_w s" "in_e ?s = in_e s"
    by (simp_all add: s1_def wakeup1_def upd_slock_def)
  note cf = cooked_frame [OF f]
  obtain r where r: "consoleread_loop to_local (nat n) (nat n) [] ?s =
      Ok (Some (nat n - length (fst (take_line (nat n) (nat n) (fst (cooked s)))), fst (take_line (nat n) (nat n) (fst (cooked s)))))
        (?s\<lparr>in_r := r\<rparr>)" "in_ok (?s\<lparr>in_r := r\<rparr>)"
    "cooked (?s\<lparr>in_r := r\<rparr>) = (snd (take_line (nat n) (nat n) (fst (cooked s))), snd (cooked s))"
    "length (fst (take_line (nat n) (nat n) (fst (cooked s)))) \<le> nat n"
    using consoleread_loop_cooked [of ?s "nat n" "nat n" "[]"] assms(3,4) unfolding cf by auto
  let ?t = "s1\<lparr>in_r := r\<rparr>"
  have h: "hw s1 = hw s" "icache s1 = icache s" "length (ptable s1) = length (ptable s)" "p_pid (ptable s1 ! p) = p_pid (ptable s ! p)"
    "slocks s1 = (slocks s)(SL_inode ip := (slocks s (SL_inode ip))\<lparr>sl_locked := False, sl_pid := 0\<rparr>)"
    using assms(2) by (simp_all add: s1_def wakeup1_def upd_slock_def)
  have rel: "krelease LK_cons (?s\<lparr>in_r := r\<rparr>) = Ok () ?t" using qs h(1) by (simp add: lock_simps)
  define t where "t = upd_slock (SL_inode ip) (\<lambda>l. l\<lparr>sl_locked := True, sl_pid := p_pid (ptable s ! p)\<rparr>) ?t"
  have l: "ilock (Some ip) ?t = Ok () t"
    using assms(1,7,8) h acquiresleep_runs [of ?t p "SL_inode ip"] by (simp add: ilock_def t_def upd_slock_def)
  have tf: "in_ok t" "cooked t = (snd (take_line (nat n) (nat n) (fst (cooked s))), snd (cooked s))"
    using r(2,3) cooked_frame [of t "?s\<lparr>in_r := r\<rparr>"] by (simp_all add: t_def upd_slock_def)
  have ts: "slocks t = slocks s" "icache t = icache s" "hw t = hw s"
    using assms(5,6) h by (simp_all add: t_def upd_slock_def fun_eq_iff)
  have acqc: "kacquire LK_cons s1 = Ok () ?s" using qs h(1) by (simp add: lock_simps)
  show ?thesis
    unfolding consoleread_def u by (simp add: acqc r(1) rel l tf ts of_nat_diff r(4))
qed

definition typed :: "cst" where
  "typed = (let s = con_boot (\<lambda>_. []) (zero_inode\<lparr>i_ref := 1, i_valid := True\<rparr>) in
     s\<lparr>in_buf := [104, 105, 10, 120] @ replicate 124 0, in_w := 3, in_e := 4,
       slocks := (slocks s)(SL_inode 0 := (slocks s (SL_inode 0))\<lparr>sl_locked := True, sl_pid := p_pid (ptable s ! 0)\<rparr>)\<rparr>)"

theorem consoleread_delivers_line_witness:
  "succeeds (consoleread to_local 0 [] 100 typed) (\<lambda>(r, bs) t. r = 3 \<and> bs = [104, 105, 10] \<and> cooked t = ([], [120]))"
proof -
  have i: "in_ok typed" by (simp add: typed_def in_ok_def Let_def)
  have c: "cooked typed = ([104, 105, 10], [120])" by (simp add: typed_def Let_def cooked_def in_all_def ringq_def upt_rec)
  have l: "take_line 100 100 [104, 105, 10] = ([104, 105, 10], [])" by code_simp
  have r: "runs (hw typed) 0" "0 < length (ptable typed)"
    using txnD(8) [OF fs_boot_txn, of "\<lambda>_. []"] bc_okD(2) [OF txnD(1) [OF fs_boot_txn, of "\<lambda>_. []"]] by (simp_all add: typed_def Let_def)
  have s: "sl_locked (slocks typed (SL_inode 0))" "sl_pid (slocks typed (SL_inode 0)) = p_pid (ptable typed ! 0)"
    "1 \<le> i_ref (icache typed ! 0)" "i_valid (icache typed ! 0)" by (simp_all add: typed_def Let_def)
  have y: "line_ready (nat 100) (fst (cooked typed))" by (simp add: c line_ready_def)
  show ?thesis
    by (rule succeeds_mono [OF consoleread_delivers_line [OF r i y s]]) (auto simp: c l)
qed

end
