(* ===== verification/Fs.thy ===== *)
theory Fs
  imports Console
begin

text \<open>
  The upper layers of fs.c: file contents (\<open>readi\<close>, \<open>writei\<close>), directories (\<open>dirlookup\<close>, \<open>dirlink\<close>) and
  path names (\<open>skipelem\<close>, \<open>namex\<close>). Where \<open>readi\<close> puts its bytes and \<open>writei\<close> gets them is a parameter: an
  address (\<open>to_mem\<close>, \<open>from_mem\<close>) or a structure local to the caller (\<open>to_local\<close>, \<open>from_local\<close>). C strings
  local to the kernel are byte lists, the end of the list standing for the NUL.
\<close>

section \<open>Definitions\<close>

abbreviation (input) "DIRSIZ \<equiv> (14 :: nat)"
abbreviation (input) "ROOTDEV \<equiv> (1 :: u32)"
abbreviation (input) "ROOTINO \<equiv> (1 :: u32)"

definition dev_of :: "nat \<Rightarrow> 'z ist_scheme \<Rightarrow> device option" where
  "dev_of ip s = (let major = sint (i_major (icache s ! ip)) in
     if major < 0 \<or> 10 \<le> major then None else devsw s ! nat major)"

text \<open>One round copies what is left of the current block, at most what is still wanted.\<close>

function readi_loop ::
  "('d \<Rightarrow> byte list \<Rightarrow> 'z cst_scheme \<Rightarrow> ('d, 'z cst_scheme) out) \<Rightarrow> nat \<Rightarrow> 'd \<Rightarrow> u32 \<Rightarrow> nat \<Rightarrow>
     'z cst_scheme \<Rightarrow> ('d, 'z cst_scheme) out" where
  "readi_loop put ip dst off left s =
     (if left = 0 then Ok dst s
      else let bo = unat (off mod 512); m = min left (512 - bo) in
        andthen (bmap ip (off div 512) s) (\<lambda>addr s.
        andthen (bread (i_dev (icache s ! ip)) addr s) (\<lambda>bp s.
        andthen (put dst (take m (drop bo (b_data (bufs s ! bp)))) s) (\<lambda>dst s.
        andthen (brelse bp s) (\<lambda>_ s.
        readi_loop put ip dst (off + of_nat m) (left - m) s)))))"
  by pat_completeness auto

lemma chunk_pos: "0 < 512 - unat ((off :: u32) mod 512)"
proof -
  have "unat (off mod 512) = unat off mod 512" by (simp add: unat_mod)
  then show ?thesis by simp
qed

termination readi_loop
  by (relation "measure (\<lambda>(_, _, _, _, left, _). left)") (use chunk_pos in auto)

definition readi ::
  "('d \<Rightarrow> byte list \<Rightarrow> 'z cst_scheme \<Rightarrow> ('d, 'z cst_scheme) out) \<Rightarrow> nat \<Rightarrow> 'd \<Rightarrow> u32 \<Rightarrow> u32 \<Rightarrow>
     'z cst_scheme \<Rightarrow> (int \<times> 'd, 'z cst_scheme) out" where
  "readi put ip dst off n s =
     (let q = icache s ! ip in
      if i_type q = T_DEV
      then (case dev_of ip s of None \<Rightarrow> Ok (- 1, dst) s | Some Dev_console \<Rightarrow> consoleread put ip dst (sint n) s)
      else if i_size q < off \<or> off + n < off then Ok (- 1, dst) s
      else let n = (if i_size q < off + n then i_size q - off else n) in
        andthen (readi_loop put ip dst off (unat n) s) (\<lambda>dst s. Ok (sint n, dst) s))"

function writei_loop ::
  "('d \<Rightarrow> nat \<Rightarrow> 'z cst_scheme \<Rightarrow> (byte list \<times> 'd, 'z cst_scheme) out) \<Rightarrow> nat \<Rightarrow> 'd \<Rightarrow> u32 \<Rightarrow> nat \<Rightarrow>
     'z cst_scheme \<Rightarrow> (u32, 'z cst_scheme) out" where
  "writei_loop get ip src off left s =
     (if left = 0 then Ok off s
      else let bo = unat (off mod 512); m = min left (512 - bo) in
        andthen (bmap ip (off div 512) s) (\<lambda>addr s.
        andthen (bread (i_dev (icache s ! ip)) addr s) (\<lambda>bp s.
        andthen (get src m s) (\<lambda>(bs, src) s.
        andthen (log_write bp (set_data bp (put_bytes (b_data (bufs s ! bp)) bo bs) s)) (\<lambda>_ s.
        andthen (brelse bp s) (\<lambda>_ s.
        writei_loop get ip src (off + of_nat m) (left - m) s))))))"
  by pat_completeness auto

termination writei_loop
  by (relation "measure (\<lambda>(_, _, _, _, left, _). left)") (use chunk_pos in auto)

definition writei ::
  "('d \<Rightarrow> nat \<Rightarrow> 'z cst_scheme \<Rightarrow> (byte list \<times> 'd, 'z cst_scheme) out) \<Rightarrow> nat \<Rightarrow> 'd \<Rightarrow> u32 \<Rightarrow> u32 \<Rightarrow>
     'z cst_scheme \<Rightarrow> (int, 'z cst_scheme) out" where
  "writei get ip src off n s =
     (let q = icache s ! ip in
      if i_type q = T_DEV
      then (case dev_of ip s of None \<Rightarrow> Ok (- 1) s | Some Dev_console \<Rightarrow> consolewrite get ip src (sint n) s)
      else if i_size q < off \<or> off + n < off then Ok (- 1) s
      else if 140 * 512 < off + n then Ok (- 1) s
      else andthen (writei_loop get ip src off (unat n) s) (\<lambda>off s.
        andthen (if 0 < n \<and> i_size (icache s ! ip) < off
          then iupdate ip (upd_inode ip (\<lambda>q. q\<lparr>i_size := off\<rparr>) s) else Ok () s) (\<lambda>_ s.
        Ok (sint n) s)))"

primrec strncmp_bytes :: "nat \<Rightarrow> byte list \<Rightarrow> byte list \<Rightarrow> int" where
  "strncmp_bytes 0 p q = 0"
| "strncmp_bytes (Suc n) p q =
     (let a = (case p of [] \<Rightarrow> 0 | c # _ \<Rightarrow> c); b = (case q of [] \<Rightarrow> 0 | c # _ \<Rightarrow> c) in
      if a \<noteq> 0 \<and> a = b then strncmp_bytes n (tl p) (tl q) else uint a - uint b)"

definition namecmp :: "byte list \<Rightarrow> byte list \<Rightarrow> int" where
  "namecmp p q = strncmp_bytes DIRSIZ p q"

definition strncpy_bytes :: "byte list \<Rightarrow> nat \<Rightarrow> byte list" where
  "strncpy_bytes t n = take n (takeWhile (\<lambda>c. c \<noteq> 0) t @ replicate n 0)"

text \<open>The offsets of the entries of a directory; reading the last one of a directory whose size is not a multiple of
  16 comes up short and panics.\<close>

definition entries :: "u32 \<Rightarrow> u32 list" where
  "entries sz = map (\<lambda>k. of_nat (16 * k)) [0..<(unat sz + 15) div 16]"

definition dirlookup :: "nat \<Rightarrow> byte list \<Rightarrow> 'z cst_scheme \<Rightarrow> ((nat \<times> u32) option, 'z cst_scheme) out" where
  "dirlookup dp name s =
     (if i_type (icache s ! dp) \<noteq> T_DIR then Panic ''dirlookup not DIR''
      else forany (\<lambda>off s.
        andthen (readi to_local dp [] off 16 s) (\<lambda>(r, bs) s.
        if r \<noteq> 16 then Panic ''dirlookup read''
        else let de = get_dirent bs in
          if de_inum de = 0 then Ok None s
          else if namecmp name (de_name de) = 0
          then andthen (iget (i_dev (icache s ! dp)) (ucast (de_inum de)) s) (\<lambda>ip s. Ok (Some (ip, off)) s)
          else Ok None s)) (entries (i_size (icache s ! dp))) s)"

definition free_dirent :: "nat \<Rightarrow> u32 \<Rightarrow> 'z cst_scheme \<Rightarrow> (u32 option, 'z cst_scheme) out" where
  "free_dirent dp off s =
     andthen (readi to_local dp [] off 16 s) (\<lambda>(r, bs) s.
     if r \<noteq> 16 then Panic ''dirlink read''
     else if de_inum (get_dirent bs) = 0 then Ok (Some off) s else Ok None s)"

definition dirlink :: "nat \<Rightarrow> byte list \<Rightarrow> u32 \<Rightarrow> 'z cst_scheme \<Rightarrow> (int, 'z cst_scheme) out" where
  "dirlink dp name inum s =
     andthen (dirlookup dp name s) (\<lambda>r s.
     case r of Some (ip, _) \<Rightarrow> andthen (iput ip s) (\<lambda>_ s. Ok (- 1) s)
     | None \<Rightarrow>
       andthen (forany (free_dirent dp) (entries (i_size (icache s ! dp))) s) (\<lambda>e s.
       let off = (case e of Some off \<Rightarrow> off | None \<Rightarrow> of_nat (16 * length (entries (i_size (icache s ! dp)))));
           de = \<lparr>de_inum = ucast inum, de_name = strncpy_bytes name DIRSIZ\<rparr> in
       andthen (writei from_local dp (dirent_bytes de) off 16 s) (\<lambda>r s.
       if r \<noteq> 16 then Panic ''dirlink'' else Ok 0 s)))"

definition skipelem :: "byte list \<Rightarrow> (byte list \<times> byte list) option" where
  "skipelem path =
     (let path = dropWhile (\<lambda>c. c = 47) path in
      if path = [] then None
      else let elem = takeWhile (\<lambda>c. c \<noteq> 47) path; path = dropWhile (\<lambda>c. c \<noteq> 47) path in
        Some (take DIRSIZ elem, dropWhile (\<lambda>c. c = 47) path))"

lemma skipelem_shorter: "skipelem path = Some (name, rest) \<Longrightarrow> length rest < length path"
proof -
  assume a: "skipelem path = Some (name, rest)"
  let ?p = "dropWhile (\<lambda>c. c = 47) path"
  have ne: "?p \<noteq> []" and r: "rest = dropWhile (\<lambda>c. c = 47) (dropWhile (\<lambda>c. c \<noteq> 47) ?p)"
    using a by (auto simp: skipelem_def Let_def split: if_splits)
  have "hd ?p \<noteq> 47" using hd_dropWhile [OF ne] by simp
  then have "length (dropWhile (\<lambda>c. c \<noteq> 47) ?p) < length ?p"
    using ne by (cases ?p) (auto simp: less_Suc_eq_le intro: length_dropWhile_le)
  then show ?thesis
    unfolding r using length_dropWhile_le [of "\<lambda>c. c = 47" "dropWhile (\<lambda>c. c \<noteq> 47) ?p"]
      length_dropWhile_le [of "\<lambda>c. c = 47" path] by linarith
qed

function namex_loop ::
  "bool \<Rightarrow> nat \<Rightarrow> byte list \<Rightarrow> byte list \<Rightarrow> 'z cst_scheme \<Rightarrow> ((nat \<times> byte list) option, 'z cst_scheme) out" where
  "namex_loop parent ip name path s =
     (case skipelem path of
        None \<Rightarrow> if parent then andthen (iput ip s) (\<lambda>_ s. Ok None s) else Ok (Some (ip, name)) s
      | Some (name, path) \<Rightarrow>
        andthen (ilock (Some ip) s) (\<lambda>_ s.
        if i_type (icache s ! ip) \<noteq> T_DIR then andthen (iunlockput ip s) (\<lambda>_ s. Ok None s)
        else if parent \<and> path = [] then andthen (iunlock (Some ip) s) (\<lambda>_ s. Ok (Some (ip, name)) s)
        else andthen (dirlookup ip name s) (\<lambda>r s.
          andthen (iunlockput ip s) (\<lambda>_ s.
          case r of None \<Rightarrow> Ok None s
          | Some (nxt, _) \<Rightarrow> namex_loop parent nxt name path s))))"
  by pat_completeness auto

termination namex_loop
  by (relation "measure (\<lambda>(_, _, _, path, _). length path)") (auto dest: skipelem_shorter)

definition namex :: "byte list \<Rightarrow> bool \<Rightarrow> 'z cst_scheme \<Rightarrow> ((nat \<times> byte list) option, 'z cst_scheme) out" where
  "namex path parent s =
     andthen (if path \<noteq> [] \<and> hd path = 47 then iget ROOTDEV ROOTINO s
       else andthen (thisproc s) (\<lambda>p s.
         case p_cwd (ptable s ! p) of None \<Rightarrow> Undef ''null inode'' | Some ip \<Rightarrow> idup ip s)) (\<lambda>ip s.
     namex_loop parent ip [] path s)"

definition namei :: "byte list \<Rightarrow> 'z cst_scheme \<Rightarrow> (nat option, 'z cst_scheme) out" where
  "namei path s = andthen (namex path False s) (\<lambda>r s. Ok (map_option fst r) s)"

definition nameiparent :: "byte list \<Rightarrow> 'z cst_scheme \<Rightarrow> ((nat \<times> byte list) option, 'z cst_scheme) out" where
  "nameiparent path s = namex path True s"

declare readi_loop.simps [simp del] writei_loop.simps [simp del] namex_loop.simps [simp del]

section \<open>Path names\<close>

text \<open>
  What a path means: its components are the maximal runs without a slash. \<open>path_names\<close> is the sequence of names
  the loop of \<open>namex\<close> goes through.
\<close>

definition split_slash :: "byte list \<Rightarrow> byte list list" where
  "split_slash path = foldr (\<lambda>c es. if c = 47 then [] # es else (c # hd es) # tl es) path [[]]"

definition elems :: "byte list \<Rightarrow> byte list list" where
  "elems path = filter (\<lambda>e. e \<noteq> []) (split_slash path)"

function path_names :: "byte list \<Rightarrow> byte list list" where
  "path_names path = (case skipelem path of None \<Rightarrow> [] | Some (name, rest) \<Rightarrow> name # path_names rest)"
  by pat_completeness auto

termination path_names
  by (relation "measure length") (auto dest: skipelem_shorter)

declare path_names.simps [simp del]

lemma split_slash_simps [simp]:
  "split_slash [] = [[]]" "split_slash (47 # p) = [] # split_slash p"
  "c \<noteq> 47 \<Longrightarrow> split_slash (c # p) = (c # hd (split_slash p)) # tl (split_slash p)"
  by (simp_all add: split_slash_def)

lemma split_slash_nonempty: "split_slash p \<noteq> []"
  by (cases p; cases "hd p = 47") auto

lemma elems_slash [simp]: "elems [] = []" "elems (47 # p) = elems p"
  by (simp_all add: elems_def)

lemma elems_skip: "elems (dropWhile (\<lambda>c. c = 47) p) = elems p"
  by (induction p) auto

lemma split_slash_take:
  "split_slash p = takeWhile (\<lambda>c. c \<noteq> 47) p #
     (case dropWhile (\<lambda>c. c \<noteq> 47) p of [] \<Rightarrow> [] | _ # q \<Rightarrow> split_slash q)"
proof (induction p)
  case (Cons c p)
  then show ?case by (cases "c = 47") auto
qed simp

lemma elems_take:
  assumes "p \<noteq> []" and "hd p \<noteq> 47"
  shows "elems p = takeWhile (\<lambda>c. c \<noteq> 47) p # elems (dropWhile (\<lambda>c. c \<noteq> 47) p)"
proof -
  let ?t = "takeWhile (\<lambda>c. c \<noteq> 47) p" and ?d = "dropWhile (\<lambda>c. c \<noteq> 47) p"
  have t: "?t \<noteq> []" using assms by (cases p) auto
  have "elems p = ?t # filter (\<lambda>e. e \<noteq> []) (case ?d of [] \<Rightarrow> [] | _ # q \<Rightarrow> split_slash q)"
    unfolding elems_def split_slash_take [of p] using t by simp
  also have "filter (\<lambda>e. e \<noteq> []) (case ?d of [] \<Rightarrow> [] | _ # q \<Rightarrow> split_slash q) = elems ?d"
  proof (cases ?d)
    case (Cons c q)
    then have "c = 47" using hd_dropWhile [of "\<lambda>c. c \<noteq> 47" p] by simp
    then show ?thesis unfolding Cons by (simp add: elems_def)
  next
    case Nil
    show ?thesis unfolding Nil by simp
  qed
  finally show ?thesis .
qed

lemma skipelem_elems:
  "skipelem p = (case elems p of [] \<Rightarrow> None | e # _ \<Rightarrow>
     Some (take DIRSIZ e, dropWhile (\<lambda>c. c = 47) (dropWhile (\<lambda>c. c \<noteq> 47) (dropWhile (\<lambda>c. c = 47) p))))"
proof (cases "dropWhile (\<lambda>c. c = 47) p = []")
  case True
  then have "elems p = []" using elems_skip [of p] unfolding True by simp
  then show ?thesis using True by (simp add: skipelem_def Let_def)
next
  case False
  then have "hd (dropWhile (\<lambda>c. c = 47) p) \<noteq> 47" using hd_dropWhile by blast
  then show ?thesis
    unfolding skipelem_def Let_def elems_skip [of p, symmetric] elems_take [OF False \<open>hd _ \<noteq> 47\<close>] using False by simp
qed

lemma skipelem_rest:
  assumes "skipelem p = Some (name, rest)"
  obtains e where "elems p = e # elems rest" and "name = take DIRSIZ e"
proof -
  let ?q = "dropWhile (\<lambda>c. c = 47) p"
  have q: "?q \<noteq> []" and r: "rest = dropWhile (\<lambda>c. c = 47) (dropWhile (\<lambda>c. c \<noteq> 47) ?q)"
    using assms by (auto simp: skipelem_def Let_def split: if_splits)
  have "hd ?q \<noteq> 47" using hd_dropWhile [OF q] by blast
  with elems_take [OF q this] have e: "elems p = takeWhile (\<lambda>c. c \<noteq> 47) ?q # elems rest"
    unfolding r by (simp add: elems_skip)
  with assms show thesis by (intro that [OF e]) (simp add: skipelem_elems)
qed

lemma elems_Nil_iff: "elems p = [] \<longleftrightarrow> dropWhile (\<lambda>c. c = 47) p = []"
proof
  assume "elems p = []"
  then show "dropWhile (\<lambda>c. c = 47) p = []"
    using elems_take [of "dropWhile (\<lambda>c. c = 47) p"] hd_dropWhile [of "\<lambda>c. c = 47" p] by (auto simp: elems_skip)
next
  assume n: "dropWhile (\<lambda>c. c = 47) p = []"
  show "elems p = []" using elems_skip [of p] unfolding n by simp
qed

lemma skipelem_last:
  assumes "skipelem p = Some (name, rest)"
  shows "rest = [] \<longleftrightarrow> elems rest = []"
proof -
  have "rest = dropWhile (\<lambda>c. c = 47) rest"
    using assms by (auto simp: skipelem_def Let_def split: if_splits)
  then show ?thesis using elems_Nil_iff [of rest] by simp
qed

text \<open>
  C30: Path resolution visits the components of the path, cut to DIRSIZ bytes: the names \<open>skipelem\<close> yields one after the other are
  the maximal slash-free runs of the path, however many slashes separate them, lead or trail. And the
  test \<open>*path == '\<setminus>0'\<close> by which \<open>nameiparent\<close> stops early is true exactly at the last component.
\<close>

theorem skipelem_components:
  "path_names path = map (take DIRSIZ) (elems path) \<and>
   (skipelem path = Some (name, rest) \<longrightarrow> (rest = [] \<longleftrightarrow> length (elems path) = 1))"
proof
  show "path_names path = map (take DIRSIZ) (elems path)"
  proof (induction path rule: path_names.induct)
    case (1 path)
    show ?case
    proof (cases "skipelem path")
      case None
      then show ?thesis by (subst path_names.simps) (auto simp: skipelem_elems split: list.splits)
    next
      case (Some nr)
      obtain n r where nr: "nr = (n, r)" by fastforce
      obtain e where "elems path = e # elems r" "n = take DIRSIZ e" using skipelem_rest [of path n r] Some nr by auto
      then show ?thesis using "1.IH" [of nr n r] Some nr by (subst path_names.simps) simp
    qed
  qed
  show "skipelem path = Some (name, rest) \<longrightarrow> (rest = [] \<longleftrightarrow> length (elems path) = 1)"
  proof
    assume a: "skipelem path = Some (name, rest)"
    obtain e where "elems path = e # elems rest" using skipelem_rest [OF a] by blast
    then show "rest = [] \<longleftrightarrow> length (elems path) = 1" using skipelem_last [OF a] by simp
  qed
qed

theorem skipelem_components_witness:
  "path_names [47, 47, 97, 47, 98, 98, 47, 47] = [[97], [98, 98]] \<and> skipelem [97, 47] = Some ([97], [])"
  using skipelem_components [of "[47, 47, 97, 47, 98, 98, 47, 47]" "[97]" "[98, 98, 47, 47]"]
  by (simp add: elems_def split_slash_def skipelem_def)

end
