(* ===== verification/Pipe.thy ===== *)
theory Pipe
  imports Fs
begin

text \<open>
  Pipes (pipe.c without \<open>pipealloc\<close>, which works on files). A pipe occupies a page obtained from \<open>kalloc\<close>
  and is named by its address; \<open>pipes\<close> gives the structure at an address. The counters run freely and wrap around at
  \<open>2 ^ 32\<close>; the contents of a pipe are the ring between them.
\<close>

section \<open>Definitions\<close>

abbreviation (input) "PIPESIZE \<equiv> (512 :: u32)"

record pipe =
  pi_data :: "byte list"
  pi_nread :: u32
  pi_nwrite :: u32
  pi_readopen :: bool
  pi_writeopen :: bool

record pst = cst +
  pipes :: "addr \<Rightarrow> pipe"

definition upd_pipe :: "addr \<Rightarrow> (pipe \<Rightarrow> pipe) \<Rightarrow> 'z pst_scheme \<Rightarrow> 'z pst_scheme" where
  "upd_pipe p f s = s\<lparr>pipes := (pipes s)(p := f (pipes s p))\<rparr>"

definition pipeclose :: "addr \<Rightarrow> bool \<Rightarrow> 'z pst_scheme \<Rightarrow> (unit, 'z pst_scheme) out" where
  "pipeclose p writable s =
     andthen (kacquire (LK_pipe p) s) (\<lambda>_ s.
     andthen (if writable then wakeup (Ch_nread p) (upd_pipe p (\<lambda>q. q\<lparr>pi_writeopen := False\<rparr>) s)
       else wakeup (Ch_nwrite p) (upd_pipe p (\<lambda>q. q\<lparr>pi_readopen := False\<rparr>) s)) (\<lambda>_ s.
     if \<not> pi_readopen (pipes s p) \<and> \<not> pi_writeopen (pipes s p)
     then andthen (krelease (LK_pipe p) s) (\<lambda>_ s. kfree p s)
     else krelease (LK_pipe p) s))"

definition pipe_put :: "addr \<Rightarrow> byte \<Rightarrow> 'z pst_scheme \<Rightarrow> 'z pst_scheme" where
  "pipe_put p c s = upd_pipe p (\<lambda>q. q\<lparr>pi_data := (pi_data q)[unat (pi_nwrite q mod PIPESIZE) := c],
     pi_nwrite := pi_nwrite q + 1\<rparr>) s"

text \<open>The result says whether all bytes went in; otherwise the writer gave up on a full pipe.\<close>

primrec pipewrite_loop :: "addr \<Rightarrow> nat \<Rightarrow> addr \<Rightarrow> 'z pst_scheme \<Rightarrow> (bool, 'z pst_scheme) out" where
  "pipewrite_loop p 0 src s = Ok True s"
| "pipewrite_loop p (Suc n) src s =
     (if pi_nwrite (pipes s p) = pi_nread (pipes s p) + PIPESIZE
      then if \<not> pi_readopen (pipes s p) then Ok False s
        else andthen (thisproc s) (\<lambda>i s.
          if p_killed (ptable s ! i) then Ok False s
          else andthen (wakeup (Ch_nread p) s) (\<lambda>_ s. suspend (Ch_nwrite p) (LK_pipe p) s))
      else andthen (umem_read 1 src s) (\<lambda>bs s.
        pipewrite_loop p n (src + 1) (pipe_put p (hd bs) s)))"

definition pipewrite :: "addr \<Rightarrow> addr \<Rightarrow> int \<Rightarrow> 'z pst_scheme \<Rightarrow> (int, 'z pst_scheme) out" where
  "pipewrite p addr n s =
     andthen (kacquire (LK_pipe p) s) (\<lambda>_ s.
     andthen (pipewrite_loop p (nat n) addr s) (\<lambda>done s.
     if \<not> done then andthen (krelease (LK_pipe p) s) (\<lambda>_ s. Ok (- 1) s)
     else andthen (wakeup (Ch_nread p) s) (\<lambda>_ s.
       andthen (krelease (LK_pipe p) s) (\<lambda>_ s. Ok n s))))"

text \<open>The copy loop of a reader: \<open>n\<close> bytes still fit; the result is how many were read.\<close>

primrec piperead_loop :: "addr \<Rightarrow> nat \<Rightarrow> addr \<Rightarrow> 'z pst_scheme \<Rightarrow> (nat, 'z pst_scheme) out" where
  "piperead_loop p 0 dst s = Ok 0 s"
| "piperead_loop p (Suc n) dst s =
     (if pi_nread (pipes s p) = pi_nwrite (pipes s p) then Ok 0 s
      else let c = pi_data (pipes s p) ! unat (pi_nread (pipes s p) mod PIPESIZE);
               s = upd_pipe p (\<lambda>q. q\<lparr>pi_nread := pi_nread q + 1\<rparr>) s in
        andthen (umem_write [c] dst s) (\<lambda>_ s.
        andthen (piperead_loop p n (dst + 1) s) (\<lambda>i s. Ok (Suc i) s)))"

definition piperead :: "addr \<Rightarrow> addr \<Rightarrow> int \<Rightarrow> 'z pst_scheme \<Rightarrow> (int, 'z pst_scheme) out" where
  "piperead p addr n s =
     andthen (kacquire (LK_pipe p) s) (\<lambda>_ s.
     if pi_nread (pipes s p) = pi_nwrite (pipes s p) \<and> pi_writeopen (pipes s p)
     then andthen (thisproc s) (\<lambda>i s.
       if p_killed (ptable s ! i) then andthen (krelease (LK_pipe p) s) (\<lambda>_ s. Ok (- 1) s)
       else suspend (Ch_nread p) (LK_pipe p) s)
     else andthen (piperead_loop p (nat n) addr s) (\<lambda>i s.
       andthen (wakeup (Ch_nwrite p) s) (\<lambda>_ s.
       andthen (krelease (LK_pipe p) s) (\<lambda>_ s. Ok (int i) s))))"

section \<open>The pipe as a queue\<close>

interpretation pipe_ring: ring_buffer 512
  by unfold_locales simp_all

definition pipe_ok :: "pipe \<Rightarrow> bool" where
  "pipe_ok q \<longleftrightarrow> length (pi_data q) = 512 \<and> unat (pi_nwrite q - pi_nread q) \<le> 512"

definition pipe_bytes :: "pipe \<Rightarrow> byte list" where
  "pipe_bytes q = ringq 512 (pi_data q) (pi_nread q) (pi_nwrite q)"

abbreviation q_put :: "byte \<Rightarrow> pipe \<Rightarrow> pipe" where
  "q_put c q \<equiv> q\<lparr>pi_data := (pi_data q)[unat (pi_nwrite q mod PIPESIZE) := c], pi_nwrite := pi_nwrite q + 1\<rparr>"

lemma pipe_len: "length (pipe_bytes q) = unat (pi_nwrite q - pi_nread q)"
  using pipe_ring.length_ringq by (simp add: pipe_bytes_def)

lemma pipe_full_iff: "pi_nwrite q = pi_nread q + PIPESIZE \<longleftrightarrow> length (pipe_bytes q) = 512"
proof -
  have "pi_nwrite q = pi_nread q + PIPESIZE \<longleftrightarrow> pi_nwrite q - pi_nread q = PIPESIZE" by (simp add: algebra_simps)
  then show ?thesis unfolding pipe_len by (simp add: word_unat_eq_iff)
qed

lemma pipe_empty_iff: "pi_nread q = pi_nwrite q \<longleftrightarrow> pipe_bytes q = []"
proof -
  have "pipe_bytes q = [] \<longleftrightarrow> pi_nwrite q - pi_nread q = 0" using pipe_len [of q] by (simp add: unat_eq_0 flip: length_0_conv)
  then show ?thesis by auto
qed

lemma q_put_queue:
  assumes "pipe_ok q" and "length (pipe_bytes q) < 512"
  shows "pipe_ok (q_put c q)" "pipe_bytes (q_put c q) = pipe_bytes q @ [c]"
proof -
  have lt: "unat (pi_nwrite q - pi_nread q) < 512" "length (pi_data q) = 512" using assms by (simp_all add: pipe_len pipe_ok_def)
  show b: "pipe_bytes (q_put c q) = pipe_bytes q @ [c]" using pipe_ring.ringq_push [OF lt] by (simp add: pipe_bytes_def)
  show "pipe_ok (q_put c q)" using lt arg_cong [OF b, of length] by (simp add: pipe_len pipe_ok_def)
qed

lemma q_puts_queue:
  "pipe_ok q \<Longrightarrow> length (pipe_bytes q) + length cs \<le> 512 \<Longrightarrow>
   pipe_ok (fold q_put cs q) \<and> pipe_bytes (fold q_put cs q) = pipe_bytes q @ cs"
proof (induction cs arbitrary: q)
  case (Cons c cs)
  have "pipe_ok (q_put c q)" "pipe_bytes (q_put c q) = pipe_bytes q @ [c]"
    using q_put_queue [OF Cons.prems(1)] Cons.prems(2) by simp_all
  then show ?case using Cons.IH [of "q_put c q"] Cons.prems(2) by simp
qed simp

lemma q_puts_open [simp]: "pi_readopen (fold q_put cs q) = pi_readopen q" "pi_writeopen (fold q_put cs q) = pi_writeopen q"
  "pi_nread (fold q_put cs q) = pi_nread q"
  by (induction cs arbitrary: q) simp_all

lemma q_get_queue:
  assumes "pipe_ok q" and "pipe_bytes q \<noteq> []"
  shows "pi_data q ! unat (pi_nread q mod PIPESIZE) = hd (pipe_bytes q)"
    "pipe_bytes (q\<lparr>pi_nread := pi_nread q + 1\<rparr>) = tl (pipe_bytes q)" "pipe_ok (q\<lparr>pi_nread := pi_nread q + 1\<rparr>)"
proof -
  have ne: "pi_nread q \<noteq> pi_nwrite q" using assms(2) pipe_empty_iff by blast
  note p = pipe_ring.ringq_pop [OF ne, of "pi_data q"]
  show "pi_data q ! unat (pi_nread q mod PIPESIZE) = hd (pipe_bytes q)"
    and b: "pipe_bytes (q\<lparr>pi_nread := pi_nread q + 1\<rparr>) = tl (pipe_bytes q)" using p by (simp_all add: pipe_bytes_def)
  show "pipe_ok (q\<lparr>pi_nread := pi_nread q + 1\<rparr>)"
    using assms(1) arg_cong [OF b, of length] by (auto simp: pipe_len pipe_ok_def)
qed

lemma upd_pipe_sel [simp]:
  "pipes (upd_pipe p f s) = (pipes s)(p := f (pipes s p))" "hw (upd_pipe p f s) = hw s" "mem (upd_pipe p f s) = mem s"
  "ptable (upd_pipe p f s) = ptable s"
  by (simp_all add: upd_pipe_def)

lemma upd_pipe_comp: "upd_pipe p f (upd_pipe p g s) = upd_pipe p (f \<circ> g) s" "upd_pipe p id s = s" "upd_pipe p (\<lambda>q. q) s = s"
  by (simp_all add: upd_pipe_def)

text \<open>The state a writer leaves when it goes to sleep on the full pipe.\<close>

definition write_wait :: "addr \<Rightarrow> nat \<Rightarrow> machine \<Rightarrow> 'z pst_scheme \<Rightarrow> 'z pst_scheme" where
  "write_wait p i h s = upd_proc i (\<lambda>q. q\<lparr>p_chan := Some (Ch_nwrite p), p_state := SLEEPING\<rparr>)
     ((wakeup1 (Ch_nread p) s)\<lparr>hw := acq LK_ptable h\<rparr>)"

lemma pipewrite_loop_fills:
  assumes "runs h i" "depth h = 0" "i < length (ptable s)" "hw s = acq (LK_pipe p) h"
    and "pipe_ok (pipes s p)" "ureads n src s = Some bs"
  defines "room \<equiv> 512 - length (pipe_bytes (pipes s p))"
  shows "pipewrite_loop p n src s = (let t = upd_pipe p (fold q_put (take room bs)) s in
    if n \<le> room then Ok True t
    else if \<not> pi_readopen (pipes s p) \<or> p_killed (ptable s ! i) then Ok False t else Swtch (write_wait p i h t))"
  using assms(3-6) unfolding room_def
proof (induction n arbitrary: src s bs)
  case 0
  then show ?case by (simp add: upd_pipe_comp(3))
next
  case (Suc n)
  have q: "quiet h" "cur h = Some i" using assms(1) by (simp_all add: runs_def)
  note qs = quiet_simps [OF q(1)]
  have le: "length (pipe_bytes (pipes s p)) \<le> 512" using Suc.prems(3) by (simp add: pipe_len pipe_ok_def)
  show ?case
  proof (cases "length (pipe_bytes (pipes s p)) = 512")
    case True
    have sl: "suspend (Ch_nwrite p) (LK_pipe p) (wakeup1 (Ch_nread p) s) = Swtch (write_wait p i h s)"
      using sleep_hands_over [OF q(1) assms(2) q(2), of "LK_pipe p" "wakeup1 (Ch_nread p) s" "Ch_nwrite p"] Suc.prems(1,2)
      by (simp add: suspend_def write_wait_def)
    have w: "wakeup (Ch_nread p) s = Ok () (wakeup1 (Ch_nread p) s)" and c: "thisproc s = Ok i s"
      using Suc.prems(2) qs acq_frame [OF qs(1)] q(2) by (simp_all add: wakeup_free on_hw_ok)
    show ?thesis
      using True pipe_full_iff [of "pipes s p"] by (simp add: w c sl upd_pipe_comp(3))
  next
    case False
    then have lt: "length (pipe_bytes (pipes s p)) < 512" using le by simp
    obtain a bs' where a: "vtrans False src s = Some a" "bs = mem s a # bs'" "ureads n (src + 1) s = Some bs'"
      using Suc.prems(4) by (auto split: option.splits)
    let ?s = "upd_pipe p (q_put (mem s a)) s"
    have r: "umem_read 1 src s = Ok [mem s a] s" using a(1) by (simp add: umem_read_def)
    note pq = q_put_queue [OF Suc.prems(3) lt, of "mem s a"]
    have u: "ureads n (src + 1) ?s = Some bs'" using a(3) ureads_cong [of ?s s] by simp
    have room: "512 - length (pipe_bytes (pipes s p)) = Suc (512 - length (pipe_bytes (pipes ?s p)))" using lt pq(2) by simp
    have c: "upd_pipe p (fold q_put cs) ?s = upd_pipe p (fold q_put (mem s a # cs)) s" for cs by (simp add: upd_pipe_comp)
    have e: "pipewrite_loop p (Suc n) src s = pipewrite_loop p n (src + 1) ?s"
      using False pipe_full_iff [of "pipes s p"] r by (simp add: pipe_put_def)
    show ?thesis
      unfolding e Suc.IH [of ?s, OF _ _ _ u, simplified, OF Suc.prems(1,2) pq(1)] room a(2) take_Suc_Cons
      by (simp add: c Let_def comp_def)
  qed
qed

lemma write_wait_sel:
  assumes "i < length (ptable s)"
  shows "pipes (write_wait p i h s) = pipes s" "p_state (ptable (write_wait p i h s) ! i) = SLEEPING"
    "p_chan (ptable (write_wait p i h s) ! i) = Some (Ch_nwrite p)" "hw (write_wait p i h s) = acq LK_ptable h"
  using assms by (simp_all add: write_wait_def upd_proc_def wakeup1_def)

lemma wakeup1_pipes [simp]: "pipes (wakeup1 ch s) = pipes s" "mem (wakeup1 ch s) = mem s"
  by (simp_all add: wakeup1_def)

lemma wakeup1_wakes:
  "j < length (ptable s) \<Longrightarrow> \<not> (p_state (ptable (wakeup1 ch s) ! j) = SLEEPING \<and> p_chan (ptable (wakeup1 ch s) ! j) = Some ch)"
  by (simp add: wakeup1_def)

definition woken :: "chan \<Rightarrow> 'z kst_scheme \<Rightarrow> bool" where
  "woken ch s \<longleftrightarrow> (\<forall>q \<in> set (ptable s). \<not> (p_state q = SLEEPING \<and> p_chan q = Some ch))"

lemma woken_wakeup1: "woken ch (wakeup1 ch s)"
  using wakeup1_wakes [of _ s ch] by (fastforce simp: woken_def in_set_conv_nth)

lemma woken_hw [simp]: "woken ch (s\<lparr>hw := h\<rparr>) = woken ch s"
  by (simp add: woken_def)

lemma piperead_loop_takes:
  assumes "pipe_ok (pipes s p)" "uwrites (take n (pipe_bytes (pipes s p))) dst s = Some u"
  shows "\<exists>f. piperead_loop p n dst s = Ok (min n (length (pipe_bytes (pipes s p)))) (upd_pipe p f (s\<lparr>mem := mem u\<rparr>)) \<and>
    pipe_ok (f (pipes s p)) \<and> pipe_bytes (f (pipes s p)) = drop n (pipe_bytes (pipes s p)) \<and>
    pi_writeopen (f (pipes s p)) = pi_writeopen (pipes s p)"
  using assms
proof (induction n arbitrary: dst s u)
  case 0
  then have "s\<lparr>mem := mem u\<rparr> = s" by simp
  then show ?case using 0 by (intro exI [of _ id]) (simp add: upd_pipe_comp)
next
  case (Suc n)
  show ?case
  proof (cases "pipe_bytes (pipes s p)")
    case Nil
    then have "s\<lparr>mem := mem u\<rparr> = s" using Suc.prems(2) by simp
    then show ?thesis using Nil Suc.prems(1) pipe_empty_iff [of "pipes s p"] by (intro exI [of _ id]) (simp add: upd_pipe_comp)
  next
    case (Cons c cs)
    note g = q_get_queue [OF Suc.prems(1)]
    let ?f = "\<lambda>q. q\<lparr>pi_nread := pi_nread q + 1\<rparr>"
    obtain a where a: "vtrans True dst s = Some a" "uwrites (take n cs) (dst + 1) (s\<lparr>mem := (mem s)(a := c)\<rparr>) = Some u"
      using Suc.prems(2) Cons by (auto split: option.splits)
    let ?s = "(upd_pipe p ?f s)\<lparr>mem := (mem s)(a := c)\<rparr>"
    have w: "umem_write [c] dst (upd_pipe p ?f s) = Ok () ?s"
      using a(1) vtrans_cong [of "upd_pipe p ?f s" s True dst] by (simp add: umem_write_def)
    have b: "pipe_ok (pipes ?s p)" "pipe_bytes (pipes ?s p) = cs" using g Cons by simp_all
    have u: "uwrites (take n (pipe_bytes (pipes ?s p))) (dst + 1) ?s = Some (?s\<lparr>mem := mem u\<rparr>)"
      unfolding b(2) by (rule uwrites_cong [OF a(2)]) simp_all
    obtain f where f: "piperead_loop p n (dst + 1) ?s = Ok (min n (length cs)) (upd_pipe p f (?s\<lparr>mem := mem u\<rparr>))"
      "pipe_ok (f (pipes ?s p))" "pipe_bytes (f (pipes ?s p)) = drop n cs" "pi_writeopen (f (pipes ?s p)) = pi_writeopen (pipes ?s p)"
      using Suc.IH [OF b(1) u] unfolding b(2) by auto
    have st: "upd_pipe p f (?s\<lparr>mem := mem u\<rparr>) = upd_pipe p (f \<circ> ?f) (s\<lparr>mem := mem u\<rparr>)" by (simp add: upd_pipe_def)
    have e: "piperead_loop p (Suc n) dst s = Ok (min (Suc n) (length (pipe_bytes (pipes s p)))) (upd_pipe p (f \<circ> ?f) (s\<lparr>mem := mem u\<rparr>))"
      using Cons g(1) pipe_empty_iff [of "pipes s p"] w f(1) st by (simp add: Let_def)
    show ?thesis using e f(2-4) Cons by (intro exI [of _ "f \<circ> ?f"]) (simp add: comp_def)
  qed
qed

section \<open>Correctness\<close>

text \<open>
  C15: \<open>pipewrite\<close> implements appending to a bounded queue of bytes. It stores as much of the data, in order, behind what the
  pipe holds as fits into 512 bytes, across the wrap-around of the counters. If everything fits it returns \<open>n\<close> with all
  readers woken; otherwise it fails with -1 exactly if the read end is closed or the writer has been killed, and else
  sleeps until there is room, with the readers woken and the pipe's lock free.
\<close>

theorem pipewrite_appends:
  assumes "runs (hw s) i" and "depth (hw s) = 0" and "i < length (ptable s)" and "pipe_ok (pipes s p)"
    and "ureads (nat n) addr s = Some bs"
  defines "room \<equiv> 512 - length (pipe_bytes (pipes s p))"
  shows "case pipewrite p addr n s of
      Ok r t \<Rightarrow> pipe_ok (pipes t p) \<and> pipe_bytes (pipes t p) = pipe_bytes (pipes s p) @ take room bs \<and> hw t = hw s \<and>
        (if length bs \<le> room then r = n \<and> woken (Ch_nread p) t
         else r = - 1 \<and> (\<not> pi_readopen (pipes s p) \<or> p_killed (ptable s ! i)))
    | Swtch t \<Rightarrow> pipe_ok (pipes t p) \<and> pipe_bytes (pipes t p) = pipe_bytes (pipes s p) @ take room bs \<and>
        room < length bs \<and> pi_readopen (pipes s p) \<and> \<not> p_killed (ptable s ! i) \<and> free (LK_pipe p) (hw t) \<and>
        p_state (ptable t ! i) = SLEEPING \<and> p_chan (ptable t ! i) = Some (Ch_nwrite p)
    | _ \<Rightarrow> False"
proof -
  have q: "quiet (hw s)" using assms(1) by (simp add: runs_def)
  note qs = quiet_simps [OF q]
  let ?s = "s\<lparr>hw := acq (LK_pipe p) (hw s)\<rparr>"
  define t where "t = upd_pipe p (fold q_put (take room bs)) ?s"
  have "ureads (nat n) addr ?s = Some bs" using assms(5) ureads_cong [of ?s s] by (simp add: acq_sel)
  then have l: "pipewrite_loop p (nat n) addr ?s = (if nat n \<le> room then Ok True t
    else if \<not> pi_readopen (pipes s p) \<or> p_killed (ptable s ! i) then Ok False t else Swtch (write_wait p i (hw s) t))"
    using pipewrite_loop_fills [OF assms(1,2), of ?s p "nat n" addr bs] assms(3,4) unfolding room_def t_def by (simp add: Let_def)
  have n: "length bs = nat n" using ureads_length [OF assms(5)] .
  have b: "pipe_ok (fold q_put (take room bs) (pipes s p))"
    "pipe_bytes (fold q_put (take room bs) (pipes s p)) = pipe_bytes (pipes s p) @ take room bs"
    using q_puts_queue [OF assms(4), of "take room bs"] assms(4) by (auto simp: room_def pipe_len pipe_ok_def)
  have a: "kacquire (LK_pipe p) s = Ok () ?s" and rel: "\<And>t. hw t = acq (LK_pipe p) (hw s) \<Longrightarrow> krelease (LK_pipe p) t = Ok () (t\<lparr>hw := hw s\<rparr>)"
    and w: "wakeup (Ch_nread p) t = Ok () (wakeup1 (Ch_nread p) t)"
    using qs by (simp_all add: lock_simps t_def)
  have ts: "pipes t p = fold q_put (take room bs) (pipes s p)" "hw t = acq (LK_pipe p) (hw s)" "ptable t = ptable s" by (simp_all add: t_def)
  have wk: "woken (Ch_nread p) (wakeup1 (Ch_nread p) t)" by (rule woken_wakeup1)
  have f: "free (LK_pipe p) (acq LK_ptable (hw s))" using qs(5) [of "LK_pipe p" LK_ptable] by simp
  consider "nat n \<le> room" | "\<not> nat n \<le> room" "\<not> pi_readopen (pipes s p) \<or> p_killed (ptable s ! i)"
    | "\<not> nat n \<le> room" "\<not> (\<not> pi_readopen (pipes s p) \<or> p_killed (ptable s ! i))" by blast
  then show ?thesis
  proof cases
    case 1
    then show ?thesis using b n wk by (simp add: pipewrite_def a l w rel ts)
  next
    case 2
    then show ?thesis using b n by (simp add: pipewrite_def a l rel ts)
  next
    case 3
    then show ?thesis using b n f write_wait_sel [of i t p "hw s"] assms(3) by (simp add: pipewrite_def a l ts)
  qed
qed

text \<open>
  C16: \<open>piperead\<close> implements taking from the front of the queue. On a pipe that holds bytes, or whose write end is closed, it
  returns the first \<open>n\<close> bytes (all of them if there are fewer, so 0 at the end of the stream), stores exactly these at
  the reader's buffer, keeps the rest in order and wakes the writers. On an empty pipe with the write end open it fails with
  -1 if the reader has been killed and sleeps otherwise, changing nothing in the pipe.
\<close>

theorem piperead_takes:
  assumes "runs (hw s) i" and "depth (hw s) = 0" and "i < length (ptable s)" and "pipe_ok (pipes s p)"
    and "uwrites (take (nat n) (pipe_bytes (pipes s p))) addr s = Some u"
  shows "case piperead p addr n s of
      Ok r t \<Rightarrow> hw t = hw s \<and>
        (if pipe_bytes (pipes s p) = [] \<and> pi_writeopen (pipes s p) then r = - 1 \<and> p_killed (ptable s ! i) \<and> t = s
         else r = min (int (nat n)) (int (length (pipe_bytes (pipes s p)))) \<and> mem t = mem u \<and> woken (Ch_nwrite p) t \<and>
           pipe_ok (pipes t p) \<and> pipe_bytes (pipes t p) = drop (nat n) (pipe_bytes (pipes s p)))
    | Swtch t \<Rightarrow> pipe_bytes (pipes s p) = [] \<and> pi_writeopen (pipes s p) \<and> \<not> p_killed (ptable s ! i) \<and> pipes t = pipes s \<and>
        free (LK_pipe p) (hw t) \<and> p_state (ptable t ! i) = SLEEPING \<and> p_chan (ptable t ! i) = Some (Ch_nread p)
    | _ \<Rightarrow> False"
proof -
  have q: "quiet (hw s)" "cur (hw s) = Some i" using assms(1) by (simp_all add: runs_def)
  note qs = quiet_simps [OF q(1)]
  let ?s = "s\<lparr>hw := acq (LK_pipe p) (hw s)\<rparr>"
  have a: "kacquire (LK_pipe p) s = Ok () ?s"
    and rel: "\<And>t. hw t = acq (LK_pipe p) (hw s) \<Longrightarrow> krelease (LK_pipe p) t = Ok () (t\<lparr>hw := hw s\<rparr>)"
    and w: "\<And>t. hw t = acq (LK_pipe p) (hw s) \<Longrightarrow> wakeup (Ch_nwrite p) t = Ok () (wakeup1 (Ch_nwrite p) t)"
    and c: "thisproc ?s = Ok i ?s"
    using qs acq_frame [OF qs(1)] q(2) by (simp_all add: lock_simps)
  show ?thesis
  proof (cases "pipe_bytes (pipes s p) = [] \<and> pi_writeopen (pipes s p)")
    case True
    have sl: "suspend (Ch_nread p) (LK_pipe p) ?s = Swtch (upd_proc i
        (\<lambda>q. q\<lparr>p_chan := Some (Ch_nread p), p_state := SLEEPING\<rparr>) (s\<lparr>hw := acq LK_ptable (hw s)\<rparr>))"
      using sleep_hands_over [OF q(1) assms(2) q(2), of "LK_pipe p" ?s "Ch_nread p"] assms(3) by (simp add: suspend_def)
    have f: "free (LK_pipe p) (acq LK_ptable (hw s))" using qs(5) [of "LK_pipe p" LK_ptable] by simp
    show ?thesis
      using True f assms(3) pipe_empty_iff [of "pipes s p"] by (simp add: piperead_def a c rel sl upd_proc_def)
  next
    case False
    have "uwrites (take (nat n) (pipe_bytes (pipes ?s p))) addr ?s = Some (?s\<lparr>mem := mem u\<rparr>)"
      using uwrites_cong [OF assms(5), of ?s] by (simp add: acq_sel)
    from piperead_loop_takes [OF _ this] obtain g where
      g: "piperead_loop p (nat n) addr ?s = Ok (min (nat n) (length (pipe_bytes (pipes s p)))) (upd_pipe p g (?s\<lparr>mem := mem u\<rparr>))"
      "pipe_ok (g (pipes s p))" "pipe_bytes (g (pipes s p)) = drop (nat n) (pipe_bytes (pipes s p))"
      using assms(4) by auto
    have nb: "\<not> (pi_nread (pipes s p) = pi_nwrite (pipes s p) \<and> pi_writeopen (pipes s p))" using False pipe_empty_iff by blast
    define t where "t = upd_pipe p g (?s\<lparr>mem := mem u\<rparr>)"
    have ts: "pipes t p = g (pipes s p)" "hw t = acq (LK_pipe p) (hw s)" "mem t = mem u" by (simp_all add: t_def)
    have e: "piperead p addr n s = Ok (int (min (nat n) (length (pipe_bytes (pipes s p))))) ((wakeup1 (Ch_nwrite p) t)\<lparr>hw := hw s\<rparr>)"
      using g(1) ts(2) unfolding t_def [symmetric] by (simp add: piperead_def a nb w rel)
    show ?thesis
      unfolding e using False g(2,3) ts woken_wakeup1 [of "Ch_nwrite p" t] by (simp add: of_nat_min)
  qed
qed

text \<open>An example: a pipe at \<open>0x80400000\<close> that holds two bytes across the end of its buffer, and a buffer in kernel memory.\<close>

definition pipe_ex :: pst where
  "pipe_ex = cst.extend ((con_boot (\<lambda>_. []) zero_inode)\<lparr>hw := cpu0\<rparr>) (pst.fields (\<lambda>_. \<lparr>pi_data = [7] @ replicate 510 0 @ [6],
     pi_nread = 0xFFFFFFFF, pi_nwrite = 1, pi_readopen = True, pi_writeopen = True\<rparr>))"

lemma pipe_ex_sel [simp]:
  "pipes pipe_ex p = \<lparr>pi_data = [7] @ replicate 510 0 @ [6], pi_nread = 0xFFFFFFFF, pi_nwrite = 1, pi_readopen = True, pi_writeopen = True\<rparr>"
  "hw pipe_ex = cpu0" "ptable pipe_ex = ptable (fs_boot (\<lambda>_. []))" "mem pipe_ex = mem (con_boot (\<lambda>_. []) zero_inode)"
  unfolding pipe_ex_def cst.defs pst.defs by (simp_all del: fs_boot_sel)

lemma pipe_ex_ok: "pipe_ok (pipes pipe_ex p)" "pipe_bytes (pipes pipe_ex p) = [6, 7]"
  "runs (hw pipe_ex) 0" "0 < length (ptable pipe_ex)" "depth (hw pipe_ex) = 0"
proof -
  show "pipe_ok (pipes pipe_ex p)" by (simp add: pipe_ok_def)
  show "pipe_bytes (pipes pipe_ex p) = [6, 7]" by (simp add: pipe_bytes_def ringq_def upt_rec nth_append)
  show "runs (hw pipe_ex) 0" using cpu0_quiet cpu0_cur by (simp add: runs_def)
  show "0 < length (ptable pipe_ex)" using bc_okD(2) [OF txnD(1) [OF fs_boot_txn, of "\<lambda>_. []"]] by simp
  show "depth (hw pipe_ex) = 0" by (simp add: cpu0_depth)
qed

theorem pipewrite_appends_witness:
  "\<exists>t. pipewrite 0x80400000 0x80500000 2 (pipe_ex\<lparr>mem := \<lambda>a. 9\<rparr>) = Ok 2 t \<and> pipe_bytes (pipes t 0x80400000) = [6, 7, 9, 9]"
proof -
  let ?s = "pipe_ex\<lparr>mem := \<lambda>a. 9\<rparr>"
  have two: "nat 2 = Suc (Suc 0)" by simp
  have b: "ureads (nat 2) 0x80500000 ?s = Some [9, 9]" unfolding two by (simp add: vtrans_kernel)
  show ?thesis
    using pipewrite_appends [of ?s 0 "0x80400000", OF _ _ _ _ b] pipe_ex_ok by (auto split: out.splits)
qed

theorem piperead_takes_witness:
  "\<exists>t. piperead 0x80400000 0x80500000 1 pipe_ex = Ok 1 t \<and> mem t 0x80500000 = 6 \<and> pipe_bytes (pipes t 0x80400000) = [7]"
proof -
  have u: "uwrites (take (nat 1) (pipe_bytes (pipes pipe_ex 0x80400000))) 0x80500000 pipe_ex =
    Some (pipe_ex\<lparr>mem := (mem pipe_ex)(0x80500000 := 6)\<rparr>)"
    unfolding pipe_ex_ok(2) by (simp add: vtrans_kernel)
  show ?thesis
    using piperead_takes [OF pipe_ex_ok(3,5,4,1) u] unfolding pipe_ex_ok(2) by (auto split: out.splits)
qed

end
