(* ===== verification/File.thy ===== *)
theory File
  imports Pipe
begin

text \<open>
  The table of open files (file.c) and the allocation of pipes (\<open>pipealloc\<close> of pipe.c). An open file is named
  by its index in \<open>ftable.file\<close>.
\<close>

section \<open>Definitions\<close>

abbreviation (input) "NFILE \<equiv> (100 :: nat)"

datatype fdtype = FD_NONE | FD_PIPE | FD_INODE

record file_rec =
  f_type :: fdtype
  f_ref :: int
  f_readable :: byte
  f_writable :: byte
  f_pipe :: addr
  f_ip :: "nat option"
  f_off :: u32

record flst = pst +
  ftable :: "file_rec list"

definition upd_file :: "nat \<Rightarrow> (file_rec \<Rightarrow> file_rec) \<Rightarrow> 'z flst_scheme \<Rightarrow> 'z flst_scheme" where
  "upd_file f g s = s\<lparr>ftable := (ftable s)[f := g (ftable s ! f)]\<rparr>"

definition fileinit :: "'z flst_scheme \<Rightarrow> 'z flst_scheme" where
  "fileinit s = s\<lparr>hw := initlock LK_ftable ''ftable'' (hw s)\<rparr>"

definition filealloc :: "'z flst_scheme \<Rightarrow> (nat option, 'z flst_scheme) out" where
  "filealloc s =
     andthen (kacquire LK_ftable s) (\<lambda>_ s.
     case find (\<lambda>f. f_ref (ftable s ! f) = 0) [0..<NFILE] of
       Some f \<Rightarrow> andthen (krelease LK_ftable (upd_file f (\<lambda>q. q\<lparr>f_ref := 1\<rparr>) s)) (\<lambda>_ s. Ok (Some f) s)
     | None \<Rightarrow> andthen (krelease LK_ftable s) (\<lambda>_ s. Ok None s))"

definition filedup :: "nat \<Rightarrow> 'z flst_scheme \<Rightarrow> (nat, 'z flst_scheme) out" where
  "filedup f s =
     andthen (kacquire LK_ftable s) (\<lambda>_ s.
     if f_ref (ftable s ! f) < 1 then Panic ''filedup''
     else andthen (krelease LK_ftable (upd_file f (\<lambda>q. q\<lparr>f_ref := f_ref q + 1\<rparr>) s)) (\<lambda>_ s. Ok f s))"

definition fileclose :: "nat \<Rightarrow> 'z flst_scheme \<Rightarrow> (unit, 'z flst_scheme) out" where
  "fileclose f s =
     andthen (kacquire LK_ftable s) (\<lambda>_ s.
     if f_ref (ftable s ! f) < 1 then Panic ''fileclose''
     else let s = upd_file f (\<lambda>q. q\<lparr>f_ref := f_ref q - 1\<rparr>) s in
       if 0 < f_ref (ftable s ! f) then krelease LK_ftable s
       else let ff = ftable s ! f in
         andthen (krelease LK_ftable (upd_file f (\<lambda>q. q\<lparr>f_ref := 0, f_type := FD_NONE\<rparr>) s)) (\<lambda>_ s.
         case f_type ff of
           FD_PIPE \<Rightarrow> pipeclose (f_pipe ff) (f_writable ff \<noteq> 0) s
         | FD_INODE \<Rightarrow>
           andthen (begin_op s) (\<lambda>_ s.
           andthen (case f_ip ff of None \<Rightarrow> Undef ''null inode'' | Some ip \<Rightarrow> iput ip s) (\<lambda>_ s.
           end_op s))
         | FD_NONE \<Rightarrow> Ok () s))"

text \<open>The fields of \<open>struct stat\<close> at their offsets.\<close>

definition put_stat :: "addr \<Rightarrow> stat_rec \<Rightarrow> 'z kmst_scheme \<Rightarrow> (unit, 'z kmst_scheme) out" where
  "put_stat st r s =
     andthen (umem_write (put32 (replicate 4 0) 0 (st_dev r)) (st + 4) s) (\<lambda>_ s.
     andthen (umem_write (put32 (replicate 4 0) 0 (st_ino r)) (st + 8) s) (\<lambda>_ s.
     andthen (umem_write (put16 (replicate 2 0) 0 (st_type r)) st s) (\<lambda>_ s.
     andthen (umem_write (put16 (replicate 2 0) 0 (st_nlink r)) (st + 12) s) (\<lambda>_ s.
     umem_write (put32 (replicate 4 0) 0 (st_size r)) (st + 16) s))))"

definition filestat :: "nat \<Rightarrow> addr \<Rightarrow> 'z flst_scheme \<Rightarrow> (int, 'z flst_scheme) out" where
  "filestat f st s =
     (if f_type (ftable s ! f) = FD_INODE
      then case f_ip (ftable s ! f) of None \<Rightarrow> Panic ''ilock'' | Some ip \<Rightarrow>
        andthen (ilock (Some ip) s) (\<lambda>_ s.
        andthen (put_stat st (stati ip s) s) (\<lambda>_ s.
        andthen (iunlock (Some ip) s) (\<lambda>_ s. Ok 0 s)))
      else Ok (- 1) s)"

definition fileread :: "nat \<Rightarrow> addr \<Rightarrow> int \<Rightarrow> 'z flst_scheme \<Rightarrow> (int, 'z flst_scheme) out" where
  "fileread f addr n s =
     (let ff = ftable s ! f in
      if f_readable ff = 0 then Ok (- 1) s
      else case f_type ff of
        FD_PIPE \<Rightarrow> piperead (f_pipe ff) addr n s
      | FD_INODE \<Rightarrow> (case f_ip ff of None \<Rightarrow> Panic ''ilock'' | Some ip \<Rightarrow>
          andthen (ilock (Some ip) s) (\<lambda>_ s.
          andthen (readi to_mem ip addr (f_off (ftable s ! f)) (of_int n) s) (\<lambda>(r, _) s.
          let s = (if 0 < r then upd_file f (\<lambda>q. q\<lparr>f_off := f_off q + of_int r\<rparr>) s else s) in
          andthen (iunlock (Some ip) s) (\<lambda>_ s. Ok r s))))
      | FD_NONE \<Rightarrow> Panic ''fileread'')"

text \<open>
  Writing goes in transactions of at most \<open>((MAXOPBLOCKS-1-1-2) / 2) * 512 = 1536\<close> bytes. The result says whether
  all of it was written.
\<close>

function filewrite_loop :: "nat \<Rightarrow> nat \<Rightarrow> addr \<Rightarrow> nat \<Rightarrow> 'z flst_scheme \<Rightarrow> (bool, 'z flst_scheme) out" where
  "filewrite_loop f ip addr left s =
     (if left = 0 then Ok True s
      else let n1 = min left 1536 in
        andthen (begin_op s) (\<lambda>_ s.
        andthen (ilock (Some ip) s) (\<lambda>_ s.
        andthen (writei from_mem ip addr (f_off (ftable s ! f)) (of_nat n1) s) (\<lambda>r s.
        let s = (if 0 < r then upd_file f (\<lambda>q. q\<lparr>f_off := f_off q + of_int r\<rparr>) s else s) in
        andthen (iunlock (Some ip) s) (\<lambda>_ s.
        andthen (end_op s) (\<lambda>_ s.
        if r < 0 then Ok False s
        else if r \<noteq> int n1 then Panic ''short filewrite''
        else filewrite_loop f ip (addr + of_nat n1) (left - n1) s))))))"
  by pat_completeness auto

termination filewrite_loop
  by (relation "measure (\<lambda>(_, _, _, left, _). left)") auto

declare filewrite_loop.simps [simp del]

definition filewrite :: "nat \<Rightarrow> addr \<Rightarrow> int \<Rightarrow> 'z flst_scheme \<Rightarrow> (int, 'z flst_scheme) out" where
  "filewrite f addr n s =
     (let ff = ftable s ! f in
      if f_writable ff = 0 then Ok (- 1) s
      else case f_type ff of
        FD_PIPE \<Rightarrow> pipewrite (f_pipe ff) addr n s
      | FD_INODE \<Rightarrow>
          if n \<le> 0 then Ok (if n = 0 then 0 else - 1) s
          else (case f_ip ff of None \<Rightarrow> andthen (begin_op s) (\<lambda>_ s. Panic ''ilock'') | Some ip \<Rightarrow>
            andthen (filewrite_loop f ip addr (nat n) s) (\<lambda>done s.
            Ok (if done then n else - 1) s))
      | FD_NONE \<Rightarrow> Panic ''filewrite'')"

text \<open>
  The two ends of a new pipe, or \<open>None\<close> when the table has no two free entries or memory is exhausted; the
  page has not been allocated on any of these paths, so there is none to free.
\<close>

definition pipealloc :: "'z flst_scheme \<Rightarrow> ((nat \<times> nat) option, 'z flst_scheme) out" where
  "pipealloc s =
     andthen (filealloc s) (\<lambda>f0 s. case f0 of None \<Rightarrow> Ok None s | Some f0 \<Rightarrow>
     andthen (filealloc s) (\<lambda>f1 s. case f1 of None \<Rightarrow> andthen (fileclose f0 s) (\<lambda>_ s. Ok None s) | Some f1 \<Rightarrow>
     andthen (kalloc s) (\<lambda>p s.
     if p = 0 then andthen (fileclose f0 s) (\<lambda>_ s. andthen (fileclose f1 s) (\<lambda>_ s. Ok None s))
     else let s = upd_pipe p (\<lambda>q. q\<lparr>pi_readopen := True, pi_writeopen := True, pi_nwrite := 0, pi_nread := 0\<rparr>) s;
              s = s\<lparr>hw := initlock (LK_pipe p) ''pipe'' (hw s)\<rparr>;
              s = upd_file f0 (\<lambda>q. q\<lparr>f_type := FD_PIPE, f_readable := 1, f_writable := 0, f_pipe := p\<rparr>) s;
              s = upd_file f1 (\<lambda>q. q\<lparr>f_type := FD_PIPE, f_readable := 0, f_writable := 1, f_pipe := p\<rparr>) s in
       Ok (Some (f0, f1)) s)))"

end
