(* ===== verification/Swapfile.thy ===== *)
theory Swapfile
  imports File
begin

text \<open>
  Creating and removing directory entries (\<open>isdirempty\<close>, \<open>create\<close> and the body of \<open>sys_unlink\<close> in sysfile.c) and,
  on top of them, the swap file every process above pid 2 has (the last part of fs.c): \<open>createSwapFile\<close>,
  \<open>removeSwapFile\<close>, \<open>writeToSwapFile\<close>, \<open>readFromSwapFile\<close>.
\<close>

section \<open>Definitions\<close>

definition isdirempty :: "nat \<Rightarrow> 'z cst_scheme \<Rightarrow> (bool, 'z cst_scheme) out" where
  "isdirempty dp s =
     andthen (forany (\<lambda>off s.
       andthen (readi to_local dp [] off 16 s) (\<lambda>(r, bs) s.
       if r \<noteq> 16 then Panic ''isdirempty: readi''
       else Ok (if de_inum (get_dirent bs) \<noteq> 0 then Some () else None) s))
       (drop 2 (entries (i_size (icache s ! dp)))) s) (\<lambda>r s.
     Ok (r = None) s)"

definition unlink_bad :: "nat \<Rightarrow> 'z cst_scheme \<Rightarrow> (int, 'z cst_scheme) out" where
  "unlink_bad dp s = andthen (iunlockput dp s) (\<lambda>_ s. andthen (end_op s) (\<lambda>_ s. Ok (- 1) s))"

definition unlink_entry :: "nat \<Rightarrow> nat \<Rightarrow> u32 \<Rightarrow> 'z cst_scheme \<Rightarrow> (int, 'z cst_scheme) out" where
  "unlink_entry dp ip off s =
     andthen (writei from_local dp (replicate 16 0) off 16 s) (\<lambda>r s.
     if r \<noteq> 16 then Panic ''unlink: writei''
     else andthen (if i_type (icache s ! ip) = T_DIR
         then iupdate dp (upd_inode dp (\<lambda>q. q\<lparr>i_nlink := i_nlink q - 1\<rparr>) s) else Ok () s) (\<lambda>_ s.
       andthen (iunlockput dp s) (\<lambda>_ s.
       andthen (iupdate ip (upd_inode ip (\<lambda>q. q\<lparr>i_nlink := i_nlink q - 1\<rparr>) s)) (\<lambda>_ s.
       andthen (iunlockput ip s) (\<lambda>_ s.
       andthen (end_op s) (\<lambda>_ s. Ok 0 s))))))"

definition unlink_path :: "byte list \<Rightarrow> 'z cst_scheme \<Rightarrow> (int, 'z cst_scheme) out" where
  "unlink_path path s =
     andthen (begin_op s) (\<lambda>_ s.
     andthen (nameiparent path s) (\<lambda>r s.
     case r of None \<Rightarrow> andthen (end_op s) (\<lambda>_ s. Ok (- 1) s)
     | Some (dp, name) \<Rightarrow>
       andthen (ilock (Some dp) s) (\<lambda>_ s.
       if namecmp name [46] = 0 \<or> namecmp name [46, 46] = 0 then unlink_bad dp s
       else andthen (dirlookup dp name s) (\<lambda>r s.
         case r of None \<Rightarrow> unlink_bad dp s
         | Some (ip, off) \<Rightarrow>
           andthen (ilock (Some ip) s) (\<lambda>_ s.
           if sint (i_nlink (icache s ! ip)) < 1 then Panic ''unlink: nlink < 1''
           else andthen (if i_type (icache s ! ip) = T_DIR then isdirempty ip s else Ok True s) (\<lambda>ok s.
             if \<not> ok then andthen (iunlockput ip s) (\<lambda>_ s. unlink_bad dp s)
             else unlink_entry dp ip off s))))))"

definition create_dots :: "nat \<Rightarrow> nat \<Rightarrow> 'z cst_scheme \<Rightarrow> (unit, 'z cst_scheme) out" where
  "create_dots dp ip s =
     andthen (iupdate dp (upd_inode dp (\<lambda>q. q\<lparr>i_nlink := i_nlink q + 1\<rparr>) s)) (\<lambda>_ s.
     andthen (dirlink ip [46] (i_inum (icache s ! ip)) s) (\<lambda>r s.
     if r < 0 then Panic ''create dots''
     else andthen (dirlink ip [46, 46] (i_inum (icache s ! dp)) s) (\<lambda>r s.
       if r < 0 then Panic ''create dots'' else Ok () s)))"

definition create :: "byte list \<Rightarrow> ushort \<Rightarrow> ushort \<Rightarrow> ushort \<Rightarrow> 'z cst_scheme \<Rightarrow> (nat option, 'z cst_scheme) out" where
  "create path type major minor s =
     andthen (nameiparent path s) (\<lambda>r s.
     case r of None \<Rightarrow> Ok None s
     | Some (dp, name) \<Rightarrow>
       andthen (ilock (Some dp) s) (\<lambda>_ s.
       andthen (dirlookup dp name s) (\<lambda>r s.
       case r of
         Some (ip, _) \<Rightarrow>
           andthen (iunlockput dp s) (\<lambda>_ s.
           andthen (ilock (Some ip) s) (\<lambda>_ s.
           if type = T_FILE \<and> i_type (icache s ! ip) = T_FILE then Ok (Some ip) s
           else andthen (iunlockput ip s) (\<lambda>_ s. Ok None s)))
       | None \<Rightarrow>
           andthen (ialloc (i_dev (icache s ! dp)) type s) (\<lambda>ip s.
           andthen (ilock (Some ip) s) (\<lambda>_ s.
           andthen (iupdate ip (upd_inode ip (\<lambda>q. q\<lparr>i_major := major, i_minor := minor, i_nlink := 1\<rparr>) s)) (\<lambda>_ s.
           andthen (if type = T_DIR then create_dots dp ip s else Ok () s) (\<lambda>_ s.
           andthen (dirlink dp name (i_inum (icache s ! ip)) s) (\<lambda>r s.
           if r < 0 then Panic ''create: dirlink''
           else andthen (iunlockput dp s) (\<lambda>_ s. Ok (Some ip) s)))))))))"

text \<open>
  The path \<open>/.swap<pid>\<close> is built in a buffer of 14 bytes; a longer one is written past its end.
\<close>

definition swap_name :: "int \<Rightarrow> 's \<Rightarrow> (byte list, 's) out" where
  "swap_name pid s = (if 14 < length (swap_path pid) then Undef ''swap file path'' else Ok (butlast (swap_path pid)) s)"

definition removeSwapFile :: "nat \<Rightarrow> 'z flst_scheme \<Rightarrow> (int, 'z flst_scheme) out" where
  "removeSwapFile p s =
     andthen (swap_name (p_pid (ptable s ! p)) s) (\<lambda>path s.
     case p_swapFile (ptable s ! p) of None \<Rightarrow> Ok (- 1) s
     | Some f \<Rightarrow> andthen (fileclose f s) (\<lambda>_ s. unlink_path path s))"

definition createSwapFile :: "nat \<Rightarrow> 'z flst_scheme \<Rightarrow> (int, 'z flst_scheme) out" where
  "createSwapFile p s =
     andthen (swap_name (p_pid (ptable s ! p)) s) (\<lambda>path s.
     andthen (begin_op s) (\<lambda>_ s.
     andthen (create path T_FILE 0 0 s) (\<lambda>ip s.
     andthen (iunlock ip s) (\<lambda>_ s.
     andthen (filealloc s) (\<lambda>f s.
     let s = upd_proc p (\<lambda>q. q\<lparr>p_swapFile := f\<rparr>) s in
     case f of None \<Rightarrow> Panic ''no slot for files on /store''
     | Some f \<Rightarrow>
       let s = upd_file f (\<lambda>q. q\<lparr>f_ip := ip, f_type := FD_INODE, f_off := 0, f_readable := 1, f_writable := 2\<rparr>) s in
       andthen (end_op s) (\<lambda>_ s. Ok 0 s))))))"

definition writeToSwapFile :: "nat \<Rightarrow> addr \<Rightarrow> u32 \<Rightarrow> u32 \<Rightarrow> 'z flst_scheme \<Rightarrow> (int, 'z flst_scheme) out" where
  "writeToSwapFile p buf off sz s = (case p_swapFile (ptable s ! p) of None \<Rightarrow> Undef ''null file''
     | Some f \<Rightarrow> filewrite f buf (sint sz) (upd_file f (\<lambda>q. q\<lparr>f_off := off\<rparr>) s))"

definition readFromSwapFile :: "nat \<Rightarrow> addr \<Rightarrow> u32 \<Rightarrow> u32 \<Rightarrow> 'z flst_scheme \<Rightarrow> (int, 'z flst_scheme) out" where
  "readFromSwapFile p buf off sz s = (case p_swapFile (ptable s ! p) of None \<Rightarrow> Undef ''null file''
     | Some f \<Rightarrow> fileread f buf (sint sz) (upd_file f (\<lambda>q. q\<lparr>f_off := off\<rparr>) s))"

end
