(* ===== verification/Cow.thy ===== *)
theory Cow
  imports Vm
begin

text \<open>
  Copy-on-write: what \<open>handle_cow\<close> and \<open>copyonwriteuvm\<close> of vm.c do to address spaces, page contents and
  reference counts.
\<close>

lemma counter_eval [lock_simps]:
  assumes "kmem_ready s" and "frame v < NFRAMES"
  shows "get_ref_counter v s = Ok (km_references_count s (frame v)) s"
    and "dec_counter v s = Ok () (set_ref v (km_references_count s (frame v) - 1) s)"
    and "inc_counter v s = Ok () (set_ref v (km_references_count s (frame v) + 1) s)"
    and "set_counter v i s = Ok () (set_ref v i s)"
  using assms by (auto simp: get_ref_counter_def dec_counter_def inc_counter_def set_counter_def
    lock_simps Let_def set_ref_def)

lemma set_ref_ok:
  assumes "km_ok s" and "x \<in> km_pool s - km_avail s"
  shows "km_ok (set_ref (V2P x) c s)" and "km_avail (set_ref (V2P x) c s) = km_avail s"
    and "km_pool (set_ref (V2P x) c s) = km_pool s"
proof -
  obtain xs where xs: "kmem_ready s" "kmem_inv s xs" using assms(1) by (auto simp: km_ok_def)
  have "frame (V2P y) \<noteq> frame (V2P x)" if "y \<in> set xs" for y
    using that assms(2) xs(2) km_avail_set [OF xs(2)] frame_V2P_inj [of s y x]
    by (auto simp: km_pool_def kmem_inv_def)
  then have "kmem_inv (set_ref (V2P x) c s) xs" using xs(2) unfolding kmem_inv_def kpage_cong by simp
  then show "km_ok (set_ref (V2P x) c s)" and "km_avail (set_ref (V2P x) c s) = km_avail s"
    using xs km_avail_set [of _ xs] by (auto simp: km_ok_def kmem_ready_def)
  show "km_pool (set_ref (V2P x) c s) = km_pool s" by (simp add: km_pool_def)
qed

lemma pt_ok_set_ref:
  "pt_ok pgdir s \<Longrightarrow> x \<in> km_pool s - km_avail s \<Longrightarrow> pt_ok pgdir (set_ref (V2P x) c s)"
  using set_ref_ok [of s x] by (simp add: pt_ok_def)

text \<open>Writing to pages that belong neither to the free list nor to the page tables.\<close>

lemma pt_ok_mem:
  assumes "pt_ok pgdir s" and "\<And>b. PGROUNDDOWN b \<in> pt_pages (mem s) pgdir \<union> km_avail s \<Longrightarrow> m b = mem s b"
  shows "pt_ok pgdir (s\<lparr>mem := m\<rparr>)" and "ptes m pgdir = ptes (mem s) pgdir"
    and "pt_pages m pgdir = pt_pages (mem s) pgdir" and "km_avail (s\<lparr>mem := m\<rparr>) = km_avail s"
    and "km_pool (s\<lparr>mem := m\<rparr>) = km_pool s"
    and "pte_slot m pgdir va = pte_slot (mem s) pgdir va"
    and "has_table m pgdir (PDX va) = has_table (mem s) pgdir (PDX va)"
proof -
  have wf: "pt_wf (mem s) pgdir" and ok: "km_ok s" using assms(1) by (simp_all add: pt_ok_def)
  note sc = space_cong [OF wf, of m]
  note mc = km_ok_mem_cong [OF ok, of m]
  show "ptes m pgdir = ptes (mem s) pgdir" and pp: "pt_pages m pgdir = pt_pages (mem s) pgdir"
    and av: "km_avail (s\<lparr>mem := m\<rparr>) = km_avail s" and po: "km_pool (s\<lparr>mem := m\<rparr>) = km_pool s"
    and ht: "has_table m pgdir (PDX va) = has_table (mem s) pgdir (PDX va)"
    using sc mc assms(2) by simp_all
  show "pt_ok pgdir (s\<lparr>mem := m\<rparr>)"
    using assms sc(2) mc pp av po by (simp add: pt_ok_def)
  show "pte_slot m pgdir va = pte_slot (mem s) pgdir va"
    using ht sc(5) assms(2) by (simp add: pte_slot_def)
qed

lemma pool_no_wrap: "x \<in> km_pool s \<Longrightarrow> unat x + 4096 < 2 ^ 32"
  using pa.pool_page [of x s] unat_V2P [of x] by (simp add: word_less_nat_alt)

lemma copy_page:
  assumes "q \<in> km_pool s" and "x \<in> km_pool s"
  shows "memmove q x PGSIZE m b = (if PGROUNDDOWN b = q then m (x + (b - q)) else m b)"
proof -
  have "memmove q x PGSIZE m = move q x 4096 m"
    using pool_no_wrap [OF assms(1)] pool_no_wrap [OF assms(2)] memmove_move [of x PGSIZE q m] by simp
  then show ?thesis using in_page_iff pa.pool_page [OF assms(1)] by (simp add: move_def)
qed

text \<open>
  The running process \<open>p\<close> faults at \<open>va\<close>, whose entry is marked copy-on-write and read-only and maps
  the user page \<open>x\<close>.
\<close>

definition cow_fault :: "'z kmst_scheme \<Rightarrow> nat \<Rightarrow> addr \<Rightarrow> u32 \<Rightarrow> addr \<Rightarrow> bool" where
  "cow_fault s p pgdir va x \<longleftrightarrow> runs (hw s) p \<and> pgdir = p_pgdir (ptable s ! p) \<and> pt_ok pgdir s \<and>
     ptes (mem s) pgdir va AND PTE_W = 0 \<and> ptes (mem s) pgdir va AND PTE_COW \<noteq> 0 \<and>
     x = P2V (PTE_ADDR (ptes (mem s) pgdir va)) \<and> x \<in> km_pool s - km_avail s - pt_pages (mem s) pgdir"

lemma cow_fault_eval:
  assumes "cow_fault s p pgdir va x"
  shows "handle_cow va s =
    andthen (if 1 < sint (km_references_count s (frame (V2P x))) then cow_copy (pte_slot (mem s) pgdir va) (V2P x) s
      else Ok () (upd_pte (pte_slot (mem s) pgdir va) (\<lambda>e. (e AND NOT PTE_COW) OR PTE_W) s)) (\<lambda>_ s.
    andthen (klcr3 (Some p) s) (\<lambda>_ s. Ok True s))"
    and "has_table (mem s) pgdir (PDX va)"
proof -
  have nz: "ptes (mem s) pgdir va \<noteq> 0" and ok: "pt_ok pgdir s" using assms by (auto simp: cow_fault_def)
  note sl = ptes_nonzero_slot [OF ok nz]
  then show h: "has_table (mem s) pgdir (PDX va)" by (simp add: pte_slot_zero [OF ok])
  have e: "ld32 (mem s) (pte_slot (mem s) pgdir va) = ptes (mem s) pgdir va" by (rule ptes_slot [OF h])
  have x: "PTE_ADDR (ptes (mem s) pgdir va) = V2P x" "x \<in> km_pool s" and kr: "kmem_ready s"
    using assms ok by (auto simp: cow_fault_def pt_ok_def km_ok_def)
  have "frame (V2P x) < NFRAMES" using x(2) pa.pool_page [of x s] V2P_page(2) by blast
  then have "get_ref_counter (V2P x) s = Ok (km_references_count s (frame (V2P x))) s"
    using kr by (simp add: lock_simps)
  moreover have "thisproc s = Ok p s" "p_pgdir (ptable s ! p) = pgdir"
    "ptes (mem s) pgdir va AND PTE_W = 0" "ptes (mem s) pgdir va AND PTE_COW \<noteq> 0"
    using assms by (auto simp: cow_fault_def runs_def lock_simps)
  ultimately show "handle_cow va s =
    andthen (if 1 < sint (km_references_count s (frame (V2P x))) then cow_copy (pte_slot (mem s) pgdir va) (V2P x) s
      else Ok () (upd_pte (pte_slot (mem s) pgdir va) (\<lambda>e. (e AND NOT PTE_COW) OR PTE_W) s)) (\<lambda>_ s.
    andthen (klcr3 (Some p) s) (\<lambda>_ s. Ok True s))"
    using sl by (simp add: handle_cow_def walk_lookup e x(1) Let_def)
qed

lemma upd_pte_twice: "upd_pte a f (upd_pte a g s) = upd_pte a (\<lambda>e. f (g e)) s"
  by (simp add: upd_pte_def) (simp add: st32_def)

text \<open>The branch that copies: a fresh page with the same content, one reference less to the old one.\<close>

lemma cow_copy_spec:
  fixes s :: "'z kmst_scheme"
  assumes c: "cow_fault s p pgdir va x" and ne: "km_avail s \<noteq> {}"
  shows "succeeds (cow_copy (pte_slot (mem s) pgdir va) (V2P x) s) (\<lambda>_ t. \<exists>q \<in> km_avail s.
    pt_ok pgdir t \<and> kmem_only s t \<and>
    ptes (mem t) pgdir = (\<lambda>b. if pgno b = pgno va then V2P q OR PTE_P OR PTE_U OR PTE_W else ptes (mem s) pgdir b) \<and>
    (\<forall>i < 4096. mem t (q + of_nat i) = mem s (x + of_nat i)) \<and>
    (\<forall>b. PGROUNDDOWN b \<noteq> q \<and> PGROUNDDOWN b \<notin> pt_pages (mem s) pgdir \<longrightarrow> mem t b = mem s b) \<and>
    km_references_count t = (km_references_count s)(frame (V2P q) := 1,
      frame (V2P x) := km_references_count s (frame (V2P x)) - 1))"
proof -
  have ok: "km_ok s" and pt: "pt_ok pgdir s" and x: "x \<in> km_pool s - km_avail s" "x \<notin> pt_pages (mem s) pgdir"
    using c by (auto simp: cow_fault_def pt_ok_def)
  note h = cow_fault_eval(2) [OF c]
  obtain xs where xs: "kmem_ready s" "kmem_inv s xs" using ok by (auto simp: km_ok_def)
  obtain q ys where q: "xs = q # ys" using ne km_avail_set [OF xs(2)] by (cases xs) auto
  have qa: "q \<in> km_avail s" using km_avail_set [OF xs(2)] q by simp
  have qp: "q \<in> km_pool s" "q \<noteq> 0" "q \<notin> pt_pages (mem s) pgdir"
    using qa pa.avail_pool [OF ok] pa.pool_page [of q s] pt by (auto simp: pt_ok_def)
  define t where "t = lalloc q s"
  have ka: "kalloc s = Ok q t" using kalloc_eval [OF xs] q by (simp add: t_def)
  have tf: "km_ok t" "mem t = mem s" "km_pool t = km_pool s" "km_avail t = km_avail s - {q}"
    "kmem_only s t" using kalloc_law [OF ok] kalloc_frame [OF ok] ka ne by auto
  have tr: "km_references_count t = (km_references_count s)(frame (V2P q) := 1)" by (simp add: t_def lalloc_def)
  have pt_t: "pt_ok pgdir t" using pt tf(1-4) by (auto simp: pt_ok_def)
  define m where "m = memmove q x PGSIZE (mem t)"
  have m: "m b = (if PGROUNDDOWN b = q then mem s (x + (b - q)) else mem s b)" for b
    using copy_page [OF qp(1), of x "mem t" b] x(1) tf(2) by (simp add: m_def)
  have "m b = mem t b" if "PGROUNDDOWN b \<in> pt_pages (mem t) pgdir \<union> km_avail t" for b
    using that qp(3) tf(2,4) m by auto
  note um = pt_ok_mem [OF pt_t this]
  define u where "u = set_ref (V2P x) (km_references_count s (frame (V2P x)) - 1) (t\<lparr>mem := m\<rparr>)"
  have fx: "frame (V2P x) < NFRAMES" "frame (V2P x) \<noteq> frame (V2P q)"
    using x(1) qa qp(1) frame_V2P_inj [of s x q] kpageD(3) by (auto simp: km_pool_def)
  have "kmem_ready (t\<lparr>mem := m\<rparr>)" using um(1) by (auto simp: pt_ok_def km_ok_def)
  then have dc: "dec_counter (V2P x) (t\<lparr>mem := m\<rparr>) = Ok () u"
    using fx tr by (simp add: lock_simps u_def)
  have x': "x \<in> km_pool (t\<lparr>mem := m\<rparr>) - km_avail (t\<lparr>mem := m\<rparr>)" using x(1) um(4,5) tf(3,4) by auto
  have pt_u: "pt_ok pgdir u" unfolding u_def using um(1) x' by (rule pt_ok_set_ref)
  have hu: "has_table (mem u) pgdir (PDX va)" "pte_slot (mem u) pgdir va = pte_slot (mem s) pgdir va"
    using um(6,7) h tf(2) by (simp_all add: u_def)
  let ?v = "V2P q OR PTE_P OR PTE_U OR PTE_W"
  have run: "cow_copy (pte_slot (mem s) pgdir va) (V2P x) s = Ok () (upd_pte (pte_slot (mem u) pgdir va) (\<lambda>_. ?v) u)"
    using qp(2) by (simp add: cow_copy_def ka dc m_def [symmetric] upd_pte_twice hu(2))
  note sp = upd_pte_spec [OF pt_u hu(1), where f = "\<lambda>_. ?v"]
  let ?r = "upd_pte (pte_slot (mem u) pgdir va) (\<lambda>_. ?v) u"
  have tab: "table (mem u) pgdir (PDX va) \<in> pt_pages (mem s) pgdir"
    using table_in_pages [OF fields_less(1) hu(1)] um(3) tf(2) by (simp add: u_def)
  have "mem ?r (q + of_nat i) = mem s (x + of_nat i)" if "i < 4096" for i
  proof -
    have "PGROUNDDOWN (q + of_nat i) = q" using that pa.pool_page [OF qp(1)] by (simp add: PGROUNDDOWN_plus)
    moreover from this have "mem ?r (q + of_nat i) = mem u (q + of_nat i)" using sp(6) tab qp(3) by metis
    ultimately show ?thesis by (simp add: u_def m)
  qed
  moreover have "mem ?r b = mem s b" if "PGROUNDDOWN b \<noteq> q" "PGROUNDDOWN b \<notin> pt_pages (mem s) pgdir" for b
  proof -
    have "mem ?r b = mem u b" using that(2) sp(6) tab by metis
    then show ?thesis using that(1) by (simp add: u_def m)
  qed
  moreover have "kmem_only s ?r"
  proof -
    have "kmem_only t u" unfolding u_def by (rule kmem_onlyI) simp_all
    then show ?thesis using tf(5) sp(1) kmem_only_trans unfolding grows_def by blast
  qed
  moreover have "ptes (mem u) pgdir = ptes (mem s) pgdir" using um(2) tf(2) by (simp add: u_def)
  then have "ptes (mem ?r) pgdir = (\<lambda>b. if pgno b = pgno va then ?v else ptes (mem s) pgdir b)"
    unfolding sp(2) by (simp only:)
  moreover have "pt_ok pgdir ?r" using sp(1) by (simp add: grows_def)
  moreover have "km_references_count ?r = (km_references_count s)(frame (V2P q) := 1,
      frame (V2P x) := km_references_count s (frame (V2P x)) - 1)" unfolding sp(7) by (simp add: u_def tr)
  ultimately show ?thesis
    unfolding run succeeds.simps by (intro bexI [OF _ qa] conjI allI impI) blast+
qed

lemma or_bits_W: "(x OR 7) AND PTE_W \<noteq> 0" "(x OR PTE_W) AND PTE_W \<noteq> 0" for x :: u32
proof -
  have "bit ((x OR 7) AND PTE_W) 1" "bit ((x OR PTE_W) AND PTE_W) 1" by (simp_all add: bit_simps)
  then show "(x OR 7) AND PTE_W \<noteq> 0" "(x OR PTE_W) AND PTE_W \<noteq> 0" by force+
qed

text \<open>
  C2: a write to a copy-on-write page gives the process its own writable copy and disturbs nobody. If
  the page \<open>x\<close> has other references and a free page exists, \<open>handle_cow\<close> reports success, the entry of
  the faulting page now maps a page \<open>q\<close> taken from the free list that has the content of \<open>x\<close> and one
  reference, \<open>x\<close> has one reference less and, like every page outside the page tables and \<open>q\<close>, keeps
  its content. If it was the last reference, the entry keeps its physical page and only becomes
  writable. All other entries are unchanged.
\<close>

theorem handle_cow_private_copy:
  assumes "cow_fault s p pgdir va x" and "km_avail s \<noteq> {}"
  shows "succeeds (handle_cow va s) (\<lambda>r t. r \<and> ptes (mem t) pgdir va AND PTE_W \<noteq> 0 \<and>
    (\<forall>b. pgno b \<noteq> pgno va \<longrightarrow> ptes (mem t) pgdir b = ptes (mem s) pgdir b) \<and>
    (if 1 < sint (km_references_count s (frame (V2P x)))
     then \<exists>q \<in> km_avail s. ptes (mem t) pgdir va = V2P q OR PTE_P OR PTE_U OR PTE_W \<and>
       (\<forall>i < 4096. mem t (q + of_nat i) = mem s (x + of_nat i)) \<and>
       (\<forall>b. PGROUNDDOWN b \<noteq> q \<and> PGROUNDDOWN b \<notin> pt_pages (mem s) pgdir \<longrightarrow> mem t b = mem s b) \<and>
       km_references_count t = (km_references_count s)(frame (V2P q) := 1,
         frame (V2P x) := km_references_count s (frame (V2P x)) - 1)
     else ptes (mem t) pgdir va = (ptes (mem s) pgdir va AND NOT PTE_COW) OR PTE_W \<and>
       (\<forall>b. PGROUNDDOWN b \<notin> pt_pages (mem s) pgdir \<longrightarrow> mem t b = mem s b)))"
proof (cases "1 < sint (km_references_count s (frame (V2P x)))")
  case True
  show ?thesis
    unfolding cow_fault_eval(1) [OF assms(1)] if_P [OF True] succeeds_andthen
    by (rule succeeds_mono [OF cow_copy_spec [OF assms]]) (auto simp: klcr3_def or_bits_W)
next
  case False
  have pt: "pt_ok pgdir s" using assms(1) unfolding cow_fault_def by blast
  note h = cow_fault_eval(2) [OF assms(1)]
  note sp = upd_pte_spec [OF pt h, where f = "\<lambda>e. (e AND NOT PTE_COW) OR PTE_W"]
  have "\<forall>b. PGROUNDDOWN b \<notin> pt_pages (mem s) pgdir \<longrightarrow>
      mem (upd_pte (pte_slot (mem s) pgdir va) (\<lambda>e. (e AND NOT PTE_COW) OR PTE_W) s) b = mem s b"
    using sp(6) table_in_pages [OF fields_less(1) h] by metis
  then show ?thesis
    unfolding cow_fault_eval(1) [OF assms(1)] if_not_P [OF False]
    using sp(2) by (simp add: klcr3_def or_bits_W)
qed

text \<open>
  An example address space: directory at 0x80300000, one page table at 0x80301000 whose first entry
  maps the page 0x80302000 with the flags \<open>fl\<close> and reference count \<open>c\<close>; one free page, 0x80303000.
\<close>

definition vm_mem :: "u32 \<Rightarrow> memory" where
  "vm_mem fl = st32 (st32 (\<lambda>_. 0) 0x80300000 (0x301000 OR PTE_P OR PTE_W OR PTE_U)) 0x80301000 (0x302000 OR fl)"

definition vm_ex :: "u32 \<Rightarrow> u32 \<Rightarrow> kmst" where
  "vm_ex fl c = km0\<lparr>hw := cpu0, ptable := map (\<lambda>p. p\<lparr>p_pgdir := 0x80300000\<rparr>) (ptable km0), mem := vm_mem fl,
     km_freelist := 0x80303000, km_references_count := (\<lambda>i. if i = 0x302 then c else 0)\<rparr>"

lemma vm_mem_ld:
  assumes "aligned4 a"
  shows "ld32 (vm_mem fl) a = (if a = 0x80301000 then 0x302000 OR fl
    else if a = 0x80300000 then 0x301007 else 0)"
proof -
  have "ld32 (\<lambda>_. 0) a = 0" by (simp add: ld32_def)
  moreover have "aligned4 0x80300000" "aligned4 0x80301000" by (simp_all add: aligned4_def)
  ultimately show ?thesis using assms by (auto simp: vm_mem_def ld32_st32)
qed

lemma vm_ex_tables:
  assumes "i < 1024"
  shows "has_table (vm_mem fl) 0x80300000 i = (i = 0)" and "table (vm_mem fl) 0x80300000 0 = 0x80301000"
proof -
  have al: "page_aligned (0x80300000 :: addr)" by (simp add: page_aligned_def)
  have e: "ld32 (vm_mem fl) (0x80300000 + 4 * i) = (if i = 0 then 0x301007 else 0)"
    if "i < 1024" for i
  proof -
    have "0x80300000 + 4 * i \<noteq> 0x80301000"
      using slot(2) [OF al that] by (auto simp: PGROUNDDOWN_def)
    moreover have "0x80300000 + 4 * i = 0x80300000 \<longleftrightarrow> i = 0"
      using slot(3) [OF al that, of 0] by simp
    ultimately show ?thesis using slot(1) [OF al that] by (simp add: vm_mem_ld)
  qed
  show "has_table (vm_mem fl) 0x80300000 i = (i = 0)" using e [OF assms] by (simp add: has_table_def)
  show "table (vm_mem fl) 0x80300000 0 = 0x80301000"
    using e [of 0] by (simp add: table_def PTE_ADDR_def P2V_def)
qed

lemma vm_ex_ok:
  "pt_ok 0x80300000 (vm_ex fl c)" "km_avail (vm_ex fl c) = {0x80303000}"
  "pt_pages (mem (vm_ex fl c)) 0x80300000 = {0x80300000, 0x80301000}"
  "0x80302000 \<in> km_pool (vm_ex fl c)" "ptes (mem (vm_ex fl c)) 0x80300000 0x123 = 0x302000 OR fl"
proof -
  let ?s = "vm_ex fl c"
  have m: "mem ?s = vm_mem fl" by (simp add: vm_ex_def)
  have kp: "kpage ?s a = (page_aligned a \<and> 0x80120000 \<le> a \<and> V2P a < PHYSTOP)" for a
    by (simp add: kpage_def vm_ex_def)
  have "ld32 (vm_mem fl) 0x80303000 = 0" by (subst vm_mem_ld) (simp_all add: aligned4_def)
  moreover have "kpage ?s 0x80303000" unfolding kp by (simp add: page_aligned_def V2P_def)
  ultimately have inv: "kmem_inv ?s [0x80303000]"
    by (simp add: kmem_inv_def m) (simp add: vm_ex_def frame_def V2P_def)
  then show av: "km_avail ?s = {0x80303000}" using km_avail_set by fastforce
  have "kmem_ready ?s" using quiet_simps(2) [OF cpu0_quiet] by (simp add: kmem_ready_def vm_ex_def)
  with inv have ok: "km_ok ?s" by (auto simp: km_ok_def)
  have set: "{i. i < 1024 \<and> has_table (vm_mem fl) 0x80300000 i} = {0}"
    using vm_ex_tables(1) [of _ fl] by auto
  show pp: "pt_pages (mem ?s) 0x80300000 = {0x80300000, 0x80301000}"
    unfolding pt_pages_def m set using vm_ex_tables(2) [of 0] by simp
  have "pt_wf (vm_mem fl) 0x80300000"
    unfolding pt_wf_def set using vm_ex_tables [of _ fl] by (auto simp: page_aligned_def)
  moreover have "{0x80300000, 0x80301000} \<subseteq> km_pool ?s - km_avail ?s"
    unfolding av by (simp add: km_pool_def kp page_aligned_def V2P_def)
  ultimately show "pt_ok 0x80300000 ?s" using ok pp by (simp add: pt_ok_def m)
  show "0x80302000 \<in> km_pool ?s" by (simp add: km_pool_def kp page_aligned_def V2P_def)
  have "PDX 0x123 = 0" "PTX 0x123 = 0" by (simp_all add: PDX_def PTX_def)
  then show "ptes (mem ?s) 0x80300000 0x123 = 0x302000 OR fl"
    using vm_ex_tables [of 0 fl] by (simp add: ptes_def m vm_mem_ld aligned4_def)
qed

lemma vm_ex_cow: "cow_fault (vm_ex (PTE_P OR PTE_U OR PTE_COW) c) 0 0x80300000 0x123 0x80302000"
proof -
  let ?s = "vm_ex (PTE_P OR PTE_U OR PTE_COW) c"
  have "runs (hw ?s) 0" using cpu0_quiet cpu0_cur by (simp add: runs_def vm_ex_def)
  moreover have "p_pgdir (ptable ?s ! 0) = 0x80300000" by (simp add: vm_ex_def kst0_def)
  ultimately show ?thesis
    using vm_ex_ok [of "PTE_P OR PTE_U OR PTE_COW" c]
    by (simp add: cow_fault_def PTE_ADDR_def P2V_def)
qed

theorem handle_cow_private_copy_witness:
  "succeeds (handle_cow 0x123 (vm_ex (PTE_P OR PTE_U OR PTE_COW) 2)) (\<lambda>r t. r \<and>
     ptes (mem t) 0x80300000 0x123 = 0x303007)"
proof -
  let ?s = "vm_ex (PTE_P OR PTE_U OR PTE_COW) 2"
  have "km_references_count ?s (frame (V2P 0x80302000)) = 2" by (simp add: vm_ex_def frame_def V2P_def)
  then show ?thesis
    using handle_cow_private_copy [OF vm_ex_cow [of 2]] vm_ex_ok(2) [of "PTE_P OR PTE_U OR PTE_COW" 2]
    by (auto simp: V2P_def elim!: succeeds_mono)
qed


lemma vm_ex_guard: "cow_fault (vm_ex (PTE_P OR PTE_COW) c) 0 0x80300000 0x123 0x80302000"
proof -
  let ?s = "vm_ex (PTE_P OR PTE_COW) c"
  have "runs (hw ?s) 0" using cpu0_quiet cpu0_cur by (simp add: runs_def vm_ex_def)
  moreover have "p_pgdir (ptable ?s ! 0) = 0x80300000" by (simp add: vm_ex_def kst0_def)
  ultimately show ?thesis
    using vm_ex_ok [of "PTE_P OR PTE_COW" c] by (simp add: cow_fault_def PTE_ADDR_def P2V_def)
qed


end
