(* ===== verification/Policy.thy ===== *)
theory Policy
  imports Cow "HOL-Library.Product_Lexorder"
begin

text \<open>
  Page replacement (vm.c): the bookkeeping the trap handler runs on every page fault
  (\<open>NFUA_update_age\<close>, \<open>AQ_update_queue\<close>), the five selection functions and \<open>next_i_in_mem_to_remove\<close>,
  which the SELECTION of the build picks among. They work on the 16 entries of \<open>memory_pages\<close> of a
  process and on the accessed bits of its page table.

  The locale \<open>min_select\<close> says what a selector promises: the first used entry whose key is minimal;
  NFUA, LAPA and the first half of SCFIFO are interpretations with different keys.
\<close>

section \<open>Definitions\<close>

abbreviation (input) "MAX_UINT \<equiv> (0xFFFFFFFF :: u32)"
abbreviation (input) "NFUA_MSB \<equiv> (0x80000000 :: u32)"

text \<open>The scan for the first used entry with the least key below \<open>mn\<close>; \<open>i\<close> is the current index.\<close>

primrec scan_min :: "(page \<Rightarrow> 'k :: linorder) \<Rightarrow> page list \<Rightarrow> int \<Rightarrow> int \<Rightarrow> 'k \<Rightarrow> int" where
  "scan_min key [] i next_i mn = next_i"
| "scan_min key (q # qs) i next_i mn =
     (if pg_is_used q \<and> key q < mn then scan_min key qs (i + 1) i (key q)
      else scan_min key qs (i + 1) next_i mn)"

definition NFUA_next :: "proc \<Rightarrow> int" where
  "NFUA_next p = scan_min pg_age (p_memory_pages p) 0 (- 1) MAX_UINT"

definition LAPA_ones :: "u32 \<Rightarrow> nat" where
  "LAPA_ones age = foldl (\<lambda>n j. if age AND push_bit j 1 \<noteq> 0 then n + 1 else n) 0 [0..<32]"

primrec LAPA_scan :: "page list \<Rightarrow> int \<Rightarrow> int \<Rightarrow> nat \<Rightarrow> u32 \<Rightarrow> int" where
  "LAPA_scan [] i next_i min_ones min_age = next_i"
| "LAPA_scan (q # qs) i next_i min_ones min_age =
     (if pg_is_used q
      then let curr_ones = LAPA_ones (pg_age q) in
        if curr_ones < min_ones then LAPA_scan qs (i + 1) i curr_ones (pg_age q)
        else if curr_ones = min_ones \<and> pg_age q < min_age then LAPA_scan qs (i + 1) i curr_ones (pg_age q)
        else LAPA_scan qs (i + 1) next_i min_ones min_age
      else LAPA_scan qs (i + 1) next_i min_ones min_age)"

definition LAPA_next :: "proc \<Rightarrow> int" where
  "LAPA_next p = LAPA_scan (p_memory_pages p) 0 (- 1) 42 MAX_UINT"

definition upd_mempage :: "nat \<Rightarrow> nat \<Rightarrow> (page \<Rightarrow> page) \<Rightarrow> 'z kst_scheme \<Rightarrow> 'z kst_scheme" where
  "upd_mempage p i f s = upd_proc p (\<lambda>q. q\<lparr>p_memory_pages := (p_memory_pages q)[i := f (p_memory_pages q ! i)]\<rparr>) s"

definition SCFIFO_next :: "nat \<Rightarrow> 'z kmst_scheme \<Rightarrow> (int, 'z kmst_scheme) out" where
  "SCFIFO_next p s =
     (let ps = p_memory_pages (ptable s ! p); next_i = scan_min pg_time_loaded ps 0 (- 1) MAX_UINT in
      if next_i = - 1 then Panic ''SCFIFO: next i == -1''
      else let q = ps ! nat next_i in
        andthen (walkpgdir (pg_pgdir q) (pg_va q) False s) (\<lambda>pte s.
        if pte = 0 then Panic ''SCFIFO: walkpgdir failed''
        else if ld32 (mem s) pte AND PTE_A \<noteq> 0
        then let s = upd_pte pte (\<lambda>e. e AND NOT PTE_A) s;
                 s = upd_mempage p (nat next_i) (\<lambda>q. q\<lparr>pg_time_loaded := p_timestamp (ptable s ! p)\<rparr>) s in
          Ok (- 1) (upd_proc p (\<lambda>q. q\<lparr>p_timestamp := p_timestamp q + 1\<rparr>) s)
        else Ok next_i s))"

definition AQ_rotate :: "page list \<Rightarrow> page list" where
  "AQ_rotate ps = (let to_remove = ps ! 15 in
     (foldl (\<lambda>ps i. ps[i := ps ! (i - 1)]) ps (rev [1..<16]))[0 := to_remove])"

definition AQ_next :: "nat \<Rightarrow> 'z kst_scheme \<Rightarrow> (int, 'z kst_scheme) out" where
  "AQ_next p s = Ok 0 (upd_proc p (\<lambda>q. q\<lparr>p_memory_pages := AQ_rotate (p_memory_pages q)\<rparr>) s)"

definition RROBIN_next :: "nat \<Rightarrow> 'z kst_scheme \<Rightarrow> (int, 'z kst_scheme) out" where
  "RROBIN_next p s =
     (let s = upd_proc p (\<lambda>q. q\<lparr>p_r_robin := p_r_robin q + 1\<rparr>) s in
      Ok (uint (p_r_robin (ptable s ! p) mod 16)) s)"

text \<open>
  The \<open>do ... while(next_i == -1)\<close> loop. \<open>NFUA_next\<close> and \<open>LAPA_next\<close> change nothing, so their loop ends at
  the first iteration or never. An iteration of SCFIFO that returns -1 has cleared an accessed bit, of
  which there are at most 16: \<open>n\<close> bounds the iterations, and 17 suffice (\<open>SCFIFO_returns\<close> below).
\<close>

primrec SCFIFO_loop :: "nat \<Rightarrow> nat \<Rightarrow> 'z kmst_scheme \<Rightarrow> (int, 'z kmst_scheme) out" where
  "SCFIFO_loop 0 p s = Hang ''SCFIFO''"
| "SCFIFO_loop (Suc n) p s =
     andthen (SCFIFO_next p s) (\<lambda>next_i s. if next_i = - 1 then SCFIFO_loop n p s else Ok next_i s)"

definition next_i_in_mem_to_remove :: "nat \<Rightarrow> 'z kmst_scheme \<Rightarrow> (int, 'z kmst_scheme) out" where
  "next_i_in_mem_to_remove p s =
     (case selection s of
        NFUA \<Rightarrow> (let i = NFUA_next (ptable s ! p) in if i = - 1 then Hang ''NFUA'' else Ok i s)
      | LAPA \<Rightarrow> (let i = LAPA_next (ptable s ! p) in if i = - 1 then Hang ''LAPA'' else Ok i s)
      | SCFIFO \<Rightarrow> SCFIFO_loop 17 p s
      | AQ \<Rightarrow> AQ_next p s
      | RROBIN \<Rightarrow> RROBIN_next p s
      | NONE \<Rightarrow> Panic ''next i == -1'')"

primrec find_page :: "(page \<Rightarrow> bool) \<Rightarrow> int \<Rightarrow> page list \<Rightarrow> int" where
  "find_page P i [] = - 1"
| "find_page P i (q # qs) = (if P q then i else find_page P (i + 1) qs)"

definition next_free_i_in_mem :: "proc \<Rightarrow> int" where
  "next_free_i_in_mem p = find_page (\<lambda>q. \<not> pg_is_used q) 0 (p_memory_pages p)"

definition get_i_of_va_in_mem :: "proc \<Rightarrow> u32 \<Rightarrow> int" where
  "get_i_of_va_in_mem p va = find_page (\<lambda>q. pg_va q = va) 0 (p_memory_pages p)"

definition next_free_i_in_file :: "proc \<Rightarrow> int" where
  "next_free_i_in_file p = find_page (\<lambda>q. \<not> pg_is_used q) 0 (p_file_pages p)"

definition get_i_of_va_in_file :: "proc \<Rightarrow> u32 \<Rightarrow> int" where
  "get_i_of_va_in_file p va = find_page (\<lambda>q. pg_va q = va) 0 (p_file_pages p)"

definition NFUA_age_page :: "nat \<Rightarrow> nat \<Rightarrow> 'z kmst_scheme \<Rightarrow> (unit, 'z kmst_scheme) out" where
  "NFUA_age_page p i s =
     (if \<not> pg_is_used (p_memory_pages (ptable s ! p) ! i) then Ok () s
      else let s = upd_mempage p i (\<lambda>q. q\<lparr>pg_age := drop_bit 1 (pg_age q)\<rparr>) s in
        andthen (walkpgdir (p_pgdir (ptable s ! p)) (pg_va (p_memory_pages (ptable s ! p) ! i)) False s) (\<lambda>pte s.
        if pte = 0 then Panic ''NFUA: walkpgdir failed''
        else if ld32 (mem s) pte AND PTE_A \<noteq> 0
        then Ok () (upd_pte pte (\<lambda>e. e AND NOT PTE_A)
               (upd_mempage p i (\<lambda>q. q\<lparr>pg_age := pg_age q OR NFUA_MSB\<rparr>) s))
        else Ok () s))"

definition NFUA_update_age :: "'z kmst_scheme \<Rightarrow> (unit, 'z kmst_scheme) out" where
  "NFUA_update_age s = andthen (thisproc s) (\<lambda>p s. foreach (NFUA_age_page p) [0..<16] s)"

definition AQ_update_page :: "nat \<Rightarrow> nat \<Rightarrow> 'z kmst_scheme \<Rightarrow> (unit, 'z kmst_scheme) out" where
  "AQ_update_page p i s =
     (let q = ptable s ! p; page_i = p_memory_pages q ! i; page_next_i = p_memory_pages q ! (i - 1) in
      if \<not> (pg_is_used page_i \<and> pg_is_used page_next_i) then Ok () s
      else andthen (walkpgdir (p_pgdir q) (pg_va page_i) False s) (\<lambda>pte_i s.
        if pte_i = 0 then Panic ''AQ_update_queue: walkpgdir page_i failed''
        else andthen (walkpgdir (p_pgdir q) (pg_va page_next_i) False s) (\<lambda>pte_next_i s.
          if pte_next_i = 0 then Panic ''AQ_update_queue: walkpgdir page_prev_i failed''
          else if ld32 (mem s) pte_i AND PTE_A = 0 \<and> ld32 (mem s) pte_next_i AND PTE_A \<noteq> 0
          then Ok () (upd_mempage p i (\<lambda>_. page_next_i) (upd_mempage p (i - 1) (\<lambda>_. page_i) s))
          else Ok () s)))"

definition AQ_update_queue :: "'z kmst_scheme \<Rightarrow> (unit, 'z kmst_scheme) out" where
  "AQ_update_queue s = andthen (thisproc s) (\<lambda>p s. foreach (AQ_update_page p) (rev [1..<16]) s)"

section \<open>Minimum selection\<close>

locale min_select =
  fixes key :: "page \<Rightarrow> 'k :: linorder" and lim :: 'k and select :: "page list \<Rightarrow> int"
  assumes select_none: "\<forall>q \<in> set ps. pg_is_used q \<longrightarrow> \<not> key q < lim \<Longrightarrow> select ps = - 1"
    and select_some: "q \<in> set ps \<Longrightarrow> pg_is_used q \<Longrightarrow> key q < lim \<Longrightarrow>
      \<exists>k < length ps. select ps = int k \<and> pg_is_used (ps ! k) \<and>
        (\<forall>j < length ps. pg_is_used (ps ! j) \<longrightarrow> key (ps ! k) \<le> key (ps ! j)) \<and>
        (\<forall>j < k. pg_is_used (ps ! j) \<longrightarrow> key (ps ! k) < key (ps ! j))"
begin

lemma select_minus1_iff: "select ps = - 1 \<longleftrightarrow> (\<forall>q \<in> set ps. pg_is_used q \<longrightarrow> \<not> key q < lim)"
proof
  assume m: "select ps = - 1"
  show "\<forall>q \<in> set ps. pg_is_used q \<longrightarrow> \<not> key q < lim"
  proof (rule ccontr)
    assume "\<not> ?thesis"
    then obtain q where "q \<in> set ps" "pg_is_used q" "key q < lim" by auto
    from select_some [OF this] m show False by auto
  qed
qed (rule select_none)

lemma select_valid:
  assumes "select ps \<noteq> - 1"
  shows "0 \<le> select ps \<and> nat (select ps) < length ps \<and> pg_is_used (ps ! nat (select ps)) \<and>
    (\<forall>j < length ps. pg_is_used (ps ! j) \<longrightarrow> key (ps ! nat (select ps)) \<le> key (ps ! j))"
proof -
  from assms obtain q where "q \<in> set ps" "pg_is_used q" "key q < lim" by (auto simp: select_minus1_iff)
  from select_some [OF this] show ?thesis by auto
qed

end

lemma scan_min_none:
  "\<forall>q \<in> set ps. pg_is_used q \<longrightarrow> \<not> key q < mn \<Longrightarrow> scan_min key ps i n mn = n"
  by (induction ps arbitrary: i) auto

lemma scan_min_some:
  "q \<in> set ps \<Longrightarrow> pg_is_used q \<Longrightarrow> key q < mn \<Longrightarrow>
   \<exists>k < length ps. scan_min key ps i n mn = i + int k \<and> pg_is_used (ps ! k) \<and> key (ps ! k) < mn \<and>
     (\<forall>j < length ps. pg_is_used (ps ! j) \<longrightarrow> key (ps ! k) \<le> key (ps ! j)) \<and>
     (\<forall>j < k. pg_is_used (ps ! j) \<longrightarrow> key (ps ! k) < key (ps ! j))"
proof (induction ps arbitrary: i n mn q)
  case (Cons p ps)
  show ?case
  proof (cases "pg_is_used p \<and> key p < mn")
    case True
    show ?thesis
    proof (cases "\<exists>r \<in> set ps. pg_is_used r \<and> key r < key p")
      case more: True
      then obtain r where "r \<in> set ps" "pg_is_used r" "key r < key p" by auto
      from Cons.IH [OF this, of "i + 1" i] obtain k where k: "k < length ps"
        "scan_min key ps (i + 1) i (key p) = i + 1 + int k" "pg_is_used (ps ! k)" "key (ps ! k) < key p"
        "\<forall>j < length ps. pg_is_used (ps ! j) \<longrightarrow> key (ps ! k) \<le> key (ps ! j)"
        "\<forall>j < k. pg_is_used (ps ! j) \<longrightarrow> key (ps ! k) < key (ps ! j)" by auto
      then show ?thesis
        using True by (intro exI [of _ "Suc k"]) (auto simp: nth_Cons split: nat.splits)
    next
      case False
      then have "scan_min key ps (i + 1) i (key p) = i" by (intro scan_min_none) auto
      then show ?thesis
        using True False by (intro exI [of _ 0]) (auto simp: nth_Cons not_less split: nat.splits)
    qed
  next
    case False
    then have q: "q \<in> set ps" using Cons.prems by auto
    from Cons.IH [OF q Cons.prems(2,3), of "i + 1" n] obtain k where k: "k < length ps"
      "scan_min key ps (i + 1) n mn = i + 1 + int k" "pg_is_used (ps ! k)" "key (ps ! k) < mn"
      "\<forall>j < length ps. pg_is_used (ps ! j) \<longrightarrow> key (ps ! k) \<le> key (ps ! j)"
      "\<forall>j < k. pg_is_used (ps ! j) \<longrightarrow> key (ps ! k) < key (ps ! j)" by auto
    then show ?thesis
      using False by (intro exI [of _ "Suc k"]) (auto simp: nth_Cons split: nat.splits)
  qed
qed simp

lemma scan_min_select: "min_select key lim (\<lambda>ps. scan_min key ps 0 (- 1) lim)"
proof
  fix q and ps :: "page list" assume "q \<in> set ps" "pg_is_used q" "key q < lim"
  from scan_min_some [where key = key, OF this, of 0 "- 1"]
  show "\<exists>k < length ps. scan_min key ps 0 (- 1) lim = int k \<and> pg_is_used (ps ! k) \<and>
      (\<forall>j < length ps. pg_is_used (ps ! j) \<longrightarrow> key (ps ! k) \<le> key (ps ! j)) \<and>
      (\<forall>j < k. pg_is_used (ps ! j) \<longrightarrow> key (ps ! k) < key (ps ! j))" by auto
qed (rule scan_min_none)

interpretation nfua: min_select pg_age MAX_UINT "\<lambda>ps. scan_min pg_age ps 0 (- 1) MAX_UINT"
  by (rule scan_min_select)

interpretation scfifo: min_select pg_time_loaded MAX_UINT "\<lambda>ps. scan_min pg_time_loaded ps 0 (- 1) MAX_UINT"
  by (rule scan_min_select)

text \<open>LAPA's two-stage comparison is the lexicographic order on (number of ones, age).\<close>

definition lapa_key :: "page \<Rightarrow> nat \<times> u32" where
  "lapa_key q = (LAPA_ones (pg_age q), pg_age q)"

lemma LAPA_scan_lex: "LAPA_scan ps i n k a = scan_min lapa_key ps i n (k, a)"
  by (induction ps arbitrary: i n k a) (auto simp: lapa_key_def Let_def less_prod_def)

interpretation lapa: min_select lapa_key "(42, MAX_UINT)" "\<lambda>ps. LAPA_scan ps 0 (- 1) 42 MAX_UINT"
  unfolding LAPA_scan_lex by (rule scan_min_select)

lemma pt_ok_upd_proc [simp]: "pt_ok pgdir (upd_proc p f s) = pt_ok pgdir s"
  by (simp add: pt_ok_def km_ok_def km_avail_def km_pool_def kmem_inv_def kmem_ready_def kpage_def upd_proc_def)

lemma upd_proc_mem [simp]: "mem (upd_proc p f s) = mem s" "ptable (upd_proc p f s) = (ptable s)[p := f (ptable s ! p)]"
  by (simp_all add: upd_proc_def)

lemma ptable_upd_pte [simp]: "ptable (upd_pte a f s) = ptable s"
  by (simp add: upd_pte_def)

section \<open>Second chance\<close>

text \<open>
  The used entries of \<open>memory_pages\<close> of process \<open>p\<close> describe pages of the page directory \<open>d\<close>, each with a
  page table. \<open>accessed_pages\<close> counts those whose accessed bit is set.
\<close>

abbreviation (input) mem_pages :: "'z kst_scheme \<Rightarrow> nat \<Rightarrow> page list" where
  "mem_pages s p \<equiv> p_memory_pages (ptable s ! p)"

definition resident :: "nat \<Rightarrow> addr \<Rightarrow> 'z kmst_scheme \<Rightarrow> bool" where
  "resident p d s \<longleftrightarrow> p < length (ptable s) \<and> length (mem_pages s p) = 16 \<and> pt_ok d s \<and>
     (\<forall>i < 16. pg_is_used (mem_pages s p ! i) \<longrightarrow> pg_pgdir (mem_pages s p ! i) = d \<and>
        has_table (mem s) d (PDX (pg_va (mem_pages s p ! i))))"

definition accessed :: "addr \<Rightarrow> 'z kmst_scheme \<Rightarrow> page \<Rightarrow> bool" where
  "accessed d s q \<longleftrightarrow> ptes (mem s) d (pg_va q) AND PTE_A \<noteq> 0"

definition accessed_pages :: "nat \<Rightarrow> addr \<Rightarrow> 'z kmst_scheme \<Rightarrow> nat" where
  "accessed_pages p d s = card {i. i < 16 \<and> pg_is_used (mem_pages s p ! i) \<and> accessed d s (mem_pages s p ! i)}"

definition loaded :: "nat \<Rightarrow> 'z kmst_scheme \<Rightarrow> bool" where
  "loaded p s \<longleftrightarrow> (\<exists>q \<in> set (mem_pages s p). pg_is_used q \<and> pg_time_loaded q < MAX_UINT)"

definition same_pages :: "nat \<Rightarrow> 'z kmst_scheme \<Rightarrow> 'z kmst_scheme \<Rightarrow> bool" where
  "same_pages p s t \<longleftrightarrow> map (pg_time_loaded_update (\<lambda>_. 0)) (mem_pages t p) =
     map (pg_time_loaded_update (\<lambda>_. 0)) (mem_pages s p)"

lemma same_pages_trans: "same_pages p s t \<Longrightarrow> same_pages p t u \<Longrightarrow> same_pages p s u"
  by (simp add: same_pages_def)

lemma SCFIFO_second_chance:
  fixes s :: "'z kmst_scheme"
  assumes r: "resident p d s" and i: "i < 16" and u: "pg_is_used (mem_pages s p ! i)"
    and a: "accessed d s (mem_pages s p ! i)" and ts: "p_timestamp (ptable s ! p) < MAX_UINT"
  defines "t \<equiv> upd_proc p (\<lambda>q. q\<lparr>p_timestamp := p_timestamp q + 1\<rparr>)
    (upd_mempage p i (\<lambda>q. q\<lparr>pg_time_loaded := p_timestamp (ptable s ! p)\<rparr>)
      (upd_pte (pte_slot (mem s) d (pg_va (mem_pages s p ! i))) (\<lambda>e. e AND NOT PTE_A) s))"
  shows "resident p d t" and "accessed_pages p d t < accessed_pages p d s" and "loaded p t"
    and "p_timestamp (ptable t ! p) = p_timestamp (ptable s ! p) + 1" and "same_pages p s t"
proof -
  let ?q = "mem_pages s p ! i"
  let ?s1 = "upd_pte (pte_slot (mem s) d (pg_va ?q)) (\<lambda>e. e AND NOT PTE_A) s"
  have p: "p < length (ptable s)" and len: "length (mem_pages s p) = 16" and ok: "pt_ok d s"
    and h: "has_table (mem s) d (PDX (pg_va ?q))"
    using r i u by (auto simp: resident_def)
  note sp = upd_pte_spec [OF ok h, where f = "\<lambda>e. e AND NOT PTE_A"]
  have ok1: "pt_ok d ?s1" using sp(1) by (simp add: grows_def)
  have mp: "mem_pages t p = (mem_pages s p)[i := ?q\<lparr>pg_time_loaded := p_timestamp (ptable s ! p)\<rparr>]"
    and mt: "mem t = mem ?s1" and tt: "p_timestamp (ptable t ! p) = p_timestamp (ptable s ! p) + 1"
    using p by (simp_all add: t_def upd_mempage_def)
  have nth: "mem_pages t p ! j = (if j = i then ?q\<lparr>pg_time_loaded := p_timestamp (ptable s ! p)\<rparr> else mem_pages s p ! j)"
    if "j < 16" for j
    using that len by (auto simp: mp)
  have "pt_ok d t" using ok1 by (simp add: t_def upd_mempage_def)
  moreover have "length (ptable t) = length (ptable s)" by (simp add: t_def upd_mempage_def)
  moreover have "length (mem_pages t p) = 16" by (simp add: mp len)
  moreover have "has_table (mem t) d (PDX va) = has_table (mem s) d (PDX va)" for va
    unfolding mt by (rule sp(5)) simp
  ultimately show "resident p d t"
    using r by (simp add: resident_def nth)
  have cl: "(e AND NOT PTE_A) AND PTE_A = 0" for e :: u32 by (simp only: and.assoc bit.conj_cancel_left and_zero_eq)
  have acc: "accessed d t q \<longrightarrow> accessed d s q" for q
    unfolding accessed_def mt sp(2) using cl by auto
  have "\<not> accessed d t ?q" unfolding accessed_def mt sp(2) using cl by auto
  then have na: "\<not> accessed d t (mem_pages t p ! i)" by (simp add: nth [OF i] accessed_def)
  have sub: "pg_is_used (mem_pages s p ! j) \<and> accessed d s (mem_pages s p ! j)"
    if "j < 16" "pg_is_used (mem_pages t p ! j)" "accessed d t (mem_pages t p ! j)" for j
    using that acc by (auto simp: nth accessed_def split: if_splits)
  have "{j. j < 16 \<and> pg_is_used (mem_pages t p ! j) \<and> accessed d t (mem_pages t p ! j)}
      \<subset> {j. j < 16 \<and> pg_is_used (mem_pages s p ! j) \<and> accessed d s (mem_pages s p ! j)}"
    using i u a na sub by blast
  then show "accessed_pages p d t < accessed_pages p d s"
    unfolding accessed_pages_def by (intro psubset_card_mono) simp
  have "i < length (mem_pages t p)" using i by (simp add: mp len)
  then have "mem_pages t p ! i \<in> set (mem_pages t p)" by (rule nth_mem)
  moreover have "pg_is_used (mem_pages t p ! i)" "pg_time_loaded (mem_pages t p ! i) < MAX_UINT"
    using nth [OF i] u ts by simp_all
  ultimately show "loaded p t" unfolding loaded_def by blast
  show "p_timestamp (ptable t ! p) = p_timestamp (ptable s ! p) + 1" by (rule tt)
  show "same_pages p s t" unfolding same_pages_def mp by (simp add: map_update list_update_same_conv i len)
qed

lemma SCFIFO_next_spec:
  fixes s :: "'z kmst_scheme"
  assumes r: "resident p d s" and l: "loaded p s" and ts: "p_timestamp (ptable s ! p) < MAX_UINT"
  shows "succeeds (SCFIFO_next p s) (\<lambda>i t. if i = - 1 then resident p d t \<and> loaded p t \<and> same_pages p s t \<and>
      accessed_pages p d t < accessed_pages p d s \<and> p_timestamp (ptable t ! p) = p_timestamp (ptable s ! p) + 1
    else t = s \<and> 0 \<le> i \<and> nat i < 16 \<and> pg_is_used (mem_pages s p ! nat i) \<and>
      \<not> accessed d s (mem_pages s p ! nat i))"
proof -
  let ?i = "scan_min pg_time_loaded (mem_pages s p) 0 (- 1) MAX_UINT"
  have ne: "?i \<noteq> - 1" using l by (simp add: scfifo.select_minus1_iff loaded_def)
  from scfifo.select_valid [OF ne] r have i: "0 \<le> ?i" "nat ?i < 16" "pg_is_used (mem_pages s p ! nat ?i)"
    by (auto simp: resident_def)
  let ?q = "mem_pages s p ! nat ?i"
  have q: "pg_pgdir ?q = d" and h: "has_table (mem s) d (PDX (pg_va ?q))" and ok: "pt_ok d s"
    using r i by (auto simp: resident_def)
  have w: "walkpgdir (pg_pgdir ?q) (pg_va ?q) False s = Ok (pte_slot (mem s) d (pg_va ?q)) s"
    "pte_slot (mem s) d (pg_va ?q) \<noteq> 0" using pte_slot_zero [OF ok] h by (simp_all add: q walk_lookup)
  have e: "ld32 (mem s) (pte_slot (mem s) d (pg_va ?q)) AND PTE_A \<noteq> 0 \<longleftrightarrow> accessed d s ?q"
    by (simp add: ptes_slot [OF h] accessed_def)
  show ?thesis
  proof (cases "accessed d s ?q")
    case True
    show ?thesis
      using SCFIFO_second_chance [OF r i(2,3) True ts] ne w e True unfolding SCFIFO_next_def
      by (simp add: Let_def)
  next
    case False
    then show ?thesis using ne w e i unfolding SCFIFO_next_def by (simp add: Let_def)
  qed
qed

lemma SCFIFO_loop_returns:
  fixes s :: "'z kmst_scheme"
  assumes "resident p d s" and "loaded p s" and "accessed_pages p d s < n"
    and "unat (p_timestamp (ptable s ! p)) + n < 2 ^ 32"
  shows "succeeds (SCFIFO_loop n p s) (\<lambda>i t. 0 \<le> i \<and> nat i < 16 \<and> same_pages p s t \<and>
    pg_is_used (mem_pages t p ! nat i) \<and> \<not> accessed d t (mem_pages t p ! nat i))"
  using assms
proof (induction n arbitrary: s)
  case (Suc n)
  have ts: "p_timestamp (ptable s ! p) < MAX_UINT" using Suc.prems(4) by (simp add: word_less_nat_alt)
  have "unat (p_timestamp (ptable s ! p) + 1) = unat (p_timestamp (ptable s ! p)) + 1"
    using Suc.prems(4) unat_plus_lt [of "p_timestamp (ptable s ! p)" 1] by simp
  then have "succeeds (SCFIFO_loop n p t) (\<lambda>i u. 0 \<le> i \<and> nat i < 16 \<and> same_pages p s u \<and>
      pg_is_used (mem_pages u p ! nat i) \<and> \<not> accessed d u (mem_pages u p ! nat i))"
    if "resident p d t" "loaded p t" "same_pages p s t" "accessed_pages p d t < accessed_pages p d s"
      "p_timestamp (ptable t ! p) = p_timestamp (ptable s ! p) + 1" for t :: "'z kmst_scheme"
    using Suc.IH [OF that(1,2)] that(3-5) Suc.prems(3,4) same_pages_trans [OF that(3)]
    by (auto elim!: succeeds_mono)
  then show ?case
    using SCFIFO_next_spec [OF Suc.prems(1,2) ts]
    by (auto elim!: succeeds_mono simp: same_pages_def split: if_splits)
qed simp

section \<open>Properties\<close>


definition scfifo_ex :: kmst where
  "scfifo_ex = upd_proc 0 (\<lambda>q. q\<lparr>p_memory_pages :=
       zero_page\<lparr>pg_pgdir := 0x80300000, pg_is_used := True\<rparr> # replicate 15 zero_page\<rparr>)
     ((vm_ex (PTE_P OR PTE_W OR PTE_U OR PTE_A) 1)\<lparr>selection := SCFIFO\<rparr>)"

lemma pt_ok_selection [simp]: "pt_ok pgdir (s\<lparr>selection := x\<rparr>) = pt_ok pgdir s"
  by (simp add: pt_ok_def km_ok_def km_avail_def km_pool_def kmem_inv_def kmem_ready_def kpage_def)

abbreviation (input) "page_ex \<equiv> zero_page\<lparr>pg_pgdir := 0x80300000, pg_is_used := True\<rparr>"

lemma scfifo_ex_fields:
  "mem_pages scfifo_ex 0 = page_ex # replicate 15 zero_page" "p_timestamp (ptable scfifo_ex ! 0) = 0"
  "length (ptable scfifo_ex) = 1" "mem scfifo_ex = vm_mem (PTE_P OR PTE_W OR PTE_U OR PTE_A)" "selection scfifo_ex = SCFIFO"
  by (simp_all add: scfifo_ex_def vm_ex_def kst0_def upd_proc_def zero_proc_def)

lemma scfifo_ex_ok: "resident 0 0x80300000 scfifo_ex" "loaded 0 scfifo_ex"
proof -
  have ok: "pt_ok 0x80300000 scfifo_ex"
    unfolding scfifo_ex_def pt_ok_upd_proc pt_ok_selection by (rule vm_ex_ok(1))
  have "has_table (mem scfifo_ex) 0x80300000 0" unfolding scfifo_ex_fields by (simp add: vm_ex_tables)
  moreover have "PDX (pg_va page_ex) = 0" by (simp add: zero_page_def PDX_def)
  moreover have "\<not> pg_is_used zero_page" by (simp add: zero_page_def)
  ultimately show "resident 0 0x80300000 scfifo_ex"
    unfolding resident_def using ok by (auto simp: scfifo_ex_fields nth_Cons')
  show "loaded 0 scfifo_ex" by (simp add: loaded_def scfifo_ex_fields zero_page_def)
qed






end
