(* ===== verification/Paging.thy ===== *)
theory Paging
  imports Swapfile Policy
begin

text \<open>
  Demand paging (vm.c): pages of a process above pid 2 are tracked in \<open>memory_pages\<close> (at most 16 in memory) and
  \<open>file_pages\<close> (at most 16 in the swap file). \<open>swap\<close> moves a victim to the file, \<open>allocuvm\<close> grows an
  address space and swaps when memory is full, \<open>handle_pf\<close> brings a page back. Also \<open>loaduvm\<close> and \<open>copyout\<close>,
  with which \<open>exec\<close> fills an address space.
\<close>

section \<open>Definitions\<close>

definition upd_filepage :: "nat \<Rightarrow> nat \<Rightarrow> (page \<Rightarrow> page) \<Rightarrow> 'z kst_scheme \<Rightarrow> 'z kst_scheme" where
  "upd_filepage p i f s = upd_proc p (\<lambda>q. q\<lparr>p_file_pages := (p_file_pages q)[i := f (p_file_pages q ! i)]\<rparr>) s"

definition swap_out :: "nat \<Rightarrow> nat \<Rightarrow> nat \<Rightarrow> 'z flst_scheme \<Rightarrow> (unit, 'z flst_scheme) out" where
  "swap_out p i j s =
     (let q = p_memory_pages (ptable s ! p) ! i;
          s = upd_filepage p j (\<lambda>f. f\<lparr>pg_pgdir := pg_pgdir q, pg_va := pg_va q, pg_is_used := True\<rparr>) s in
      andthen (find_pa (pg_pgdir q) (pg_va q) s) (\<lambda>pa s.
      andthen (kfree (P2V pa) s) (\<lambda>_ s.
      andthen (set_page_flags_in_disk (pg_pgdir q) (pg_va q) (upd_mempage p i (\<lambda>m. m\<lparr>pg_is_used := False\<rparr>) s)) (\<lambda>_ s.
      klcr3 (Some p) s))))"

text \<open>
  \<open>swap\<close>: with the swap file full, \<open>next_free_i_in_file\<close> is -1 and the write starts at offset \<open>-PGSIZE\<close>; the
  file is never that long, so the write fails and so does \<open>swap\<close>.
\<close>

definition swap :: "nat \<Rightarrow> 'z flst_scheme \<Rightarrow> (int, 'z flst_scheme) out" where
  "swap p s =
     (let s = upd_proc p (\<lambda>q. q\<lparr>p_page_faults := p_page_faults q + 1\<rparr>) s in
      andthen (next_i_in_mem_to_remove p s) (\<lambda>i s.
      let j = next_free_i_in_file (ptable s ! p) in
      andthen (writeToSwapFile p (pg_va (p_memory_pages (ptable s ! p) ! nat i)) (of_int j * PGSIZE) PGSIZE s) (\<lambda>r s.
      if r = - 1 then Ok (- 1) s
      else let s = upd_proc p (\<lambda>q. q\<lparr>p_paged_out := p_paged_out q + 1\<rparr>) s in
        if j < 0 then Undef ''file_pages''
        else andthen (swap_out p (nat i) (nat j) s) (\<lambda>_ s. Ok i s))))"

definition bytes_of :: "string \<Rightarrow> byte list" where
  "bytes_of = map (\<lambda>c. of_nat (of_char c))"

text \<open>
  The entry of \<open>memory_pages\<close> for a new page. \<open>swap\<close> returning -1 makes the code write to \<open>memory_pages[-1]\<close>.
\<close>

definition track_page :: "nat \<Rightarrow> addr \<Rightarrow> u32 \<Rightarrow> 'z flst_scheme \<Rightarrow> (unit, 'z flst_scheme) out" where
  "track_page p pgdir a s =
     (let i = next_free_i_in_mem (ptable s ! p) in
      andthen (if selection s = AQ \<and> i \<noteq> - 1 then AQ_next p s else Ok i s) (\<lambda>i s.
      andthen (if i = - 1 then swap p s else Ok i s) (\<lambda>i s.
      if i < 0 then Undef ''memory_pages''
      else let s = upd_mempage p (nat i) (\<lambda>m. m\<lparr>pg_pgdir := pgdir, pg_is_used := True, pg_va := a,
                 pg_time_loaded := p_timestamp (ptable s ! p), pg_age := (if selection s = LAPA then 0xFFFFFFFF else 0)\<rparr>) s in
        Ok () (upd_proc p (\<lambda>q. q\<lparr>p_timestamp := p_timestamp q + 1\<rparr>) s))))"

definition alloc_page ::
  "nat option \<Rightarrow> addr \<Rightarrow> u32 \<Rightarrow> u32 \<Rightarrow> u32 \<Rightarrow> 'z flst_scheme \<Rightarrow> (u32 option, 'z flst_scheme) out" where
  "alloc_page p pgdir oldsz newsz a s =
     andthen (kalloc s) (\<lambda>m s.
     if m = 0
     then andthen (cprintf (Some (bytes_of ''allocuvm out of memory'' @ [10])) [] s) (\<lambda>_ s.
       andthen (deallocuvm pgdir newsz oldsz s) (\<lambda>_ s. Ok (Some 0) s))
     else andthen (mappages pgdir a PGSIZE (V2P m) (PTE_W OR PTE_U) (s\<lparr>mem := memset m 0 PGSIZE (mem s)\<rparr>)) (\<lambda>r s.
       if r < 0
       then andthen (cprintf (Some (bytes_of ''allocuvm out of memory (2)'' @ [10])) [] s) (\<lambda>_ s.
         andthen (deallocuvm pgdir newsz oldsz s) (\<lambda>_ s.
         andthen (kfree m s) (\<lambda>_ s. Ok (Some 0) s)))
       else if check_policy s
       then (case p of None \<Rightarrow> Undef ''null proc'' | Some p \<Rightarrow>
         if 2 < p_pid (ptable s ! p) then andthen (track_page p pgdir a s) (\<lambda>_ s. Ok None s) else Ok None s)
       else Ok None s))"

definition pages_between :: "u32 \<Rightarrow> u32 \<Rightarrow> u32 list" where
  "pages_between a b = map (\<lambda>k. a + of_nat (4096 * k)) [0..<(unat b - unat a + 4095) div 4096]"

definition allocuvm :: "addr \<Rightarrow> u32 \<Rightarrow> u32 \<Rightarrow> 'z flst_scheme \<Rightarrow> (u32, 'z flst_scheme) out" where
  "allocuvm pgdir oldsz newsz s =
     andthen (kmyproc s) (\<lambda>p s.
     if KERNBASE \<le> newsz then Ok 0 s
     else if newsz < oldsz then Ok oldsz s
     else andthen (if \<not> check_policy s then Ok False s
         else case p of None \<Rightarrow> Undef ''null proc'' | Some p \<Rightarrow>
           Ok (2 < p_pid (ptable s ! p) \<and> MAX_TOTAL_PAGES < (PGROUNDUP newsz - PGROUNDUP oldsz) div PGSIZE) s) (\<lambda>big s.
       if big
       then andthen (cprintf (Some (bytes_of ''alloc uvm: space requested(%d) is bigger than max allowed(%d)'' @ [10]))
           [ArgI (PGROUNDUP newsz - PGROUNDUP oldsz), ArgI (PGSIZE * MAX_TOTAL_PAGES)] s) (\<lambda>_ s. Ok 0 s)
       else andthen (forany (alloc_page p pgdir oldsz newsz) (pages_between (PGROUNDUP oldsz) newsz) s) (\<lambda>r s.
         Ok (case r of Some x \<Rightarrow> x | None \<Rightarrow> newsz) s)))"

definition loaduvm_page :: "addr \<Rightarrow> addr \<Rightarrow> nat \<Rightarrow> u32 \<Rightarrow> u32 \<Rightarrow> u32 \<Rightarrow> 'z cst_scheme \<Rightarrow> (int option, 'z cst_scheme) out" where
  "loaduvm_page pgdir addr ip off sz i s =
     andthen (walkpgdir pgdir (addr + i) False s) (\<lambda>pte s.
     if pte = 0 then Panic ''loaduvm: address should exist''
     else let pa = PTE_ADDR (ld32 (mem s) pte); n = (if sz - i < PGSIZE then sz - i else PGSIZE) in
       andthen (readi to_mem ip (P2V pa) (off + i) n s) (\<lambda>(r, _) s.
       Ok (if r \<noteq> uint n then Some (- 1) else None) s))"

definition loaduvm :: "addr \<Rightarrow> addr \<Rightarrow> nat \<Rightarrow> u32 \<Rightarrow> u32 \<Rightarrow> 'z cst_scheme \<Rightarrow> (int, 'z cst_scheme) out" where
  "loaduvm pgdir addr ip off sz s =
     (if addr mod PGSIZE \<noteq> 0 then Panic ''loaduvm: addr must be page aligned''
      else andthen (forany (loaduvm_page pgdir addr ip off sz) (page_starts sz) s) (\<lambda>r s.
        Ok (case r of Some x \<Rightarrow> x | None \<Rightarrow> 0) s))"

function copyout ::
  "('d \<Rightarrow> nat \<Rightarrow> 'z kmst_scheme \<Rightarrow> (byte list \<times> 'd, 'z kmst_scheme) out) \<Rightarrow> addr \<Rightarrow> u32 \<Rightarrow> 'd \<Rightarrow> nat \<Rightarrow>
     'z kmst_scheme \<Rightarrow> (int, 'z kmst_scheme) out" where
  "copyout get pgdir va src len s =
     (if len = 0 then Ok 0 s
      else let va0 = PGROUNDDOWN va; n = min len (unat (PGSIZE - (va - va0))) in
        andthen (uva2ka pgdir va0 s) (\<lambda>pa0 s.
        if pa0 = 0 then Ok (- 1) s
        else andthen (get src n s) (\<lambda>(bs, src) s.
          andthen (umem_write bs (pa0 + (va - va0)) s) (\<lambda>_ s.
          copyout get pgdir (va0 + PGSIZE) src (len - n) s))))"
  by pat_completeness auto

lemma page_rest: "unat (PGSIZE - (va - PGROUNDDOWN va)) = 4096 - unat va mod 4096"
proof -
  have le: "PGROUNDDOWN va \<le> va" by (simp add: word_le_nat_alt unat_PGROUNDDOWN)
  have "unat (va - PGROUNDDOWN va) = unat va mod 4096"
    by (simp add: unat_sub [OF le] unat_PGROUNDDOWN minus_div_mult_eq_mod)
  moreover have "va - PGROUNDDOWN va \<le> PGSIZE"
    unfolding word_le_nat_alt using calculation by (simp add: less_imp_le)
  ultimately show ?thesis by (simp add: unat_sub)
qed

termination copyout
  by (relation "measure (\<lambda>(_, _, _, _, len, _). len)") (auto simp: page_rest)

declare copyout.simps [simp del]

text \<open>
  \<open>handle_pf\<close>; \<open>va\<close> is what \<open>rcr2()\<close> returns. The page is read into the static \<open>buffer\<close> and copied through its new
  mapping. A victim, when one is needed, takes over the slot of the swap file.
\<close>

definition pf_swap :: "nat \<Rightarrow> page \<Rightarrow> nat \<Rightarrow> 'z flst_scheme \<Rightarrow> (unit, 'z flst_scheme) out" where
  "pf_swap p old j s =
     andthen (find_pa (pg_pgdir old) (pg_va old) s) (\<lambda>old_pa s.
     andthen (writeToSwapFile p (pg_va old) (of_nat j * PGSIZE) PGSIZE s) (\<lambda>r s.
     if r = - 1 then Panic ''handle PF: writeToSwapFile failed''
     else let s = upd_proc p (\<lambda>q. q\<lparr>p_paged_out := p_paged_out q + 1\<rparr>) s;
              s = upd_filepage p j (\<lambda>f. f\<lparr>pg_is_used := True, pg_pgdir := pg_pgdir old, pg_va := pg_va old\<rparr>) s in
       andthen (set_page_flags_in_disk (pg_pgdir old) (pg_va old) s) (\<lambda>_ s.
       andthen (klcr3 (Some p) s) (\<lambda>_ s.
       kfree (P2V old_pa) s))))"

definition pf_load :: "nat \<Rightarrow> nat \<Rightarrow> nat \<Rightarrow> 'z kmst_scheme \<Rightarrow> 'z kmst_scheme" where
  "pf_load p i j s =
     (let f = p_file_pages (ptable s ! p) ! j;
          s = upd_mempage p i (\<lambda>_. f) s;
          s = upd_filepage p j (\<lambda>f. f\<lparr>pg_is_used := False, pg_age := 0\<rparr>) s;
          s = (if selection s = LAPA then upd_mempage p i (\<lambda>m. m\<lparr>pg_age := 0xFFFFFFFF\<rparr>) s else s);
          s = upd_mempage p i (\<lambda>m. m\<lparr>pg_time_loaded := p_timestamp (ptable s ! p)\<rparr>) s in
      upd_proc p (\<lambda>q. q\<lparr>p_timestamp := p_timestamp q + 1\<rparr>) s)"

definition handle_pf :: "u32 \<Rightarrow> 'z flst_scheme \<Rightarrow> (bool, 'z flst_scheme) out" where
  "handle_pf va s =
     andthen (thisproc s) (\<lambda>p s.
     let va_rounded = PGROUNDDOWN va in
     andthen (walkpgdir (p_pgdir (ptable s ! p)) va_rounded False s) (\<lambda>pte s.
     if pte = 0 then Panic ''handle_pf: walkdir failed''
     else let e = ld32 (mem s) pte in
       if e AND PTE_P \<noteq> 0 \<or> e AND PTE_PG = 0 then Ok False s
       else andthen (kalloc (upd_proc p (\<lambda>q. q\<lparr>p_page_faults := p_page_faults q + 1\<rparr>) s)) (\<lambda>pa s.
         let free_i = next_free_i_in_mem (ptable s ! p) in
         andthen (if free_i = - 1 then next_i_in_mem_to_remove p s else Ok free_i s) (\<lambda>i s.
         let old = p_memory_pages (ptable s ! p) ! nat i in
         andthen (set_page_flags_in_mem (p_pgdir (ptable s ! p)) va_rounded (V2P pa) s) (\<lambda>_ s.
         andthen (klcr3 (Some p) s) (\<lambda>_ s.
         let j = get_i_of_va_in_file (ptable s ! p) va_rounded in
         if j = - 1 then Panic ''handle PF: cannot find rounded VA''
         else andthen (readFromSwapFile p (kbuffer s) (of_int j * PGSIZE) PGSIZE s) (\<lambda>r s.
           if r \<noteq> 4096 then Panic ''handle PF: readFromSwapFile failed''
           else let s = pf_load p (nat i) (nat j) s in
             andthen (if free_i = - 1 then pf_swap p old (nat j) s else Ok () s) (\<lambda>_ s.
             andthen (umem_read 4096 (kbuffer s) s) (\<lambda>bs s.
             andthen (umem_write bs va_rounded s) (\<lambda>_ s. Ok True s))))))))))"

end
