(* ===== verification/Proc.thy ===== *)
theory Proc
  imports Paging
begin

text \<open>
  The life of a process (proc.c): \<open>allocproc\<close>, \<open>userinit\<close>, \<open>growproc\<close>, \<open>fork\<close>, \<open>exit\<close>, \<open>wait\<close>, the first return of a new
  process (\<open>forkret\<close>) and the process listing. Addresses the linker assigns (\<open>fork_buffer\<close>, \<open>forkret\<close>, \<open>trapret\<close>,
  the embedded initcode, the task state segment of the executing CPU) and the compile-time switch VERBOSE\_PRINT are fields of the state.
  \<open>p_name\<close> is a C string without its NUL.
\<close>

section \<open>Definitions\<close>

record prst = flst +
  kfork_buffer :: addr
  kforkret :: addr
  ktrapret :: addr
  kinitcode :: addr
  kinitcode_size :: u32
  kts :: addr
  verbose_print :: bool
  forkret_first :: bool
  ticks :: u32

definition pinit :: "'z kst_scheme \<Rightarrow> 'z kst_scheme" where
  "pinit s = s\<lparr>hw := initlock LK_ptable ''ptable'' (hw s)\<rparr>"

definition forget_pages :: "nat \<Rightarrow> 'z kst_scheme \<Rightarrow> 'z kst_scheme" where
  "forget_pages p s = upd_proc p (\<lambda>q. q\<lparr>
     p_memory_pages := map (\<lambda>m. m\<lparr>pg_is_used := False\<rparr>) (p_memory_pages q),
     p_file_pages := map (\<lambda>m. m\<lparr>pg_is_used := False\<rparr>) (p_file_pages q)\<rparr>) s"

text \<open>
  A new process: a table entry in state EMBRYO and a kernel stack with, from the top, the trap frame (76
  bytes), the address of \<open>trapret\<close> and a zeroed context that starts at \<open>forkret\<close>.
\<close>

definition alloc_slot :: "'z kst_scheme \<Rightarrow> (nat option, 'z kst_scheme) out" where
  "alloc_slot s =
     andthen (kacquire LK_ptable s) (\<lambda>_ s.
     case find (\<lambda>i. p_state (ptable s ! i) = UNUSED) [0..<NPROC] of
       None \<Rightarrow> andthen (krelease LK_ptable s) (\<lambda>_ s. Ok None s)
     | Some p \<Rightarrow>
         let s = (upd_proc p (\<lambda>q. q\<lparr>p_state := EMBRYO, p_pid := nextpid s\<rparr>) s)\<lparr>nextpid := nextpid s + 1\<rparr> in
         andthen (krelease LK_ptable s) (\<lambda>_ s. Ok (Some p) s))"

definition allocproc :: "'z prst_scheme \<Rightarrow> (nat option, 'z prst_scheme) out" where
  "allocproc s =
     andthen (alloc_slot s) (\<lambda>r s.
     case r of None \<Rightarrow> Ok None s
     | Some p \<Rightarrow>
       andthen (kalloc s) (\<lambda>kstack s.
       let s = upd_proc p (\<lambda>q. q\<lparr>p_kstack := kstack\<rparr>) s in
       if kstack = 0 then Ok None (upd_proc p (\<lambda>q. q\<lparr>p_state := UNUSED\<rparr>) s)
       else let s = upd_proc p (\<lambda>q. q\<lparr>p_swapFile := None, p_timestamp := 0, p_page_faults := 0, p_paged_out := 0\<rparr>) s in
         andthen (if check_policy s \<and> 2 < p_pid (ptable s ! p) then createSwapFile p s else Ok 0 s) (\<lambda>r s.
         if r \<noteq> 0 then Panic ''allocproc: createSwapFile failed''
         else let s = (if check_policy s then forget_pages p s else s);
                  s = s\<lparr>mem := st32 (mem s) (kstack + 4096 - 76 - 4) (ktrapret s)\<rparr> in
           Ok (Some p) (upd_proc p (\<lambda>q. q\<lparr>p_context :=
             \<lparr>ctx_edi = 0, ctx_esi = 0, ctx_ebx = 0, ctx_ebp = 0, ctx_eip = kforkret s\<rparr>\<rparr>) s))))"

definition user_frame :: trapframe where
  "user_frame = \<lparr>tf_edi = 0, tf_esi = 0, tf_ebp = 0, tf_oesp = 0, tf_ebx = 0, tf_edx = 0, tf_ecx = 0, tf_eax = 0,
     tf_gs = 0, tf_fs = 0, tf_es = 0x23, tf_ds = 0x23, tf_trapno = 0, tf_err = 0, tf_eip = 0, tf_cs = 0x1B,
     tf_eflags = 0x200, tf_esp = PGSIZE, tf_ss = 0x23\<rparr>"

definition make_runnable :: "nat \<Rightarrow> 'z kst_scheme \<Rightarrow> (unit, 'z kst_scheme) out" where
  "make_runnable p s =
     andthen (kacquire LK_ptable s) (\<lambda>_ s.
     krelease LK_ptable (upd_proc p (\<lambda>q. q\<lparr>p_state := RUNNABLE\<rparr>) s))"

definition userinit :: "'z prst_scheme \<Rightarrow> (unit, 'z prst_scheme) out" where
  "userinit s =
     andthen (allocproc s) (\<lambda>r s.
     let s = s\<lparr>initproc := r\<rparr> in
     case r of None \<Rightarrow> Undef ''null proc''
     | Some p \<Rightarrow>
       andthen (setupkvm s) (\<lambda>pgdir s.
       let s = upd_proc p (\<lambda>q. q\<lparr>p_pgdir := pgdir\<rparr>) s in
       if pgdir = 0 then Panic ''userinit: out of memory?''
       else andthen (inituvm pgdir (kinitcode s) (kinitcode_size s) s) (\<lambda>_ s.
         let s = upd_proc p (\<lambda>q. q\<lparr>p_sz := PGSIZE, p_tf := user_frame, p_name := bytes_of ''initcode''\<rparr>) s in
         andthen (namei [47] s) (\<lambda>ip s.
         make_runnable p (upd_proc p (\<lambda>q. q\<lparr>p_cwd := ip\<rparr>) s)))))"

definition growproc :: "int \<Rightarrow> 'z prst_scheme \<Rightarrow> (int, 'z prst_scheme) out" where
  "growproc n s =
     andthen (thisproc s) (\<lambda>p s.
     let sz = p_sz (ptable s ! p); pgdir = p_pgdir (ptable s ! p) in
     andthen (if 0 < n then andthen (allocuvm pgdir sz (sz + of_int n) s) (\<lambda>sz s. Ok (sz, sz = 0) s)
       else if n < 0 then andthen (deallocuvm pgdir sz (sz + of_int n) s) (\<lambda>sz s. Ok (sz, sz = 0) s)
       else Ok (sz, False) s) (\<lambda>(sz, failed) s.
     if failed then Ok (- 1) s
     else let s = upd_proc p (\<lambda>q. q\<lparr>p_sz := sz\<rparr>) s in
       andthen (switchuvm (kts s) (Some p) s) (\<lambda>_ s. Ok 0 s)))"

section \<open>Fork\<close>

definition fork_swap_page :: "nat \<Rightarrow> nat \<Rightarrow> nat \<Rightarrow> 'z prst_scheme \<Rightarrow> (unit, 'z prst_scheme) out" where
  "fork_swap_page p np i s =
     andthen (if pg_is_used (p_file_pages (ptable s ! p) ! i)
       then andthen (readFromSwapFile p (kfork_buffer s) (PGSIZE * of_nat i) PGSIZE s) (\<lambda>r s.
         if r \<noteq> 4096 then Panic ''fork: readFromSwapFile != PGSIZE''
         else andthen (writeToSwapFile np (kfork_buffer s) (PGSIZE * of_nat i) PGSIZE s) (\<lambda>r s.
           if r \<noteq> 4096 then Panic ''fork: writeToSwapFile != PGSIZE'' else Ok () s))
       else Ok () s) (\<lambda>_ s.
     let pgdir = p_pgdir (ptable s ! np);
         s = upd_mempage np i (\<lambda>_. (p_memory_pages (ptable s ! p) ! i)\<lparr>pg_pgdir := pgdir\<rparr>) s in
     Ok () (upd_filepage np i (\<lambda>_. (p_file_pages (ptable s ! p) ! i)\<lparr>pg_pgdir := pgdir\<rparr>) s))"

definition fork_file :: "nat \<Rightarrow> nat \<Rightarrow> nat \<Rightarrow> 'z prst_scheme \<Rightarrow> (unit, 'z prst_scheme) out" where
  "fork_file p np fd s = (case p_ofile (ptable s ! p) ! fd of None \<Rightarrow> Ok () s
     | Some f \<Rightarrow> andthen (filedup f s) (\<lambda>f s.
         Ok () (upd_proc np (\<lambda>q. q\<lparr>p_ofile := (p_ofile q)[fd := Some f]\<rparr>) s)))"

definition fork_fail :: "string \<Rightarrow> nat \<Rightarrow> 'z prst_scheme \<Rightarrow> (int, 'z prst_scheme) out" where
  "fork_fail msg np s =
     andthen (cprintf (Some (bytes_of msg @ [10])) [] s) (\<lambda>_ s.
     andthen (kfree (p_kstack (ptable s ! np)) s) (\<lambda>_ s.
     Ok (- 1) (upd_proc np (\<lambda>q. q\<lparr>p_kstack := 0, p_state := UNUSED\<rparr>) s)))"

definition fork :: "'z prst_scheme \<Rightarrow> (int, 'z prst_scheme) out" where
  "fork s =
     andthen (thisproc s) (\<lambda>p s.
     andthen (allocproc s) (\<lambda>r s.
     case r of None \<Rightarrow> Ok (- 1) s
     | Some np \<Rightarrow>
       let pgdir = p_pgdir (ptable s ! p); sz = p_sz (ptable s ! p) in
       andthen (if \<not> check_policy s then copyuvm pgdir sz s else copyonwriteuvm pgdir sz s) (\<lambda>d s.
       let s = upd_proc np (\<lambda>q. q\<lparr>p_pgdir := d\<rparr>) s in
       if d = 0 then fork_fail (if \<not> check_policy s then ''fork: copyuvm failed'' else ''fork: copyonwriteuvm failed'') np s
       else let q = ptable s ! p;
                s = upd_proc np (\<lambda>n. n\<lparr>p_sz := p_sz q, p_parent := Some p, p_tf := p_tf q, p_page_faults := 0,
                  p_timestamp := p_timestamp q, p_paged_out := 0\<rparr>) s in
         andthen (if check_policy s \<and> 2 < p_pid q then foreach (fork_swap_page p np) [0..<MAX_PSYC_PAGES] s else Ok () s) (\<lambda>_ s.
         let s = upd_proc np (\<lambda>n. n\<lparr>p_tf := (p_tf n)\<lparr>tf_eax := 0\<rparr>\<rparr>) s in
         andthen (foreach (fork_file p np) [0..<NOFILE] s) (\<lambda>_ s.
         andthen (case p_cwd (ptable s ! p) of None \<Rightarrow> Undef ''null inode'' | Some ip \<Rightarrow> idup ip s) (\<lambda>ip s.
         let s = upd_proc np (\<lambda>n. n\<lparr>p_cwd := Some ip, p_name := take 15 (p_name (ptable s ! p))\<rparr>) s;
             pid = p_pid (ptable s ! np) in
         andthen (make_runnable np s) (\<lambda>_ s. Ok pid s)))))))"

section \<open>The process listing\<close>

primrec getcallerpcs_loop :: "nat \<Rightarrow> addr \<Rightarrow> memory \<Rightarrow> u32 list" where
  "getcallerpcs_loop 0 ebp m = []"
| "getcallerpcs_loop (Suc n) ebp m =
     (if ebp = 0 \<or> ebp < KERNBASE \<or> ebp = 0xFFFFFFFF then replicate (Suc n) 0
      else ld32 m (ebp + 4) # getcallerpcs_loop n (ld32 m ebp) m)"

definition getcallerpcs :: "addr \<Rightarrow> memory \<Rightarrow> u32 list" where
  "getcallerpcs v m = getcallerpcs_loop 10 (v - 8) m"

fun state_name :: "procstate \<Rightarrow> string" where
  "state_name UNUSED = ''unused''"
| "state_name EMBRYO = ''embryo''"
| "state_name SLEEPING = ''sleep ''"
| "state_name RUNNABLE = ''runble''"
| "state_name RUNNING = ''run   ''"
| "state_name ZOMBIE = ''zombie''"

definition procdump_line :: "nat \<Rightarrow> 'z prst_scheme \<Rightarrow> (unit, 'z prst_scheme) out" where
  "procdump_line i s =
     (let p = ptable s ! i in
      if p_state p = UNUSED then Ok () s
      else andthen (cprintf (Some (bytes_of (''[%d: %s] [alloc pages: %d] [paged out(now): %d] '' @
          ''[page faults: %d] [paged out(total): %d] [name: %s]'')))
          [ArgI (of_int (p_pid p)), ArgS (Some (bytes_of (state_name (p_state p)))), ArgI (PGROUNDUP (p_sz p) div PGSIZE),
           ArgI (of_nat (length (filter pg_is_used (p_file_pages p)))), ArgI (p_page_faults p), ArgI (p_paged_out p),
           ArgS (Some (p_name p))] s) (\<lambda>_ s.
        andthen (if p_state p = SLEEPING
          then foreach (\<lambda>pc s. cprintf (Some (bytes_of '' %p'')) [ArgI pc] s)
            (takeWhile (\<lambda>pc. pc \<noteq> 0) (getcallerpcs (ctx_ebp (p_context p) + 8) (mem s))) s
          else Ok () s) (\<lambda>_ s.
        cprintf (Some [10]) [] s)))"

definition procdump :: "'z prst_scheme \<Rightarrow> (unit, 'z prst_scheme) out" where
  "procdump s =
     andthen (foreach procdump_line [0..<NPROC] s) (\<lambda>_ s.
     andthen (free_pages s) (\<lambda>n s.
     cprintf (Some (bytes_of ''%d / %d free page frames in the system'' @ [10]))
       [ArgI (of_int n), ArgI (of_int (total_pages s))] s))"

section \<open>Exit and wait\<close>

definition close_file :: "nat \<Rightarrow> nat \<Rightarrow> 'z flst_scheme \<Rightarrow> (unit, 'z flst_scheme) out" where
  "close_file p fd s = (case p_ofile (ptable s ! p) ! fd of None \<Rightarrow> Ok () s
     | Some f \<Rightarrow> andthen (fileclose f s) (\<lambda>_ s. Ok () (upd_proc p (\<lambda>q. q\<lparr>p_ofile := (p_ofile q)[fd := None]\<rparr>) s)))"

definition wakeup_proc :: "nat option \<Rightarrow> 'z kst_scheme \<Rightarrow> 'z kst_scheme" where
  "wakeup_proc q s = (case q of None \<Rightarrow> s | Some i \<Rightarrow> wakeup1 (Ch_proc i) s)"

definition reparent :: "nat \<Rightarrow> nat \<Rightarrow> 'z kst_scheme \<Rightarrow> 'z kst_scheme" where
  "reparent p i s =
     (if p_parent (ptable s ! i) \<noteq> Some p then s
      else let s = upd_proc i (\<lambda>q. q\<lparr>p_parent := initproc s\<rparr>) s in
        if p_state (ptable s ! i) = ZOMBIE then wakeup_proc (initproc s) s else s)"

definition exit :: "'z prst_scheme \<Rightarrow> (unit, 'z prst_scheme) out" where
  "exit s =
     andthen (thisproc s) (\<lambda>p s.
     if Some p = initproc s then Panic ''init exiting''
     else andthen (foreach (close_file p) [0..<NOFILE] s) (\<lambda>_ s.
       andthen (if check_policy s \<and> 2 < p_pid (ptable s ! p) then removeSwapFile p s else Ok 0 s) (\<lambda>r s.
       if r = - 1 then Panic ''exit: removeSwapFile failed!''
       else andthen (begin_op s) (\<lambda>_ s.
         andthen (case p_cwd (ptable s ! p) of None \<Rightarrow> Undef ''null inode'' | Some ip \<Rightarrow> iput ip s) (\<lambda>_ s.
         andthen (end_op s) (\<lambda>_ s.
         let s = upd_proc p (\<lambda>q. q\<lparr>p_cwd := None\<rparr>) s in
         andthen (kacquire LK_ptable s) (\<lambda>_ s.
         let s = wakeup_proc (p_parent (ptable s ! p)) s;
             s = foldl (\<lambda>s i. reparent p i s) s [0..<NPROC];
             s = upd_proc p (\<lambda>q. q\<lparr>p_state := ZOMBIE\<rparr>) s in
         andthen (if verbose_print s then procdump s else Ok () s) (\<lambda>_ s.
         andthen (sched s) (\<lambda>_ s. Panic ''zombie exit'')))))))))"

text \<open>Reaping a zombie child; one scan of the table yields the pid of a reaped child or whether there are children.\<close>

definition reap :: "nat \<Rightarrow> 'z prst_scheme \<Rightarrow> (int, 'z prst_scheme) out" where
  "reap i s =
     (let pid = p_pid (ptable s ! i) in
      andthen (kfree (p_kstack (ptable s ! i)) s) (\<lambda>_ s.
      andthen (freevm (p_pgdir (ptable s ! i)) (upd_proc i (\<lambda>q. q\<lparr>p_kstack := 0\<rparr>) s)) (\<lambda>_ s.
      let s = upd_proc i (\<lambda>q. q\<lparr>p_pid := 0\<rparr>) s;
          s = (if check_policy s then forget_pages i s else s);
          s = upd_proc i (\<lambda>q. q\<lparr>p_parent := None, p_name := [], p_killed := False, p_state := UNUSED\<rparr>) s in
      andthen (krelease LK_ptable s) (\<lambda>_ s. Ok pid s))))"

definition wait :: "'z prst_scheme \<Rightarrow> (int, 'z prst_scheme) out" where
  "wait s =
     andthen (thisproc s) (\<lambda>p s.
     andthen (kacquire LK_ptable s) (\<lambda>_ s.
     case find (\<lambda>i. p_parent (ptable s ! i) = Some p \<and> p_state (ptable s ! i) = ZOMBIE) [0..<NPROC] of
       Some i \<Rightarrow> reap i s
     | None \<Rightarrow>
         if (\<forall>i\<in>set [0..<NPROC]. p_parent (ptable s ! i) \<noteq> Some p) \<or> p_killed (ptable s ! p)
         then andthen (krelease LK_ptable s) (\<lambda>_ s. Ok (- 1) s)
         else suspend (Ch_proc p) LK_ptable s))"

definition forkret :: "'z prst_scheme \<Rightarrow> (unit, 'z prst_scheme) out" where
  "forkret s =
     andthen (krelease LK_ptable s) (\<lambda>_ s.
     if forkret_first s
     then andthen (iinit ROOTDEV (s\<lparr>forkret_first := False\<rparr>)) (\<lambda>_ s. initlog ROOTDEV s)
     else Ok () s)"

end
