(* ===== verification/Exec.thy ===== *)
theory Exec
  imports Proc
begin

text \<open>
  Loading a program (exec.c) with the ELF formats of elf.h. Every failure after the path has been found ends in the
  panic at label \<open>bad\<close>. The argument strings are in the memory of the calling process; \<open>argv\<close> lists their
  addresses up to the terminating null pointer.
\<close>

section \<open>Definitions\<close>

abbreviation (input) "MAXARG \<equiv> (32 :: nat)"
abbreviation (input) "ELF_MAGIC \<equiv> (0x464C457F :: u32)"
abbreviation (input) "ELF_PROG_LOAD \<equiv> (1 :: u32)"

record elfhdr =
  e_magic :: u32
  e_entry :: u32
  e_phoff :: u32
  e_phnum :: ushort

definition get_elfhdr :: "byte list \<Rightarrow> elfhdr" where
  "get_elfhdr b = \<lparr>e_magic = get32 b 0, e_entry = get32 b 24, e_phoff = get32 b 28, e_phnum = get16 b 44\<rparr>"

record proghdr =
  ph_type :: u32
  ph_off :: u32
  ph_vaddr :: u32
  ph_filesz :: u32
  ph_memsz :: u32

definition get_proghdr :: "byte list \<Rightarrow> proghdr" where
  "get_proghdr b = \<lparr>ph_type = get32 b 0, ph_off = get32 b 4, ph_vaddr = get32 b 8, ph_filesz = get32 b 16, ph_memsz = get32 b 20\<rparr>"

text \<open>The NUL-terminated string at \<open>va\<close>, looked for in at most \<open>n\<close> bytes.\<close>

primrec user_str :: "nat \<Rightarrow> addr \<Rightarrow> 'z kmst_scheme \<Rightarrow> (byte list option, 'z kmst_scheme) out" where
  "user_str 0 va s = Ok None s"
| "user_str (Suc n) va s =
     andthen (umem_read 1 va s) (\<lambda>bs s.
     if hd bs = 0 then Ok (Some []) s
     else andthen (user_str n (va + 1) s) (\<lambda>r s. Ok (map_option (Cons (hd bs)) r) s))"

definition load_segment :: "addr \<Rightarrow> nat \<Rightarrow> proghdr \<Rightarrow> u32 \<Rightarrow> 'z flst_scheme \<Rightarrow> (u32, 'z flst_scheme) out" where
  "load_segment pgdir ip ph sz s =
     (if ph_type ph \<noteq> ELF_PROG_LOAD then Ok sz s
      else if ph_memsz ph < ph_filesz ph \<or> ph_vaddr ph + ph_memsz ph < ph_vaddr ph then Panic ''EXEC FAILED!''
      else andthen (allocuvm pgdir sz (ph_vaddr ph + ph_memsz ph) s) (\<lambda>sz s.
        if sz = 0 \<or> ph_vaddr ph mod PGSIZE \<noteq> 0 then Panic ''EXEC FAILED!''
        else andthen (loaduvm pgdir (ph_vaddr ph) ip (ph_off ph) (ph_filesz ph) s) (\<lambda>r s.
          if r < 0 then Panic ''EXEC FAILED!'' else Ok sz s)))"

primrec load_segments :: "nat \<Rightarrow> addr \<Rightarrow> nat \<Rightarrow> u32 \<Rightarrow> u32 \<Rightarrow> 'z flst_scheme \<Rightarrow> (u32, 'z flst_scheme) out" where
  "load_segments 0 pgdir ip off sz s = Ok sz s"
| "load_segments (Suc n) pgdir ip off sz s =
     andthen (readi to_local ip [] off 32 s) (\<lambda>(r, bs) s.
     if r \<noteq> 32 then Panic ''EXEC FAILED!''
     else andthen (load_segment pgdir ip (get_proghdr bs) sz s) (\<lambda>sz s.
       load_segments n pgdir ip (off + 32) sz s))"

primrec push_args :: "addr \<Rightarrow> u32 \<Rightarrow> u32 list \<Rightarrow> addr list \<Rightarrow> 'z prst_scheme \<Rightarrow> (u32 \<times> u32 list, 'z prst_scheme) out" where
  "push_args pgdir sp sps [] s = Ok (sp, sps) s"
| "push_args pgdir sp sps (a # as) s =
     (if MAXARG \<le> length sps then Panic ''EXEC FAILED!''
      else andthen (thisproc s) (\<lambda>p s.
        andthen (user_str (unat (p_sz (ptable s ! p) - a)) a s) (\<lambda>str s.
        case str of None \<Rightarrow> Undef ''unterminated string''
        | Some t \<Rightarrow>
          let n = length t + 1; sp = (sp - of_nat n) AND NOT 3 in
          andthen (copyout from_mem pgdir sp a n s) (\<lambda>r s.
          if r < 0 then Panic ''EXEC FAILED!'' else push_args pgdir sp (sps @ [sp]) as s))))"

definition base_name :: "byte list \<Rightarrow> byte list" where
  "base_name path = rev (takeWhile (\<lambda>c. c \<noteq> 47) (rev path))"

definition words_bytes :: "u32 list \<Rightarrow> byte list" where
  "words_bytes ws = concat (map (\<lambda>w. put32 (replicate 4 0) 0 w) ws)"

definition exec_stack :: "addr \<Rightarrow> u32 \<Rightarrow> addr list \<Rightarrow> 'z prst_scheme \<Rightarrow> (u32, 'z prst_scheme) out" where
  "exec_stack pgdir sz argv s =
     andthen (push_args pgdir sz [] argv s) (\<lambda>(sp, sps) s.
     let argc = of_nat (length sps);
         ustack = [0xFFFFFFFF, argc, sp - (argc + 1) * 4] @ sps @ [0];
         sp = sp - (3 + argc + 1) * 4 in
     andthen (copyout from_local pgdir sp (words_bytes ustack) (4 * length ustack) s) (\<lambda>r s.
     if r < 0 then Panic ''EXEC FAILED!'' else Ok sp s))"

definition exec :: "byte list \<Rightarrow> addr list \<Rightarrow> 'z prst_scheme \<Rightarrow> (int, 'z prst_scheme) out" where
  "exec path argv s =
     andthen (thisproc s) (\<lambda>p s.
     andthen (begin_op s) (\<lambda>_ s.
     andthen (namei path s) (\<lambda>r s.
     case r of
       None \<Rightarrow> andthen (end_op s) (\<lambda>_ s.
         andthen (cprintf (Some (bytes_of ''exec: fail'' @ [10])) [] s) (\<lambda>_ s. Ok (- 1) s))
     | Some ip \<Rightarrow>
       andthen (ilock (Some ip) s) (\<lambda>_ s.
       andthen (readi to_local ip [] 0 52 s) (\<lambda>(r, bs) s.
       if r \<noteq> 52 \<or> e_magic (get_elfhdr bs) \<noteq> ELF_MAGIC then Panic ''EXEC FAILED!''
       else let elf = get_elfhdr bs in
         andthen (setupkvm s) (\<lambda>pgdir s.
         if pgdir = 0 then Panic ''EXEC FAILED!''
         else andthen (load_segments (unat (e_phnum elf)) pgdir ip (e_phoff elf) 0 s) (\<lambda>sz s.
           andthen (iunlockput ip s) (\<lambda>_ s.
           andthen (end_op s) (\<lambda>_ s.
           let sz = PGROUNDUP sz in
           andthen (allocuvm pgdir sz (sz + 2 * PGSIZE) s) (\<lambda>sz s.
           if sz = 0 then Panic ''EXEC FAILED!''
           else andthen (clearpteu pgdir (sz - 2 * PGSIZE) s) (\<lambda>_ s.
             andthen (exec_stack pgdir sz argv s) (\<lambda>sp s.
             let oldpgdir = p_pgdir (ptable s ! p);
                 s = upd_proc p (\<lambda>q. q\<lparr>p_name := take 15 (base_name path), p_pgdir := pgdir, p_sz := sz,
                   p_tf := (p_tf q)\<lparr>tf_eip := e_entry elf, tf_esp := sp\<rparr>\<rparr>) s in
             andthen (switchuvm (kts s) (Some p) s) (\<lambda>_ s.
             andthen (freevm oldpgdir s) (\<lambda>_ s. Ok 0 s))))))))))))))"

end
