(* ===== verification/Sysfile.thy ===== *)
theory Sysfile
  imports Exec
begin

text \<open>
  System calls: fetching arguments from the memory of the process (syscall.c), the calls on files (sysfile.c) and on
  processes (sysproc.c), and the dispatcher. A call returns the value for \<open>%eax\<close>.
\<close>

section \<open>Arguments\<close>

definition fetchint :: "u32 \<Rightarrow> 'z kmst_scheme \<Rightarrow> (u32 option, 'z kmst_scheme) out" where
  "fetchint addr s =
     andthen (thisproc s) (\<lambda>p s.
     if p_sz (ptable s ! p) \<le> addr \<or> p_sz (ptable s ! p) < addr + 4 then Ok None s
     else andthen (umem_word addr s) (\<lambda>w s. Ok (Some w) s))"

definition fetchstr :: "u32 \<Rightarrow> 'z kmst_scheme \<Rightarrow> (byte list option, 'z kmst_scheme) out" where
  "fetchstr addr s =
     andthen (thisproc s) (\<lambda>p s.
     if p_sz (ptable s ! p) \<le> addr then Ok None s
     else user_str (unat (p_sz (ptable s ! p) - addr)) addr s)"

definition argint :: "nat \<Rightarrow> 'z kmst_scheme \<Rightarrow> (u32 option, 'z kmst_scheme) out" where
  "argint n s =
     andthen (thisproc s) (\<lambda>p s. fetchint (tf_esp (p_tf (ptable s ! p)) + 4 + 4 * of_nat n) s)"

definition argptr :: "nat \<Rightarrow> int \<Rightarrow> 'z kmst_scheme \<Rightarrow> (addr option, 'z kmst_scheme) out" where
  "argptr n sz s =
     andthen (thisproc s) (\<lambda>p s.
     andthen (argint n s) (\<lambda>r s.
     case r of None \<Rightarrow> Ok None s
     | Some i \<Rightarrow>
       if sz < 0 \<or> p_sz (ptable s ! p) \<le> i \<or> p_sz (ptable s ! p) < i + of_int sz then Ok None s
       else Ok (Some i) s))"

definition argstr :: "nat \<Rightarrow> 'z kmst_scheme \<Rightarrow> (byte list option, 'z kmst_scheme) out" where
  "argstr n s = andthen (argint n s) (\<lambda>r s. case r of None \<Rightarrow> Ok None s | Some a \<Rightarrow> fetchstr a s)"

section \<open>Calls on files\<close>

definition argfd :: "nat \<Rightarrow> 'z kmst_scheme \<Rightarrow> ((nat \<times> nat) option, 'z kmst_scheme) out" where
  "argfd n s =
     andthen (argint n s) (\<lambda>r s.
     case r of None \<Rightarrow> Ok None s
     | Some w \<Rightarrow>
       if sint w < 0 \<or> int NOFILE \<le> sint w then Ok None s
       else andthen (thisproc s) (\<lambda>p s.
         Ok (map_option (\<lambda>f. (nat (sint w), f)) (p_ofile (ptable s ! p) ! nat (sint w))) s))"

definition fdalloc :: "nat \<Rightarrow> 'z kst_scheme \<Rightarrow> (nat option, 'z kst_scheme) out" where
  "fdalloc f s =
     andthen (thisproc s) (\<lambda>p s.
     case find (\<lambda>fd. p_ofile (ptable s ! p) ! fd = None) [0..<NOFILE] of
       None \<Rightarrow> Ok None s
     | Some fd \<Rightarrow> Ok (Some fd) (upd_proc p (\<lambda>q. q\<lparr>p_ofile := (p_ofile q)[fd := Some f]\<rparr>) s))"

definition sys_dup :: "'z prst_scheme \<Rightarrow> (int, 'z prst_scheme) out" where
  "sys_dup s =
     andthen (argfd 0 s) (\<lambda>r s. case r of None \<Rightarrow> Ok (- 1) s | Some (_, f) \<Rightarrow>
     andthen (fdalloc f s) (\<lambda>r s. case r of None \<Rightarrow> Ok (- 1) s | Some fd \<Rightarrow>
     andthen (filedup f s) (\<lambda>_ s. Ok (int fd) s)))"

text \<open>The arguments of \<open>read\<close> and \<open>write\<close>: a file, a length and a buffer of that length.\<close>

definition rw_args :: "'z prst_scheme \<Rightarrow> ((nat \<times> addr \<times> int) option, 'z prst_scheme) out" where
  "rw_args s =
     andthen (argfd 0 s) (\<lambda>r s. case r of None \<Rightarrow> Ok None s | Some (_, f) \<Rightarrow>
     andthen (argint 2 s) (\<lambda>r s. case r of None \<Rightarrow> Ok None s | Some n \<Rightarrow>
     andthen (argptr 1 (sint n) s) (\<lambda>r s. Ok (map_option (\<lambda>p. (f, p, sint n)) r) s)))"

definition sys_read :: "'z prst_scheme \<Rightarrow> (int, 'z prst_scheme) out" where
  "sys_read s = andthen (rw_args s) (\<lambda>r s. case r of None \<Rightarrow> Ok (- 1) s | Some (f, p, n) \<Rightarrow> fileread f p n s)"

definition sys_write :: "'z prst_scheme \<Rightarrow> (int, 'z prst_scheme) out" where
  "sys_write s = andthen (rw_args s) (\<lambda>r s. case r of None \<Rightarrow> Ok (- 1) s | Some (f, p, n) \<Rightarrow> filewrite f p n s)"

definition sys_close :: "'z prst_scheme \<Rightarrow> (int, 'z prst_scheme) out" where
  "sys_close s =
     andthen (argfd 0 s) (\<lambda>r s. case r of None \<Rightarrow> Ok (- 1) s | Some (fd, f) \<Rightarrow>
     andthen (thisproc s) (\<lambda>p s.
     andthen (fileclose f (upd_proc p (\<lambda>q. q\<lparr>p_ofile := (p_ofile q)[fd := None]\<rparr>) s)) (\<lambda>_ s. Ok 0 s)))"

definition sys_fstat :: "'z prst_scheme \<Rightarrow> (int, 'z prst_scheme) out" where
  "sys_fstat s =
     andthen (argfd 0 s) (\<lambda>r s. case r of None \<Rightarrow> Ok (- 1) s | Some (_, f) \<Rightarrow>
     andthen (argptr 1 20 s) (\<lambda>r s. case r of None \<Rightarrow> Ok (- 1) s | Some st \<Rightarrow> filestat f st s))"

definition link_bad :: "nat \<Rightarrow> 'z cst_scheme \<Rightarrow> (int, 'z cst_scheme) out" where
  "link_bad ip s =
     andthen (ilock (Some ip) s) (\<lambda>_ s.
     andthen (iupdate ip (upd_inode ip (\<lambda>q. q\<lparr>i_nlink := i_nlink q - 1\<rparr>) s)) (\<lambda>_ s.
     andthen (iunlockput ip s) (\<lambda>_ s.
     andthen (end_op s) (\<lambda>_ s. Ok (- 1) s))))"

definition link_entry :: "nat \<Rightarrow> byte list \<Rightarrow> 'z cst_scheme \<Rightarrow> (int, 'z cst_scheme) out" where
  "link_entry ip new s =
     andthen (nameiparent new s) (\<lambda>r s.
     case r of None \<Rightarrow> link_bad ip s
     | Some (dp, name) \<Rightarrow>
       andthen (ilock (Some dp) s) (\<lambda>_ s.
       andthen (if i_dev (icache s ! dp) \<noteq> i_dev (icache s ! ip) then Ok (- 1) s
         else dirlink dp name (i_inum (icache s ! ip)) s) (\<lambda>r s.
       andthen (iunlockput dp s) (\<lambda>_ s.
       if r < 0 then link_bad ip s
       else andthen (iput ip s) (\<lambda>_ s. andthen (end_op s) (\<lambda>_ s. Ok 0 s))))))"

definition sys_link :: "'z prst_scheme \<Rightarrow> (int, 'z prst_scheme) out" where
  "sys_link s =
     andthen (argstr 0 s) (\<lambda>r s. case r of None \<Rightarrow> Ok (- 1) s | Some old \<Rightarrow>
     andthen (argstr 1 s) (\<lambda>r s. case r of None \<Rightarrow> Ok (- 1) s | Some new \<Rightarrow>
     andthen (begin_op s) (\<lambda>_ s.
     andthen (namei old s) (\<lambda>r s.
     case r of None \<Rightarrow> andthen (end_op s) (\<lambda>_ s. Ok (- 1) s)
     | Some ip \<Rightarrow>
       andthen (ilock (Some ip) s) (\<lambda>_ s.
       if i_type (icache s ! ip) = T_DIR
       then andthen (iunlockput ip s) (\<lambda>_ s. andthen (end_op s) (\<lambda>_ s. Ok (- 1) s))
       else andthen (iupdate ip (upd_inode ip (\<lambda>q. q\<lparr>i_nlink := i_nlink q + 1\<rparr>) s)) (\<lambda>_ s.
         andthen (iunlock (Some ip) s) (\<lambda>_ s. link_entry ip new s)))))))"

definition sys_unlink :: "'z prst_scheme \<Rightarrow> (int, 'z prst_scheme) out" where
  "sys_unlink s = andthen (argstr 0 s) (\<lambda>r s. case r of None \<Rightarrow> Ok (- 1) s | Some path \<Rightarrow> unlink_path path s)"

text \<open>The inode \<open>open\<close> works on, locked.\<close>

definition open_inode :: "byte list \<Rightarrow> u32 \<Rightarrow> 'z cst_scheme \<Rightarrow> (nat option, 'z cst_scheme) out" where
  "open_inode path omode s =
     (if omode AND 0x200 \<noteq> 0 then create path T_FILE 0 0 s
      else andthen (namei path s) (\<lambda>r s.
        case r of None \<Rightarrow> Ok None s
        | Some ip \<Rightarrow>
          andthen (ilock (Some ip) s) (\<lambda>_ s.
          if i_type (icache s ! ip) = T_DIR \<and> omode \<noteq> 0
          then andthen (iunlockput ip s) (\<lambda>_ s. Ok None s) else Ok (Some ip) s)))"

definition open_fd :: "'z prst_scheme \<Rightarrow> ((nat \<times> nat) option, 'z prst_scheme) out" where
  "open_fd s =
     andthen (filealloc s) (\<lambda>f s. case f of None \<Rightarrow> Ok None s | Some f \<Rightarrow>
     andthen (fdalloc f s) (\<lambda>fd s. case fd of
       None \<Rightarrow> andthen (fileclose f s) (\<lambda>_ s. Ok None s)
     | Some fd \<Rightarrow> Ok (Some (f, fd)) s))"

definition sys_open :: "'z prst_scheme \<Rightarrow> (int, 'z prst_scheme) out" where
  "sys_open s =
     andthen (argstr 0 s) (\<lambda>r s. case r of None \<Rightarrow> Ok (- 1) s | Some path \<Rightarrow>
     andthen (argint 1 s) (\<lambda>r s. case r of None \<Rightarrow> Ok (- 1) s | Some omode \<Rightarrow>
     andthen (begin_op s) (\<lambda>_ s.
     andthen (open_inode path omode s) (\<lambda>r s.
     case r of None \<Rightarrow> andthen (end_op s) (\<lambda>_ s. Ok (- 1) s)
     | Some ip \<Rightarrow>
       andthen (open_fd s) (\<lambda>r s.
       case r of
         None \<Rightarrow> andthen (iunlockput ip s) (\<lambda>_ s. andthen (end_op s) (\<lambda>_ s. Ok (- 1) s))
       | Some (f, fd) \<Rightarrow>
         andthen (iunlock (Some ip) s) (\<lambda>_ s.
         andthen (end_op s) (\<lambda>_ s.
         Ok (int fd) (upd_file f (\<lambda>q. q\<lparr>f_type := FD_INODE, f_ip := Some ip, f_off := 0,
           f_readable := (if omode AND 1 = 0 then 1 else 0),
           f_writable := (if omode AND 1 \<noteq> 0 \<or> omode AND 2 \<noteq> 0 then 1 else 0)\<rparr>) s))))))))"

definition sys_mkdir :: "'z prst_scheme \<Rightarrow> (int, 'z prst_scheme) out" where
  "sys_mkdir s =
     andthen (begin_op s) (\<lambda>_ s.
     andthen (argstr 0 s) (\<lambda>r s.
     andthen (case r of None \<Rightarrow> Ok None s | Some path \<Rightarrow> create path T_DIR 0 0 s) (\<lambda>r s.
     case r of None \<Rightarrow> andthen (end_op s) (\<lambda>_ s. Ok (- 1) s)
     | Some ip \<Rightarrow> andthen (iunlockput ip s) (\<lambda>_ s. andthen (end_op s) (\<lambda>_ s. Ok 0 s)))))"

definition sys_mknod :: "'z prst_scheme \<Rightarrow> (int, 'z prst_scheme) out" where
  "sys_mknod s =
     andthen (begin_op s) (\<lambda>_ s.
     andthen (argstr 0 s) (\<lambda>r s.
     andthen (case r of None \<Rightarrow> Ok None s | Some path \<Rightarrow>
       andthen (argint 1 s) (\<lambda>r s. case r of None \<Rightarrow> Ok None s | Some major \<Rightarrow>
       andthen (argint 2 s) (\<lambda>r s. case r of None \<Rightarrow> Ok None s | Some minor \<Rightarrow>
       create path T_DEV (ucast major) (ucast minor) s))) (\<lambda>r s.
     case r of None \<Rightarrow> andthen (end_op s) (\<lambda>_ s. Ok (- 1) s)
     | Some ip \<Rightarrow> andthen (iunlockput ip s) (\<lambda>_ s. andthen (end_op s) (\<lambda>_ s. Ok 0 s)))))"

definition sys_chdir :: "'z prst_scheme \<Rightarrow> (int, 'z prst_scheme) out" where
  "sys_chdir s =
     andthen (thisproc s) (\<lambda>p s.
     andthen (begin_op s) (\<lambda>_ s.
     andthen (argstr 0 s) (\<lambda>r s.
     andthen (case r of None \<Rightarrow> Ok None s | Some path \<Rightarrow> namei path s) (\<lambda>r s.
     case r of None \<Rightarrow> andthen (end_op s) (\<lambda>_ s. Ok (- 1) s)
     | Some ip \<Rightarrow>
       andthen (ilock (Some ip) s) (\<lambda>_ s.
       if i_type (icache s ! ip) \<noteq> T_DIR
       then andthen (iunlockput ip s) (\<lambda>_ s. andthen (end_op s) (\<lambda>_ s. Ok (- 1) s))
       else andthen (iunlock (Some ip) s) (\<lambda>_ s.
         andthen (case p_cwd (ptable s ! p) of None \<Rightarrow> Undef ''null inode'' | Some c \<Rightarrow> iput c s) (\<lambda>_ s.
         andthen (end_op s) (\<lambda>_ s.
         Ok 0 (upd_proc p (\<lambda>q. q\<lparr>p_cwd := Some ip\<rparr>) s)))))))))"

text \<open>The argument vector of \<open>exec\<close>: \<open>n\<close> more entries fit. A missing or bad entry makes the call fail.\<close>

primrec exec_argv :: "nat \<Rightarrow> addr \<Rightarrow> 'z kmst_scheme \<Rightarrow> (addr list option, 'z kmst_scheme) out" where
  "exec_argv 0 uargv s = Ok None s"
| "exec_argv (Suc n) uargv s =
     andthen (fetchint uargv s) (\<lambda>r s. case r of None \<Rightarrow> Ok None s | Some uarg \<Rightarrow>
     if uarg = 0 then Ok (Some []) s
     else andthen (fetchstr uarg s) (\<lambda>r s. case r of None \<Rightarrow> Ok None s | Some _ \<Rightarrow>
       andthen (exec_argv n (uargv + 4) s) (\<lambda>r s. Ok (map_option (Cons uarg) r) s)))"

definition sys_exec :: "'z prst_scheme \<Rightarrow> (int, 'z prst_scheme) out" where
  "sys_exec s =
     andthen (argstr 0 s) (\<lambda>r s. case r of None \<Rightarrow> Ok (- 1) s | Some path \<Rightarrow>
     andthen (argint 1 s) (\<lambda>r s. case r of None \<Rightarrow> Ok (- 1) s | Some uargv \<Rightarrow>
     andthen (exec_argv MAXARG uargv s) (\<lambda>r s. case r of None \<Rightarrow> Ok (- 1) s | Some argv \<Rightarrow>
     exec path argv s)))"

definition pipe_fds :: "nat \<Rightarrow> nat \<Rightarrow> 'z prst_scheme \<Rightarrow> ((nat \<times> nat) option, 'z prst_scheme) out" where
  "pipe_fds f0 f1 s =
     andthen (fdalloc f0 s) (\<lambda>r s. case r of None \<Rightarrow> Ok None s | Some fd0 \<Rightarrow>
     andthen (fdalloc f1 s) (\<lambda>r s. case r of
       None \<Rightarrow> andthen (thisproc s) (\<lambda>p s. Ok None (upd_proc p (\<lambda>q. q\<lparr>p_ofile := (p_ofile q)[fd0 := None]\<rparr>) s))
     | Some fd1 \<Rightarrow> Ok (Some (fd0, fd1)) s))"

definition sys_pipe :: "'z prst_scheme \<Rightarrow> (int, 'z prst_scheme) out" where
  "sys_pipe s =
     andthen (argptr 0 8 s) (\<lambda>r s. case r of None \<Rightarrow> Ok (- 1) s | Some fd \<Rightarrow>
     andthen (pipealloc s) (\<lambda>r s. case r of None \<Rightarrow> Ok (- 1) s | Some (f0, f1) \<Rightarrow>
     andthen (pipe_fds f0 f1 s) (\<lambda>r s. case r of
       None \<Rightarrow> andthen (fileclose f0 s) (\<lambda>_ s. andthen (fileclose f1 s) (\<lambda>_ s. Ok (- 1) s))
     | Some (fd0, fd1) \<Rightarrow>
         andthen (umem_write (put32 (replicate 4 0) 0 (of_nat fd0)) fd s) (\<lambda>_ s.
         andthen (umem_write (put32 (replicate 4 0) 0 (of_nat fd1)) (fd + 4) s) (\<lambda>_ s. Ok 0 s)))))"

section \<open>Calls on processes\<close>

definition sys_kill :: "'z prst_scheme \<Rightarrow> (int, 'z prst_scheme) out" where
  "sys_kill s = andthen (argint 0 s) (\<lambda>r s. case r of None \<Rightarrow> Ok (- 1) s | Some pid \<Rightarrow> kill (sint pid) s)"

definition sys_getpid :: "'z prst_scheme \<Rightarrow> (int, 'z prst_scheme) out" where
  "sys_getpid s = andthen (thisproc s) (\<lambda>p s. Ok (p_pid (ptable s ! p)) s)"

definition sys_sbrk :: "'z prst_scheme \<Rightarrow> (int, 'z prst_scheme) out" where
  "sys_sbrk s =
     andthen (argint 0 s) (\<lambda>r s. case r of None \<Rightarrow> Ok (- 1) s | Some n \<Rightarrow>
     andthen (thisproc s) (\<lambda>p s.
     let addr = p_sz (ptable s ! p) in
     andthen (growproc (sint n) s) (\<lambda>r s. Ok (if r < 0 then - 1 else sint addr) s)))"

text \<open>
  \<open>sys_sleep\<close>: \<open>ticks0\<close> is the time of the first test. The comparison \<open>ticks - ticks0 < n\<close> is unsigned.
\<close>

definition sleep_ticks :: "u32 \<Rightarrow> u32 \<Rightarrow> 'z prst_scheme \<Rightarrow> (int, 'z prst_scheme) out" where
  "sleep_ticks ticks0 n s =
     (if ticks s - ticks0 < n
      then andthen (thisproc s) (\<lambda>p s.
        if p_killed (ptable s ! p) then andthen (krelease LK_ticks s) (\<lambda>_ s. Ok (- 1) s)
        else suspend Ch_ticks LK_ticks s)
      else andthen (krelease LK_ticks s) (\<lambda>_ s. Ok 0 s))"

definition sys_sleep :: "'z prst_scheme \<Rightarrow> (int, 'z prst_scheme) out" where
  "sys_sleep s =
     andthen (argint 0 s) (\<lambda>r s. case r of None \<Rightarrow> Ok (- 1) s | Some n \<Rightarrow>
     andthen (kacquire LK_ticks s) (\<lambda>_ s. sleep_ticks (ticks s) n s))"

definition sys_uptime :: "'z prst_scheme \<Rightarrow> (int, 'z prst_scheme) out" where
  "sys_uptime s =
     andthen (kacquire LK_ticks s) (\<lambda>_ s.
     let xticks = ticks s in andthen (krelease LK_ticks s) (\<lambda>_ s. Ok (sint xticks) s))"

definition sys_page_faults :: "'z prst_scheme \<Rightarrow> (int, 'z prst_scheme) out" where
  "sys_page_faults s = andthen (thisproc s) (\<lambda>p s. Ok (sint (p_page_faults (ptable s ! p))) s)"

definition sys_total_page_faults :: "'z prst_scheme \<Rightarrow> (int, 'z prst_scheme) out" where
  "sys_total_page_faults s = Ok 1 s"

definition sys_get_paged_out :: "'z prst_scheme \<Rightarrow> (int, 'z prst_scheme) out" where
  "sys_get_paged_out s = Ok 2 s"

section \<open>The dispatcher\<close>

definition syscalls :: "('z prst_scheme \<Rightarrow> (int, 'z prst_scheme) out) list" where
  "syscalls = [fork, \<lambda>s. andthen (exit s) (\<lambda>_ s. Ok 0 s), wait, sys_pipe, sys_read, sys_kill, sys_exec, sys_fstat, sys_chdir,
     sys_dup, sys_getpid, sys_sbrk, sys_sleep, sys_uptime, sys_open, sys_write, sys_mknod, sys_unlink, sys_link,
     sys_mkdir, sys_close, free_pages, sys_page_faults, sys_total_page_faults, sys_get_paged_out,
     \<lambda>s. Ok (total_pages s) s, used_pages]"

definition syscall :: "'z prst_scheme \<Rightarrow> (unit, 'z prst_scheme) out" where
  "syscall s =
     andthen (thisproc s) (\<lambda>p s.
     let num = sint (tf_eax (p_tf (ptable s ! p))) in
     if 0 < num \<and> num < 28
     then andthen ((syscalls ! (nat num - 1)) s) (\<lambda>r s.
       Ok () (upd_proc p (\<lambda>q. q\<lparr>p_tf := (p_tf q)\<lparr>tf_eax := of_int r\<rparr>\<rparr>) s))
     else andthen (cprintf (Some (bytes_of ''%d %s: unknown sys call %d'' @ [10]))
         [ArgI (of_int (p_pid (ptable s ! p))), ArgS (Some (p_name (ptable s ! p))), ArgI (of_int num)] s) (\<lambda>_ s.
       Ok () (upd_proc p (\<lambda>q. q\<lparr>p_tf := (p_tf q)\<lparr>tf_eax := - 1\<rparr>\<rparr>) s)))"

section \<open>What the argument checks admit\<close>

lemma umem_word_state: "umem_word a s = Ok w t \<Longrightarrow> t = s"
  by (auto simp: umem_word_def umem_read_def andthen_Ok_iff split: option.splits)

lemma argint_state:
  assumes "runs (hw s) p" and "argint n s = Ok r t"
  shows "t = s"
  using assms quiet_simps(1) [of "hw s"]
  by (auto simp: argint_def fetchint_def lock_simps runs_def andthen_Ok_iff dest: umem_word_state split: if_splits)

text \<open>
  With \<open>sz \<le> KERNBASE\<close>, as \<open>allocuvm\<close> guarantees, the unsigned sum of an address below \<open>sz\<close> and a non-negative \<open>int\<close>
  does not wrap around.
\<close>

lemma user_range:
  fixes a z :: u32
  assumes "z \<le> KERNBASE" and "a < z" and "0 \<le> k" and "k < 2 ^ 31"
  shows "z < a + of_int k \<longleftrightarrow> uint z < uint a + k"
proof -
  have b: "uint z \<le> 2 ^ 31" "uint a < uint z" using assms(1,2) by (simp_all add: word_le_def word_less_def)
  have "uint (of_int k :: u32) = k" using assms(3,4) by (simp add: uint_word_of_int_eq take_bit_int_eq_self)
  then have "uint (a + of_int k) = uint a + k"
    using b assms(4) uint_plus_if' [of a "of_int k"] by simp
  then show ?thesis by (simp add: word_less_def)
qed

lemma argptr_range:
  assumes r: "runs (hw s) p" and z: "p_sz (ptable s ! p) \<le> KERNBASE" and k: "k < 2 ^ 31" and e: "argptr n k s = Ok r' t"
  shows "t = s" "r' = Some a \<Longrightarrow> argint n s = Ok (Some a) s \<and> 0 \<le> k \<and> a < p_sz (ptable s ! p) \<and> uint a + k \<le> uint (p_sz (ptable s ! p))"
    "r' = None \<Longrightarrow> argint n s = Ok None s \<or> (\<exists>a. argint n s = Ok (Some a) s \<and>
      (k < 0 \<or> p_sz (ptable s ! p) \<le> a \<or> uint (p_sz (ptable s ! p)) < uint a + k))"
proof -
  have c: "thisproc s = Ok p s" using r quiet_simps(1) [of "hw s"] by (simp add: lock_simps runs_def)
  obtain i where i: "argint n s = Ok i s"
    "(case i of None \<Rightarrow> Ok None s | Some i \<Rightarrow>
       if k < 0 \<or> p_sz (ptable s ! p) \<le> i \<or> p_sz (ptable s ! p) < i + of_int k then Ok None s else Ok (Some i) s) = Ok r' t"
    using e c argint_state [OF r] by (auto simp: argptr_def andthen_Ok_iff)
  show "t = s" using i(2) by (auto split: option.splits if_splits)
  have rng: "p_sz (ptable s ! p) < a + of_int k \<longleftrightarrow> uint (p_sz (ptable s ! p)) < uint a + k"
    if "\<not> p_sz (ptable s ! p) \<le> a" "0 \<le> k" for a using user_range [OF z _ that(2) k] that(1) by (simp add: not_le)
  show "r' = Some a \<Longrightarrow> argint n s = Ok (Some a) s \<and> 0 \<le> k \<and> a < p_sz (ptable s ! p) \<and> uint a + k \<le> uint (p_sz (ptable s ! p))"
    using i rng [of a] by (auto split: option.splits if_splits)
  show "r' = None \<Longrightarrow> argint n s = Ok None s \<or> (\<exists>a. argint n s = Ok (Some a) s \<and>
      (k < 0 \<or> p_sz (ptable s ! p) \<le> a \<or> uint (p_sz (ptable s ! p)) < uint a + k))"
  proof (cases i)
    case (Some x)
    assume "r' = None"
    then have "k < 0 \<or> p_sz (ptable s ! p) \<le> x \<or> p_sz (ptable s ! p) < x + of_int k" using i(2) Some by (auto split: if_splits)
    then show ?thesis using i(1) Some rng [of x] by (cases "k < 0 \<or> p_sz (ptable s ! p) \<le> x") auto
  qed (use i(1) in simp)
qed

lemma argfd_Some:
  assumes r: "runs (hw s) p" and e: "argfd n s = Ok (Some (fd, f)) t"
  shows "t = s" "fd < NOFILE" "p_ofile (ptable s ! p) ! fd = Some f"
proof -
  have c: "thisproc s = Ok p s" using r quiet_simps(1) [of "hw s"] by (simp add: lock_simps runs_def)
  obtain i u where i: "argint n s = Ok i u" using e by (auto simp: argfd_def andthen_Ok_iff)
  then have "argint n s = Ok i s" using argint_state [OF r] by simp
  then show "t = s" "fd < NOFILE" "p_ofile (ptable s ! p) ! fd = Some f"
    using e c by (auto simp: argfd_def split: option.splits if_splits)
qed

text \<open>
  C27: The arguments of \<open>read\<close> and \<open>write\<close> never reach kernel memory: when the checks pass, the descriptor is an open file of
  the calling process and the whole buffer of \<open>n\<close> bytes lies below \<open>p->sz\<close>, so below KERNBASE, for every register and
  stack content including lengths and addresses whose sum exceeds 32 bits; and the checks change nothing.
\<close>

theorem rw_args_user_memory:
  assumes "runs (hw s) p" and "p_sz (ptable s ! p) \<le> KERNBASE" and "rw_args s = Ok (Some (f, a, n)) t"
  shows "t = s \<and> 0 \<le> n \<and> (\<exists>fd < NOFILE. p_ofile (ptable s ! p) ! fd = Some f) \<and>
    (\<forall>k. 0 \<le> k \<and> k < n \<longrightarrow> uint a + k < uint (p_sz (ptable s ! p)) \<and> a + of_int k < KERNBASE)"
proof -
  note r = assms(1)
  obtain fd u where fd': "argfd 0 s = Ok (Some (fd, f)) u"
    using assms(3) by (auto simp: rw_args_def andthen_Ok_iff split: option.splits)
  note fd = argfd_Some [OF r fd']
  obtain w v where w': "argint 2 s = Ok (Some w) v" and w: "n = sint w" and p': "argptr 1 (sint w) v = Ok (Some a) t"
    using assms(3) fd' fd(1) by (auto simp: rw_args_def andthen_Ok_iff split: option.splits)
  have p: "argptr 1 (sint w) s = Ok (Some a) t" using p' argint_state [OF r w'] by simp
  have "sint w < 2 ^ 31" using sint_lt [of w] by simp
  note k = argptr_range [OF r assms(2) this p]
  have n: "0 \<le> n" "uint a + n \<le> uint (p_sz (ptable s ! p))" using k(2) w by simp_all
  have u: "uint (p_sz (ptable s ! p)) \<le> 2 ^ 31" using assms(2) by (simp add: word_le_def)
  have "\<exists>fd < NOFILE. p_ofile (ptable s ! p) ! fd = Some f"
    using fd(2,3) by blast
  moreover have "uint a + j < uint (p_sz (ptable s ! p)) \<and> a + of_int j < KERNBASE" if "0 \<le> j" "j < n" for j
  proof -
    have l: "uint a + j < 2 ^ 31" using that n u by linarith
    then have "uint (a + of_int j) = uint a + j"
      using that by (simp add: uint_word_ariths uint_word_of_int_eq take_bit_eq_mod mod_simps)
    then show ?thesis using that n l by (simp add: word_less_def)
  qed
  ultimately show ?thesis using k(1) n(1) by blast
qed

text \<open>
  An example: a process of one page with the arguments 2, 0x200 and 16 on its stack at 0x100, and an open file 5
  behind descriptor 2. All page table entries point to the same page.
\<close>

definition rw_ex :: prst where
  "rw_ex = (flst.extend (pst.extend pipe_ex (flst.fields [])) (prst.fields 0 0 0 0 0 0 False False 0))\<lparr>
     ptable := [zero_proc\<lparr>p_sz := 0x1000, p_tf := (p_tf zero_proc)\<lparr>tf_esp := 0x100\<rparr>,
       p_ofile := (replicate 16 None)[2 := Some 5]\<rparr>],
     mem := (\<lambda>_. 1)(0x81010104 := 2, 0x81010105 := 0, 0x81010106 := 0, 0x81010107 := 0,
       0x81010108 := 0, 0x81010109 := 2, 0x8101010A := 0, 0x8101010B := 0,
       0x8101010C := 16, 0x8101010D := 0, 0x8101010E := 0, 0x8101010F := 0)\<rparr>"

lemma rw_ex_sel: "hw rw_ex = cpu0" "p_sz (ptable rw_ex ! 0) = 0x1000" "tf_esp (p_tf (ptable rw_ex ! 0)) = 0x100"
  "p_ofile (ptable rw_ex ! 0) = (replicate 16 None)[2 := Some 5]"
  unfolding rw_ex_def pst.defs flst.defs prst.defs by simp_all

lemma rw_ex_reads:
  "ureads 4 0x104 rw_ex = Some [2, 0, 0, 0]" "ureads 4 0x108 rw_ex = Some [0, 2, 0, 0]" "ureads 4 0x10C rw_ex = Some [16, 0, 0, 0]"
proof -
  have p: "ptes (mem rw_ex) 0x80000000 va = 0x01010101" if "PDX va = 0" "PTX va = 0" for va
    using that by (simp add: ptes_def has_table_def table_def rw_ex_def ld32_def P2V_def PTE_ADDR_def)
  have v: "vtrans False va rw_ex = Some (0x81010000 + (va AND 0xFFF))" if "PDX va = 0" "PTX va = 0" "va < KERNBASE" for va
    using that by (simp add: vtrans_def rw_ex_sel cpu0_def Let_def P2V_def p PTE_ADDR_def not_le [symmetric])
  have f: "4 = Suc (Suc (Suc (Suc 0)))" by simp
  show "ureads 4 0x104 rw_ex = Some [2, 0, 0, 0]" "ureads 4 0x108 rw_ex = Some [0, 2, 0, 0]" "ureads 4 0x10C rw_ex = Some [16, 0, 0, 0]"
    unfolding f by (simp_all add: v PDX_def PTX_def) (simp_all add: rw_ex_def)
qed

theorem rw_args_user_memory_witness:
  "rw_args rw_ex = Ok (Some (5, 0x200, 16)) rw_ex \<and> uint (0x200 :: u32) + 15 < uint (p_sz (ptable rw_ex ! 0))"
proof -
  have c: "thisproc rw_ex = Ok 0 rw_ex" using quiet_simps(1) [OF cpu0_quiet] cpu0_cur by (simp add: lock_simps rw_ex_sel)
  have w: "umem_word 0x104 rw_ex = Ok 2 rw_ex" "umem_word 0x108 rw_ex = Ok 0x200 rw_ex" "umem_word 0x10C rw_ex = Ok 16 rw_ex"
    by (simp_all add: umem_word_def umem_read_def rw_ex_reads ld32_def)
  have i: "argint 0 rw_ex = Ok (Some 2) rw_ex" "argint 1 rw_ex = Ok (Some 0x200) rw_ex" "argint 2 rw_ex = Ok (Some 16) rw_ex"
    using c w by (simp_all add: argint_def fetchint_def rw_ex_sel)
  have e: "rw_args rw_ex = Ok (Some (5, 0x200, 16)) rw_ex"
    using c by (simp add: rw_args_def argfd_def argptr_def i i(2) [simplified] rw_ex_sel)
  moreover have "\<forall>k. 0 \<le> k \<and> k < 16 \<longrightarrow> uint (0x200 :: u32) + k < uint (p_sz (ptable rw_ex ! 0))"
    using rw_args_user_memory [OF _ _ e, of 0] cpu0_quiet cpu0_cur by (simp add: runs_def rw_ex_sel)
  then have "uint (0x200 :: u32) + 15 < uint (p_sz (ptable rw_ex ! 0))" by (elim allE [where x = 15]) simp
  ultimately show ?thesis by blast
qed

end
