(* ===== verification/Kbd.thy ===== *)
theory Kbd
  imports Prelude
begin

text \<open>
  The keyboard driver (kbd.c, kbd.h): the translation of scan codes to characters. The modifier state is
  an argument and a result; a scan code is what the data port delivers, \<open>None\<close> when the status port says
  there is none.
\<close>

abbreviation (input) "K_SHIFT \<equiv> (0x01 :: u32)"
abbreviation (input) "K_CTL \<equiv> (0x02 :: u32)"
abbreviation (input) "K_CAPSLOCK \<equiv> (0x08 :: u32)"
abbreviation (input) "K_E0ESC \<equiv> (0x40 :: u32)"

definition shiftcode :: "byte list" where
  "shiftcode = (replicate 256 0)
     [0x1D := 0x02, 0x2A := 0x01, 0x36 := 0x01, 0x38 := 0x04, 0x9D := 0x02, 0xB8 := 0x04]"

definition togglecode :: "byte list" where
  "togglecode = (replicate 256 0)
     [0x3A := 0x08, 0x45 := 0x10, 0x46 := 0x20]"

definition normalmap :: "byte list" where
  "normalmap = ([0x00, 0x1B, 0x31, 0x32, 0x33, 0x34, 0x35, 0x36, 0x37, 0x38, 0x39, 0x30, 0x2D, 0x3D, 0x08, 0x09,
      0x71, 0x77, 0x65, 0x72, 0x74, 0x79, 0x75, 0x69, 0x6F, 0x70, 0x5B, 0x5D, 0x0A, 0x00, 0x61, 0x73,
      0x64, 0x66, 0x67, 0x68, 0x6A, 0x6B, 0x6C, 0x3B, 0x27, 0x60, 0x00, 0x5C, 0x7A, 0x78, 0x63, 0x76,
      0x62, 0x6E, 0x6D, 0x2C, 0x2E, 0x2F, 0x00, 0x2A, 0x00, 0x20, 0x00, 0x00, 0x00, 0x00, 0x00, 0x00,
      0x00, 0x00, 0x00, 0x00, 0x00, 0x00, 0x00, 0x37, 0x38, 0x39, 0x2D, 0x34, 0x35, 0x36, 0x2B, 0x31,
      0x32, 0x33, 0x30, 0x2E, 0x00, 0x00, 0x00, 0x00] @ replicate 168 0)
     [0x9C := 0x0A, 0xB5 := 0x2F, 0xC8 := 0xE2, 0xD0 := 0xE3, 0xC9 := 0xE6, 0xD1 := 0xE7,
      0xCB := 0xE4, 0xCD := 0xE5, 0x97 := 0xE0, 0xCF := 0xE1, 0xD2 := 0xE8, 0xD3 := 0xE9]"

definition shiftmap :: "byte list" where
  "shiftmap = ([0x00, 0x1B, 0x21, 0x40, 0x23, 0x24, 0x25, 0x5E, 0x26, 0x2A, 0x28, 0x29, 0x5F, 0x2B, 0x08, 0x09,
      0x51, 0x57, 0x45, 0x52, 0x54, 0x59, 0x55, 0x49, 0x4F, 0x50, 0x7B, 0x7D, 0x0A, 0x00, 0x41, 0x53,
      0x44, 0x46, 0x47, 0x48, 0x4A, 0x4B, 0x4C, 0x3A, 0x22, 0x7E, 0x00, 0x7C, 0x5A, 0x58, 0x43, 0x56,
      0x42, 0x4E, 0x4D, 0x3C, 0x3E, 0x3F, 0x00, 0x2A, 0x00, 0x20, 0x00, 0x00, 0x00, 0x00, 0x00, 0x00,
      0x00, 0x00, 0x00, 0x00, 0x00, 0x00, 0x00, 0x37, 0x38, 0x39, 0x2D, 0x34, 0x35, 0x36, 0x2B, 0x31,
      0x32, 0x33, 0x30, 0x2E, 0x00, 0x00, 0x00, 0x00] @ replicate 168 0)
     [0x9C := 0x0A, 0xB5 := 0x2F, 0xC8 := 0xE2, 0xD0 := 0xE3, 0xC9 := 0xE6, 0xD1 := 0xE7,
      0xCB := 0xE4, 0xCD := 0xE5, 0x97 := 0xE0, 0xCF := 0xE1, 0xD2 := 0xE8, 0xD3 := 0xE9]"

definition ctlmap :: "byte list" where
  "ctlmap = ([0x00, 0x00, 0x00, 0x00, 0x00, 0x00, 0x00, 0x00, 0x00, 0x00, 0x00, 0x00, 0x00, 0x00, 0x00, 0x00,
      0x11, 0x17, 0x05, 0x12, 0x14, 0x19, 0x15, 0x09, 0x0F, 0x10, 0x00, 0x00, 0x0D, 0x00, 0x01, 0x13,
      0x04, 0x06, 0x07, 0x08, 0x0A, 0x0B, 0x0C, 0x00, 0x00, 0x00, 0x00, 0x1C, 0x1A, 0x18, 0x03, 0x16,
      0x02, 0x0E, 0x0D, 0x00, 0x00, 0xEF, 0x00, 0x00] @ replicate 200 0)
     [0x9C := 0x0D, 0xB5 := 0xEF, 0xC8 := 0xE2, 0xD0 := 0xE3, 0xC9 := 0xE6, 0xD1 := 0xE7,
      0xCB := 0xE4, 0xCD := 0xE5, 0x97 := 0xE0, 0xCF := 0xE1, 0xD2 := 0xE8, 0xD3 := 0xE9]"

definition charcode :: "u32 \<Rightarrow> byte list" where
  "charcode k = (if k = 0 then normalmap else if k = 1 then shiftmap else ctlmap)"

definition kbd_char :: "u32 \<Rightarrow> nat \<Rightarrow> int \<times> u32" where
  "kbd_char shift data =
     (let shift = shift OR ucast (shiftcode ! data);
          shift = shift XOR ucast (togglecode ! data);
          c = uint (charcode (shift AND (K_CTL OR K_SHIFT)) ! data) in
      (if shift AND K_CAPSLOCK \<noteq> 0
       then if 97 \<le> c \<and> c \<le> 122 then c - 32 else if 65 \<le> c \<and> c \<le> 90 then c + 32 else c
       else c, shift))"

definition kbdgetc :: "byte option \<Rightarrow> u32 \<Rightarrow> int \<times> u32" where
  "kbdgetc port shift = (case port of None \<Rightarrow> (- 1, shift) | Some data \<Rightarrow>
     if data = 0xE0 then (0, shift OR K_E0ESC)
     else if data AND 0x80 \<noteq> 0
     then let data = (if shift AND K_E0ESC \<noteq> 0 then data else data AND 0x7F) in
       (0, shift AND NOT (ucast (shiftcode ! unat data) OR K_E0ESC))
     else if shift AND K_E0ESC \<noteq> 0
     then kbd_char (shift AND NOT K_E0ESC) (unat (data OR 0x80))
     else kbd_char shift (unat data))"

lemma keymap_length:
  "length shiftcode = 256" "length togglecode = 256" "length (charcode k) = 256"
  by (simp_all add: shiftcode_def togglecode_def charcode_def normalmap_def shiftmap_def ctlmap_def)

lemma uint_byte: "0 \<le> uint (b :: byte) \<and> uint b \<le> 255"
  using uint_lt2p [of b] by simp

text \<open>Every table index is in range, and the driver returns -1, 0 or a character code.\<close>

lemma kbdgetc_range: "- 1 \<le> fst (kbdgetc port shift) \<and> fst (kbdgetc port shift) \<le> 255"
proof -
  have "0 \<le> fst (kbd_char sh d) \<and> fst (kbd_char sh d) \<le> 255" for sh d
    using uint_byte [of "charcode x ! d" for x] by (simp add: kbd_char_def Let_def)
  then show ?thesis by (auto simp: kbdgetc_def Let_def split: option.split) (meson order_trans zero_le_one le_minus_one_simps(1))+
qed

end
