(* ===== verification/Trap.thy ===== *)
theory Trap
  imports Sysfile Kbd
begin

text \<open>
  The trap handler (trap.c) with the interrupt entries of the keyboard and serial drivers (kbd.c, uart.c). A
  trap comes with its frame, the value of \<open>%cr2\<close> and what the devices deliver: the bytes waiting at the
  keyboard controller and at the serial port.
\<close>

section \<open>Definitions\<close>

record trst = prst +
  kbd_shift :: u32

record trap_input =
  t_cr2 :: u32
  t_kbd :: "byte list"
  t_uart :: "byte list"

definition tvinit :: "'z kst_scheme \<Rightarrow> 'z kst_scheme" where
  "tvinit s = s\<lparr>hw := initlock LK_ticks ''time'' (hw s)\<rparr>"

text \<open>The characters \<open>kbdgetc\<close> returns until the controller has no more data, and the modifier state after them.\<close>

primrec kbd_chars :: "byte list \<Rightarrow> u32 \<Rightarrow> int list \<times> u32" where
  "kbd_chars [] shift = ([], shift)"
| "kbd_chars (d # ds) shift =
     (let (c, shift) = kbdgetc (Some d) shift; (cs, shift) = kbd_chars ds shift in (c # cs, shift))"

definition intr_chars :: "int list \<Rightarrow> 'z prst_scheme \<Rightarrow> (unit, 'z prst_scheme) out" where
  "intr_chars cs s = andthen (consoleintr cs s) (\<lambda>dump s. if dump then procdump s else Ok () s)"

definition kbdintr :: "byte list \<Rightarrow> 'z trst_scheme \<Rightarrow> (unit, 'z trst_scheme) out" where
  "kbdintr ds s = (let (cs, shift) = kbd_chars ds (kbd_shift s) in intr_chars cs (s\<lparr>kbd_shift := shift\<rparr>))"

definition uartintr :: "byte list \<Rightarrow> 'z trst_scheme \<Rightarrow> (unit, 'z trst_scheme) out" where
  "uartintr ds s = intr_chars (if uart s then map uint ds else []) s"

definition timer_tick :: "'z prst_scheme \<Rightarrow> (unit, 'z prst_scheme) out" where
  "timer_tick s =
     andthen (kmycpu s) (\<lambda>c s.
     if c = 0
     then andthen (kacquire LK_ticks s) (\<lambda>_ s.
       andthen (wakeup Ch_ticks (s\<lparr>ticks := ticks s + 1\<rparr>)) (\<lambda>_ s. krelease LK_ticks s))
     else Ok () s)"

text \<open>A page fault: \<open>True\<close> when it has been resolved.\<close>

definition page_fault :: "u32 \<Rightarrow> 'z prst_scheme \<Rightarrow> (bool, 'z prst_scheme) out" where
  "page_fault va s =
     (if \<not> check_policy s then Ok False s
      else andthen (if selection s = NFUA \<or> selection s = LAPA then NFUA_update_age s
          else if selection s = AQ then AQ_update_queue s else Ok () s) (\<lambda>_ s.
        andthen (thisproc s) (\<lambda>p s.
        andthen (if 2 < p_pid (ptable s ! p) then handle_pf va s else Ok False s) (\<lambda>done s.
        if done then Ok True s
        else andthen (handle_cow va s) (\<lambda>done s.
          if done then Ok True s
          else if 2 < p_pid (ptable s ! p) then Panic ''trap: segmentation fault'' else Ok False s)))))"

definition bad_trap :: "trapframe \<Rightarrow> u32 \<Rightarrow> 'z prst_scheme \<Rightarrow> (unit, 'z prst_scheme) out" where
  "bad_trap tf va s =
     andthen (kmyproc s) (\<lambda>p s.
     andthen (kmycpu s) (\<lambda>c s.
     case (if tf_cs tf AND 3 = 0 then None else p) of
       None \<Rightarrow>
         andthen (cprintf (Some (bytes_of ''unexpected trap %d from cpu %d eip %x (cr2=0x%x)'' @ [10]))
           [ArgI (tf_trapno tf), ArgI (of_nat c), ArgI (tf_eip tf), ArgI va] s) (\<lambda>_ s. Panic ''trap'')
     | Some p \<Rightarrow>
         andthen (cprintf (Some (bytes_of (''pid %d %s: trap %d err %d on cpu %d '' @ ''eip 0x%x addr 0x%x--kill proc'') @ [10]))
           [ArgI (of_int (p_pid (ptable s ! p))), ArgS (Some (p_name (ptable s ! p))), ArgI (tf_trapno tf), ArgI (tf_err tf),
            ArgI (of_nat c), ArgI (tf_eip tf), ArgI va] s) (\<lambda>_ s.
         Ok () (upd_proc p (\<lambda>q. q\<lparr>p_killed := True\<rparr>) s))))"

definition spurious :: "trapframe \<Rightarrow> 'z prst_scheme \<Rightarrow> (unit, 'z prst_scheme) out" where
  "spurious tf s =
     andthen (kmycpu s) (\<lambda>c s.
     cprintf (Some (bytes_of ''cpu%d: spurious interrupt at %x:%x'' @ [10])) [ArgI (of_nat c), ArgI (ucast (tf_cs tf)), ArgI (tf_eip tf)] s)"

definition trap_dispatch :: "trapframe \<Rightarrow> trap_input \<Rightarrow> 'z trst_scheme \<Rightarrow> (unit, 'z trst_scheme) out" where
  "trap_dispatch tf inp s =
     (let n = tf_trapno tf in
      if n = 32 then timer_tick s
      else if n = 32 + 14 \<or> n = 32 + 15 then Ok () s
      else if n = 32 + 1 then kbdintr (t_kbd inp) s
      else if n = 32 + 4 then uartintr (t_uart inp) s
      else if n = 32 + 7 \<or> n = 32 + 31 then spurious tf s
      else if n = 14
      then andthen (page_fault (t_cr2 inp) s) (\<lambda>done s. if done then Ok () s else bad_trap tf (t_cr2 inp) s)
      else bad_trap tf (t_cr2 inp) s)"

text \<open>The exit of a killed process, which does not return.\<close>

definition exit_if_killed :: "trapframe \<Rightarrow> 'z prst_scheme \<Rightarrow> (unit, 'z prst_scheme) out" where
  "exit_if_killed tf s =
     andthen (kmyproc s) (\<lambda>p s.
     case p of None \<Rightarrow> Ok () s
     | Some i \<Rightarrow> if p_killed (ptable s ! i) \<and> tf_cs tf AND 3 = 3 then exit s else Ok () s)"

definition trap_syscall :: "trapframe \<Rightarrow> 'z prst_scheme \<Rightarrow> (unit, 'z prst_scheme) out" where
  "trap_syscall tf s =
     andthen (thisproc s) (\<lambda>p s.
     andthen (if p_killed (ptable s ! p) then exit s else Ok () s) (\<lambda>_ s.
     andthen (syscall (upd_proc p (\<lambda>q. q\<lparr>p_tf := tf\<rparr>) s)) (\<lambda>_ s.
     if p_killed (ptable s ! p) then exit s else Ok () s)))"

text \<open>
  The handler. A process that yields at a clock tick is suspended there; when it runs again it goes on
  with \<open>yield_return\<close> and the last test.
\<close>

definition trap :: "trapframe \<Rightarrow> trap_input \<Rightarrow> 'z trst_scheme \<Rightarrow> (unit, 'z trst_scheme) out" where
  "trap tf inp s =
     (if tf_trapno tf = 64 then trap_syscall tf s
      else andthen (trap_dispatch tf inp s) (\<lambda>_ s.
        andthen (exit_if_killed tf s) (\<lambda>_ s.
        andthen (kmyproc s) (\<lambda>p s.
        andthen (case p of None \<Rightarrow> Ok () s
          | Some i \<Rightarrow> if p_state (ptable s ! i) = RUNNING \<and> tf_trapno tf = 32 then yield s else Ok () s) (\<lambda>_ s.
        exit_if_killed tf s)))))"

end
