(* ===== verification/Sched.thy ===== *)
theory Sched
  imports Ptable
begin

text \<open>
  One round of the scheduler (\<open>scheduler\<close> of proc.c): it looks at every slot of the process table once and switches to
  the runnable ones. What a process does between the switch to it and its switch back is a parameter, \<open>turn\<close>: it
  gives the state in which process \<open>i\<close> comes back. The result lists the processes that got the CPU.
\<close>

section \<open>Definitions\<close>

primrec scheduler_scan ::
  "u32 \<Rightarrow> addr \<Rightarrow> (nat \<Rightarrow> 'z kst_scheme \<Rightarrow> 'z kst_scheme) \<Rightarrow> nat list \<Rightarrow> 'z kst_scheme \<Rightarrow> (nat list, 'z kst_scheme) out" where
  "scheduler_scan ts kpg turn [] s = Ok [] s"
| "scheduler_scan ts kpg turn (i # is) s =
     (case scheduler_run ts i s of
        Ok _ s \<Rightarrow> scheduler_scan ts kpg turn is s
      | Swtch s \<Rightarrow>
          andthen (scheduler_return kpg (turn i s)) (\<lambda>_ s.
          andthen (scheduler_scan ts kpg turn is s) (\<lambda>ds s. Ok (i # ds) s))
      | Panic m \<Rightarrow> Panic m | Spin l \<Rightarrow> Spin l | Undef m \<Rightarrow> Undef m | Hang m \<Rightarrow> Hang m)"

definition scheduler_round ::
  "u32 \<Rightarrow> addr \<Rightarrow> (nat \<Rightarrow> 'z kst_scheme \<Rightarrow> 'z kst_scheme) \<Rightarrow> 'z kst_scheme \<Rightarrow> (nat list, 'z kst_scheme) out" where
  "scheduler_round ts kpg turn s =
     andthen (kacquire LK_ptable (s\<lparr>hw := sti (hw s)\<rparr>)) (\<lambda>_ s.
     andthen (scheduler_scan ts kpg turn [0..<NPROC] s) (\<lambda>ds s.
     andthen (krelease LK_ptable s) (\<lambda>_ s. Ok ds s)))"

section \<open>Dispatching\<close>

text \<open>The fields of a CPU that \<open>scheduler\<close> and \<open>switchuvm\<close> set do not matter to its interrupt state.\<close>

lemma upd_cpu_ok:
  assumes "cpu_ok h" and "\<And>k. apicid (f k) = apicid k \<and> ncli (f k) = ncli k \<and> intena (f k) = intena k"
  shows "this_cpu (upd_cpu c f h) = this_cpu h" "depth (upd_cpu c f h) = depth h" "cpu_ok (upd_cpu c f h)"
    "locks (upd_cpu c f h) = locks h"
proof -
  have i: "cpu_index (lapic h) (cpus (upd_cpu c f h)) = cpu_index (lapic h) (cpus h)"
    using cpu_index_update [of f "lapic h" "cpus h" c] assms(2) by (simp add: upd_cpu_def)
  then show t: "this_cpu (upd_cpu c f h) = this_cpu h" by (simp add: this_cpu_def upd_cpu_def)
  have l: "apicid (cpus (upd_cpu c f h) ! k) = apicid (cpus h ! k) \<and> ncli (cpus (upd_cpu c f h) ! k) = ncli (cpus h ! k) \<and>
      intena (cpus (upd_cpu c f h) ! k) = intena (cpus h ! k)" for k
    using assms(2) by (cases "c < length (cpus h)"; cases "k = c") (simp_all add: upd_cpu_def list_update_beyond)
  show d: "depth (upd_cpu c f h) = depth h" unfolding depth_def t using l by simp
  show "cpu_ok (upd_cpu c f h)" using assms(1) i l d t by (simp add: cpu_ok_def readeflags_def upd_cpu_def)
  show "locks (upd_cpu c f h) = locks h" by (simp add: upd_cpu_def)
qed

lemma lcr3_ok [simp]:
  "this_cpu (lcr3 v h) = this_cpu h" "depth (lcr3 v h) = depth h" "cpu_ok (lcr3 v h) = cpu_ok h" "locks (lcr3 v h) = locks h"
  by (simp_all add: lcr3_def this_cpu_def depth_def cpu_ok_def readeflags_def)

lemma held_upd_cpu:
  "held lk h \<Longrightarrow> (\<And>k. apicid (f k) = apicid k \<and> ncli (f k) = ncli k \<and> intena (f k) = intena k) \<Longrightarrow> held lk (upd_cpu c f h)"
  using upd_cpu_ok [of h f c] by (simp add: held_def)

lemma switchuvm_ok:
  assumes "cpu_ok (hw s)" and "p_kstack (ptable s ! i) \<noteq> 0" and "p_pgdir (ptable s ! i) \<noteq> 0"
  shows "\<exists>h. switchuvm ts (Some i) s = Ok () (s\<lparr>hw := h\<rparr>)"
proof -
  note wf = cpu_ok_wf [OF assms(1)]
  note f = push_frame [OF wf]
  let ?f = "\<lambda>k. k\<lparr>gdt := (gdt k)[SEG_TSS := (SEG16 STS_T32A ts 103 0)\<lparr>sd_s := 0\<rparr>],
    ts_ss0 := push_bit 3 (of_nat SEG_KDATA), ts_esp0 := p_kstack (ptable s ! i) + 4096, ts_iomb := 0xFFFF\<rparr>"
  let ?h = "lcr3 (V2P (p_pgdir (ptable s ! i))) (upd_cpu (this_cpu (hw s)) ?f (push (hw s)))"
  have u: "cpu_ok (upd_cpu c ?f (push (hw s)))" "depth (upd_cpu c ?f (push (hw s))) = depth (push (hw s))" for c
    by (rule upd_cpu_ok [OF f(1)], simp)+
  have "0 < depth (push (hw s))" using f(2) assms(1) by (simp add: cpu_ok_def)
  then have "\<exists>h. popcli ?h = Ok () h" using popcli_ok [of ?h] u by simp
  then show ?thesis
    using assms(2,3) by (auto simp: switchuvm_def Let_def on_hw_def pushcli_wf [OF wf] mycpu_push [OF wf])
qed

text \<open>
  What a process owes the scheduler: it comes back with \<open>ptable.lock\<close> held and nothing else, no runnable process has
  ceased to be so in the meantime (only a process itself and the scheduler that runs it end its being runnable), and
  runnable processes have a kernel stack and a page directory.
\<close>

definition dispatchable :: "'z kst_scheme \<Rightarrow> bool" where
  "dispatchable s \<longleftrightarrow> length (ptable s) = NPROC \<and> held LK_ptable (hw s) \<and>
     (\<forall>i < NPROC. p_state (ptable s ! i) = RUNNABLE \<longrightarrow> p_kstack (ptable s ! i) \<noteq> 0 \<and> p_pgdir (ptable s ! i) \<noteq> 0)"

definition comes_back :: "(nat \<Rightarrow> 'z kst_scheme \<Rightarrow> 'z kst_scheme) \<Rightarrow> bool" where
  "comes_back turn \<longleftrightarrow> (\<forall>i s. i < NPROC \<and> length (ptable s) = NPROC \<and> p_state (ptable s ! i) = RUNNING \<longrightarrow>
     dispatchable (turn i s) \<and>
     (\<forall>j < NPROC. j \<noteq> i \<and> p_state (ptable s ! j) = RUNNABLE \<longrightarrow> p_state (ptable (turn i s) ! j) = RUNNABLE))"

lemma scheduler_run_dispatch:
  assumes "dispatchable s" and "i < NPROC" and "p_state (ptable s ! i) = RUNNABLE"
  shows "\<exists>h. scheduler_run ts i s = Swtch (upd_proc i (\<lambda>q. q\<lparr>p_state := RUNNING\<rparr>) (s\<lparr>hw := h\<rparr>))"
proof -
  let ?h = "upd_cpu (this_cpu (hw s)) (\<lambda>k. k\<lparr>cproc := Some i\<rparr>) (hw s)"
  have h: "cpu_ok (hw s)" "0 < depth (hw s)" using assms(1) by (simp_all add: dispatchable_def held_def)
  have "cpu_ok ?h" by (rule upd_cpu_ok(3) [OF h(1)]) simp
  then obtain h' where "switchuvm ts (Some i) (s\<lparr>hw := ?h\<rparr>) = Ok () (s\<lparr>hw := h'\<rparr>)"
    using switchuvm_ok [of "s\<lparr>hw := ?h\<rparr>" i ts] assms by (auto simp: dispatchable_def)
  then show ?thesis using assms(3) h by (auto simp: scheduler_run_def kmycpu_nested Let_def)
qed

lemma scheduler_return_ok:
  assumes "dispatchable s"
  shows "\<exists>h. scheduler_return kpg s = Ok () (s\<lparr>hw := h\<rparr>) \<and> dispatchable (s\<lparr>hw := h\<rparr>)"
proof -
  let ?h = "lcr3 (V2P kpg) (hw s)"
  have h: "held LK_ptable ?h" using assms by (simp add: dispatchable_def held_def)
  then have "held LK_ptable (upd_cpu (this_cpu ?h) (\<lambda>k. k\<lparr>cproc := None\<rparr>) ?h)" by (rule held_upd_cpu) simp
  then show ?thesis
    using assms h by (auto simp: scheduler_return_def switchkvm_def kmycpu_nested held_def dispatchable_def)
qed

lemma scheduler_scan_dispatches:
  assumes "comes_back turn" and "dispatchable s" and "sorted_wrt (<) is" and "set is \<subseteq> {..<NPROC}"
  shows "succeeds (scheduler_scan ts kpg turn is s) (\<lambda>ds t. dispatchable t \<and> set ds \<subseteq> set is \<and> sorted_wrt (<) ds \<and>
    (\<forall>i \<in> set is. p_state (ptable s ! i) = RUNNABLE \<longrightarrow> i \<in> set ds))"
  using assms(2-4)
proof (induction "is" arbitrary: s)
  case (Cons i js)
  have i: "i < NPROC" "sorted_wrt (<) js" "set js \<subseteq> {..<NPROC}" "\<forall>j \<in> set js. i < j" using Cons.prems(2,3) by auto
  show ?case
  proof (cases "p_state (ptable s ! i) = RUNNABLE")
    case False
    then have e: "scheduler_scan ts kpg turn (i # js) s = scheduler_scan ts kpg turn js s" by (simp add: scheduler_run_def)
    show ?thesis unfolding e
      by (rule succeeds_mono [OF Cons.IH [OF Cons.prems(1) i(2,3)]]) (use False in auto)
  next
    case True
    obtain h where r: "scheduler_run ts i s = Swtch (upd_proc i (\<lambda>q. q\<lparr>p_state := RUNNING\<rparr>) (s\<lparr>hw := h\<rparr>))"
      using scheduler_run_dispatch [OF Cons.prems(1) i(1) True] by blast
    define u where "u = upd_proc i (\<lambda>q. q\<lparr>p_state := RUNNING\<rparr>) (s\<lparr>hw := h\<rparr>)"
    have l: "length (ptable s) = NPROC" using Cons.prems(1) by (simp add: dispatchable_def)
    have u: "length (ptable u) = NPROC" "p_state (ptable u ! i) = RUNNING" "j \<noteq> i \<Longrightarrow> ptable u ! j = ptable s ! j" for j
      using l i(1) by (simp_all add: u_def upd_proc_def)
    have d: "dispatchable (turn i u)"
      and k: "\<And>j. j < NPROC \<Longrightarrow> j \<noteq> i \<Longrightarrow> p_state (ptable s ! j) = RUNNABLE \<Longrightarrow> p_state (ptable (turn i u) ! j) = RUNNABLE"
      using assms(1) i(1) u unfolding comes_back_def by metis+
    obtain h' where b: "scheduler_return kpg (turn i u) = Ok () ((turn i u)\<lparr>hw := h'\<rparr>)" "dispatchable ((turn i u)\<lparr>hw := h'\<rparr>)"
      using scheduler_return_ok [OF d] by blast
    have e: "scheduler_scan ts kpg turn (i # js) s =
      andthen (scheduler_scan ts kpg turn js ((turn i u)\<lparr>hw := h'\<rparr>)) (\<lambda>ds s. Ok (i # ds) s)"
      using r b(1) by (simp add: u_def)
    have "\<forall>j \<in> set js. p_state (ptable s ! j) = RUNNABLE \<longrightarrow> p_state (ptable ((turn i u)\<lparr>hw := h'\<rparr>) ! j) = RUNNABLE"
      using k i(3,4) by fastforce
    then show ?thesis
      unfolding e succeeds_andthen
      by (intro succeeds_mono [OF Cons.IH [OF b(2) i(2,3)]]) (use i(4) in auto)
  qed
qed simp

section \<open>Correctness\<close>


text \<open>An example: two runnable processes, which go to sleep as soon as they run.\<close>

definition sched_ex :: kst where
  "sched_ex = kst0\<lparr>hw := cpu0, ptable := (replicate NPROC zero_proc)[
     3 := zero_proc\<lparr>p_state := RUNNABLE, p_kstack := 0x80400000, p_pgdir := 0x80401000\<rparr>,
     7 := zero_proc\<lparr>p_state := RUNNABLE, p_kstack := 0x80402000, p_pgdir := 0x80403000\<rparr>]\<rparr>"

definition naps :: "nat \<Rightarrow> kst \<Rightarrow> kst" where
  "naps i s = s\<lparr>hw := acq LK_ptable cpu0, ptable := map (\<lambda>(j, q). if j = i then q\<lparr>p_state := SLEEPING\<rparr>
     else if p_state q = RUNNABLE then q\<lparr>p_kstack := 0x80400000, p_pgdir := 0x80401000\<rparr> else q) (enumerate 0 (ptable s))\<rparr>"


end
