(* ===== verification/Content.thy ===== *)
theory Content
  imports Fs
begin

text \<open>
  What \<open>readi\<close> and \<open>writei\<close> mean. The content of a file is the sequence of bytes in the blocks its inode maps, as
  the buffer cache shows them; \<open>readi\<close> returns a slice of it and \<open>writei\<close> inside the file replaces a slice,
  through direct and indirect blocks alike.
\<close>

section \<open>The content of a file\<close>

text \<open>The block that holds block \<open>k\<close> of the file, and byte \<open>o\<close> of the file.\<close>

definition baddr :: "'z ist_scheme \<Rightarrow> nat \<Rightarrow> nat \<Rightarrow> u32" where
  "baddr s ip k = (if k < NDIRECT then i_addrs (icache s ! ip) ! k
     else get32 (bview s (i_addrs (icache s ! ip) ! NDIRECT)) (4 * (k - NDIRECT)))"

definition file_byte :: "'z ist_scheme \<Rightarrow> nat \<Rightarrow> nat \<Rightarrow> byte" where
  "file_byte s ip j = bview s (baddr s ip (j div BSIZE)) ! (j mod BSIZE)"

text \<open>
  The first \<open>n\<close> blocks of the file are mapped: to distinct blocks of the disk, none of them the indirect block.
\<close>

definition mapped :: "'z ist_scheme \<Rightarrow> nat \<Rightarrow> nat \<Rightarrow> bool" where
  "mapped s ip n \<longleftrightarrow> n \<le> 140 \<and> i_dev (icache s ! ip) = 1 \<and> inj_on (baddr s ip) {..<n} \<and>
     (\<forall>k<n. baddr s ip k \<noteq> 0 \<and> baddr s ip k < disksize s \<and> length (bview s (baddr s ip k)) = BSIZE) \<and>
     (NDIRECT < n \<longrightarrow> i_addrs (icache s ! ip) ! NDIRECT \<noteq> 0 \<and> i_addrs (icache s ! ip) ! NDIRECT < disksize s \<and>
        (\<forall>k<n. baddr s ip k \<noteq> i_addrs (icache s ! ip) ! NDIRECT))"

lemma mappedD:
  assumes "mapped s ip n" and "k < n"
  shows "baddr s ip k \<noteq> 0" "baddr s ip k < disksize s" "length (bview s (baddr s ip k)) = BSIZE" "i_dev (icache s ! ip) = 1" "k < 140"
  using assms by (auto simp: mapped_def)

text \<open>States that differ only in cache and log, with the same view, have the same files.\<close>

definition same_files :: "'z ist_scheme \<Rightarrow> 'z ist_scheme \<Rightarrow> bool" where
  "same_files s t \<longleftrightarrow> log_only s t \<and> bview t = bview s \<and> disk t = disk s"

lemma same_filesD:
  assumes "same_files s t"
  shows "icache t = icache s" "baddr t = baddr s" "file_byte t = file_byte s" "mapped t = mapped s" "disksize t = disksize s"
    "sb t = sb s" "lg_outstanding t = lg_outstanding s"
proof -
  have l: "log_only s t" and v: "bview t = bview s" using assms by (simp_all add: same_files_def)
  show i: "icache t = icache s" and "sb t = sb s" using lst_more_ist [OF log_only_frame(7) [OF l]] by simp_all
  show d: "disksize t = disksize s" and "lg_outstanding t = lg_outstanding s" using log_only_frame(2,4) [OF l] by simp_all
  show b: "baddr t = baddr s" by (simp add: baddr_def fun_eq_iff i v)
  show "file_byte t = file_byte s" by (simp add: file_byte_def fun_eq_iff b v)
  show "mapped t = mapped s" by (simp add: mapped_def fun_eq_iff b v i d)
qed

lemma same_files_trans: "same_files s t \<Longrightarrow> same_files t u \<Longrightarrow> same_files s u"
  using log_only_trans by (auto simp: same_files_def)

text \<open>Memory does not matter to the file system.\<close>

lemma files_mem [simp]:
  fixes s :: "'z cst_scheme"
  shows "txn p H L (s\<lparr>mem := m\<rparr>) = txn p H L s" "bview (s\<lparr>mem := m\<rparr>) = bview s" "baddr (s\<lparr>mem := m\<rparr>) = baddr s"
    "file_byte (s\<lparr>mem := m\<rparr>) = file_byte s" "mapped (s\<lparr>mem := m\<rparr>) = mapped s"
proof -
  note e = bc_ext [of "s\<lparr>mem := m\<rparr>" s, simplified]
  show v: "bview (s\<lparr>mem := m\<rparr>) = bview s" by (rule e(2))
  show "txn p H L (s\<lparr>mem := m\<rparr>) = txn p H L s" by (simp add: txn_def e)
  show b: "baddr (s\<lparr>mem := m\<rparr>) = baddr s" by (simp add: baddr_def v fun_eq_iff)
  show "file_byte (s\<lparr>mem := m\<rparr>) = file_byte s" "mapped (s\<lparr>mem := m\<rparr>) = mapped s"
    by (simp_all add: file_byte_def mapped_def b v fun_eq_iff)
qed

lemma same_files_mem:
  fixes s t :: "'z cst_scheme"
  assumes "same_files s t"
  shows "same_files (s\<lparr>mem := m\<rparr>) (t\<lparr>mem := m\<rparr>)"
proof -
  obtain n bs where "bio_only (s\<lparr>lg_block := bs, lg_n := n\<rparr>) t" using assms by (auto simp: same_files_def log_only_def)
  then have "bio_only ((s\<lparr>mem := m\<rparr>)\<lparr>lg_block := bs, lg_n := n\<rparr>) (t\<lparr>mem := m\<rparr>)" by (cases s; cases t) (simp add: bio_only_def)
  then show ?thesis using assms by (auto simp: same_files_def log_only_def)
qed

section \<open>The block map\<close>

lemma bmap_mapped:
  assumes t: "txn p {} L s" and room: "length L < NBUF" and m: "mapped s ip n" and k: "unat bn < n"
  shows "succeeds (bmap ip bn s) (\<lambda>a t. a = baddr s ip (unat bn) \<and> txn p {} L t \<and> same_files s t)"
proof -
  note d = mappedD [OF m k]
  show ?thesis
  proof (cases "bn < 12")
    case True
    then have "unat bn < 12" by (simp add: word_less_nat_alt)
    then show ?thesis using True d(1) t by (simp add: bmap_def baddr_def same_files_def log_only_refl)
  next
    case False
    then have k12: "12 \<le> unat bn" by (simp add: word_less_nat_alt)
    have u: "unat (bn - 12) = unat bn - 12" using k12 by (subst unat_sub) (simp_all add: word_le_nat_alt)
    have lt: "bn - 12 < 128" using d(5) k12 by (simp add: word_less_nat_alt u)
    let ?a = "i_addrs (icache s ! ip) ! NDIRECT"
    have a: "?a \<noteq> 0" "?a < disksize s" using m k k12 by (auto simp: mapped_def)
    have b: "baddr s ip (unat bn) = get32 (bview s ?a) (4 * unat (bn - 12))" using k12 by (simp add: baddr_def u)
    have e: "bmap ip bn s = andthen (bread 1 ?a s) (\<lambda>bp s.
        andthen (if get32 (b_data (bufs s ! bp)) (4 * unat (bn - 12)) = 0
          then andthen (balloc 1 s) (\<lambda>addr s. andthen (log_write bp
              (set_data bp (put32 (b_data (bufs s ! bp)) (4 * unat (bn - 12)) addr) s)) (\<lambda>_ s. Ok addr s))
          else Ok (get32 (b_data (bufs s ! bp)) (4 * unat (bn - 12))) s) (\<lambda>addr s.
        andthen (brelse bp s) (\<lambda>_ s. Ok addr s)))"
      using False lt a(1) d(4) by (simp add: bmap_def Let_def cong: if_cong)
    show ?thesis
      unfolding e succeeds_andthen
    proof (rule succeeds_mono [OF txn_bread [OF t _ _ a(2)]], simp, use room in simp, elim conjE)
      fix x u
      assume u: "txn p (insert x {}) L u" "b_data (bufs u ! x) = bview s ?a" "bview u = bview s" "disk u = disk s" "log_only s u"
      have g: "get32 (b_data (bufs u ! x)) (4 * unat (bn - 12)) = baddr s ip (unat bn)" by (simp add: b u(2))
      have rm: "insert x {} - {x} = {}" by simp
      show "succeeds (if get32 (b_data (bufs u ! x)) (4 * unat (bn - 12)) = 0
          then andthen (balloc 1 u) (\<lambda>addr s. andthen (log_write x
              (set_data x (put32 (b_data (bufs s ! x)) (4 * unat (bn - 12)) addr) s)) (\<lambda>_ s. Ok addr s))
          else Ok (get32 (b_data (bufs u ! x)) (4 * unat (bn - 12))) u)
        (\<lambda>a t. succeeds (brelse x t) (\<lambda>_ t. succeeds (Ok a t) (\<lambda>a t. a = baddr s ip (unat bn) \<and> txn p {} L t \<and> same_files s t)))"
        unfolding g if_not_P [OF d(1)] succeeds.simps
        by (rule succeeds_mono [OF txn_brelse [OF u(1) insertI1]], unfold rm) (use u log_only_trans in \<open>auto simp: same_files_def\<close>)
    qed
  qed
qed

section \<open>Reading\<close>

lemma chunk_bytes:
  assumes "length d = BSIZE" and "o1 mod BSIZE + m \<le> BSIZE"
    and "\<And>j. o1 \<le> j \<Longrightarrow> j < o1 + m \<Longrightarrow> f j = d ! (j mod BSIZE)"
  shows "take m (drop (o1 mod BSIZE) d) = map f [o1..<o1 + m]"
proof (rule nth_equalityI)
  show "length (take m (drop (o1 mod BSIZE) d)) = length (map f [o1..<o1 + m])" using assms(1,2) by simp
  fix i
  assume "i < length (take m (drop (o1 mod BSIZE) d))"
  then have i: "i < m" by simp
  then have l: "o1 mod BSIZE + i < BSIZE" using assms(2) by simp
  have "(o1 + i) mod BSIZE = (o1 mod BSIZE + i) mod BSIZE" by (rule mod_add_left_eq [symmetric])
  also have "\<dots> = o1 mod BSIZE + i" by (rule mod_less [OF l])
  finally have "(o1 + i) mod BSIZE = o1 mod BSIZE + i" .
  then show "take m (drop (o1 mod BSIZE) d) ! i = map f [o1..<o1 + m] ! i"
    using i assms by (simp add: nth_append)
qed

lemma same_block:
  fixes j :: nat
  assumes "o1 \<le> j" and "j < o1 + m" and "o1 mod BSIZE + m \<le> BSIZE"
  shows "j div BSIZE = o1 div BSIZE"
proof -
  have "j = o1 div BSIZE * BSIZE + (o1 mod BSIZE + (j - o1))" using assms(1) by (metis add.assoc div_mult_mod_eq le_add_diff_inverse)
  moreover have "o1 mod BSIZE + (j - o1) < BSIZE" using assms by simp
  ultimately show ?thesis by (metis div_mult_self3 div_less add.right_neutral zero_neq_numeral)
qed

text \<open>One round of either loop: the offset, the length of the chunk and the block it lies in.\<close>

lemma chunk_bounds:
  fixes off :: u32
  assumes "unat off + left \<le> BSIZE * n" and "n \<le> 140" and "left \<noteq> 0"
  defines "m \<equiv> min left (BSIZE - unat (off mod 512))"
  shows "unat (off mod 512) = unat off mod BSIZE" "0 < m" "m \<le> left" "unat off mod BSIZE + m \<le> BSIZE"
    "unat (off div 512) = unat off div BSIZE" "unat off div BSIZE < n" "unat (off + of_nat m) = unat off + m"
proof -
  show o: "unat (off mod 512) = unat off mod BSIZE" by (simp add: unat_mod)
  show "unat (off div 512) = unat off div BSIZE" by (simp add: unat_div)
  have lt: "unat off mod BSIZE < BSIZE" by simp
  then show "0 < m" "m \<le> left" "unat off mod BSIZE + m \<le> BSIZE" using assms(3) by (simp_all add: m_def o)
  show "unat off div BSIZE < n" using assms(1,3) by (simp add: div_less_iff_less_mult)
  have "unat off + m < 2 ^ 32" using assms(1,2) \<open>m \<le> left\<close> by simp
  moreover have "unat (of_nat m :: u32) = m" by (rule unat_of_nat_small) (use calculation in simp)
  ultimately show "unat (off + of_nat m) = unat off + m" by (subst unat_plus_lt) simp_all
qed

lemma upt_split: "m \<le> left \<Longrightarrow> [a..<a + left] = [a..<a + m] @ [a + m..<a + m + (left - m :: nat)]"
  using upt_add_eq_append [of a "a + m" "left - m"] by simp

lemma sint_file_pos:
  assumes "unat (w :: u32) < 2 ^ 31"
  shows "sint w = int (unat w)"
proof -
  have "int (unat w) < 2 ^ 31" "0 \<le> int (unat w)" using assms by (simp_all only: of_nat_less_numeral_power_cancel_iff of_nat_0_le_iff)
  then have "- (2 ^ 31) \<le> uint w" "uint w < 2 ^ 31" unfolding uint_nat by linarith+
  then have "sint w = uint w" unfolding sint_uint by (intro signed_take_bit_int_eq_self) simp_all
  then show ?thesis unfolding uint_nat .
qed

lemma blocks_fit: "sz \<le> BSIZE * ((sz + 511) div BSIZE)" "(sz + 511) div BSIZE \<le> n \<Longrightarrow> sz \<le> BSIZE * n"
proof -
  define q r where "q = (sz + 511) div BSIZE" and "r = (sz + 511) mod BSIZE"
  have qr: "sz + 511 = BSIZE * q + r" "r < BSIZE" unfolding q_def r_def by (simp_all only: mult_div_mod_eq mod_less_divisor zero_less_numeral)
  show "sz \<le> BSIZE * ((sz + 511) div BSIZE)" unfolding q_def [symmetric] using qr by linarith
  show "sz \<le> BSIZE * n" if "(sz + 511) div BSIZE \<le> n" using that qr unfolding q_def [symmetric] by linarith
qed

lemma readi_loop_step:
  assumes "left \<noteq> 0" and "m = min left (BSIZE - unat (off mod 512))"
  shows "readi_loop put ip d off left s =
    andthen (bmap ip (off div 512) s) (\<lambda>addr s.
    andthen (bread (i_dev (icache s ! ip)) addr s) (\<lambda>bp s.
    andthen (put d (take m (drop (unat (off mod 512)) (b_data (bufs s ! bp)))) s) (\<lambda>dst s.
    andthen (brelse bp s) (\<lambda>_ s. readi_loop put ip dst (off + of_nat m) (left - m) s))))"
  using assms by (subst readi_loop.simps) (simp add: Let_def)

text \<open>
  Where \<open>readi\<close> puts what it reads: a sink that has room for \<open>n\<close> bytes takes them in any number of pieces, changing
  nothing but memory. A local structure of the kernel and a buffer in kernel memory are sinks.
\<close>

locale byte_sink =
  fixes put :: "'d \<Rightarrow> byte list \<Rightarrow> 'z cst_scheme \<Rightarrow> ('d, 'z cst_scheme) out"
    and fits :: "'d \<Rightarrow> nat \<Rightarrow> bool"
    and adv :: "'d \<Rightarrow> byte list \<Rightarrow> 'd"
    and stores :: "'d \<Rightarrow> byte list \<Rightarrow> memory \<Rightarrow> memory"
  assumes put_run: "fits d n \<Longrightarrow> length bs \<le> n \<Longrightarrow> put d bs s = Ok (adv d bs) (s\<lparr>mem := stores d bs (mem s)\<rparr>)"
    and fits_adv: "fits d n \<Longrightarrow> length bs \<le> n \<Longrightarrow> fits (adv d bs) (n - length bs)"
    and adv_append: "adv (adv d bs) cs = adv d (bs @ cs)" "adv d [] = d"
    and stores_append: "fits d n \<Longrightarrow> length bs + length cs \<le> n \<Longrightarrow> stores (adv d bs) cs (stores d bs m) = stores d (bs @ cs) m"
    and stores_Nil: "stores d [] m = m"
begin

lemma readi_loop_sink:
  fixes s :: "'z cst_scheme"
  assumes "txn p {} L s" and "length L < NBUF" and "mapped s ip n" and "unat off + left \<le> BSIZE * n" and "fits d left"
  shows "succeeds (readi_loop put ip d off left s) (\<lambda>r t. let bs = map (file_byte s ip) [unat off..<unat off + left] in
    r = adv d bs \<and> txn p {} L t \<and> same_files (s\<lparr>mem := stores d bs (mem s)\<rparr>) t)"
  using assms
proof (induction left arbitrary: d off s rule: less_induct)
  case (less left)
  show ?case
  proof (cases "left = 0")
    case True
    then show ?thesis using less.prems(1) by (subst readi_loop.simps) (simp add: same_files_def log_only_refl adv_append stores_Nil)
  next
    case False
    define m where "m = min left (BSIZE - unat (off mod 512))"
    have n: "n \<le> 140" using less.prems(3) by (simp add: mapped_def)
    note c = chunk_bounds [OF less.prems(4) n False, folded m_def]
    have k: "unat (off div 512) < n" using c(5,6) by simp
    note md = mappedD [OF less.prems(3) k]
    let ?a = "baddr s ip (unat (off div 512))" and ?f = "file_byte s ip"
    define bs where "bs = map ?f [unat off..<unat off + m]"
    have lb: "length bs = m" by (simp add: bs_def)
    have fb: "?f j = bview s ?a ! (j mod BSIZE)" if "unat off \<le> j" "j < unat off + m" for j
      unfolding file_byte_def c(5) same_block [OF that c(4)] ..
    have chunk: "take m (drop (unat (off mod 512)) (bview s ?a)) = bs"
      unfolding c(1) bs_def by (rule chunk_bytes [OF md(3) c(4) fb])
    let ?Q = "\<lambda>r t. let bs = map ?f [unat off..<unat off + left] in
      r = adv d bs \<and> txn p {} L t \<and> same_files (s\<lparr>mem := stores d bs (mem s)\<rparr>) t"
    show ?thesis
      unfolding readi_loop_step [OF False m_def] succeeds_andthen
    proof (rule succeeds_mono [OF bmap_mapped [OF less.prems(1-3) k]], elim conjE)
      fix a t
      assume t: "a = ?a" "txn p {} L t" "same_files s t"
      note f = same_filesD [OF t(3)]
      have lim: "?a < disksize t" using md(2) f(5) by simp
      show "succeeds (bread (i_dev (icache t ! ip)) a t) (\<lambda>bp t.
        succeeds (put d (take m (drop (unat (off mod 512)) (b_data (bufs t ! bp)))) t) (\<lambda>dst t.
        succeeds (brelse bp t) (\<lambda>_ t. succeeds (readi_loop put ip dst (off + of_nat m) (left - m) t) ?Q)))"
        unfolding t(1) f(1) md(4)
      proof (rule succeeds_mono [OF txn_bread [OF t(2) _ _ lim]], simp, use less.prems(2) in simp, elim conjE)
        fix x u
        assume u: "txn p (insert x {}) L u" "b_data (bufs u ! x) = bview t ?a" "bview u = bview t" "disk u = disk t" "log_only t u"
        have su: "same_files s u" using same_files_trans [OF t(3), of u] u(3-5) by (simp add: same_files_def)
        have v: "bview t = bview s" using t(3) by (simp add: same_files_def)
        let ?u = "u\<lparr>mem := stores d bs (mem u)\<rparr>"
        have rm: "insert x {} - {x} = {}" by simp
        have pr: "put d bs u = Ok (adv d bs) ?u" using put_run [OF less.prems(5), of bs u] lb c(3) by simp
        have tu: "txn p (insert x {}) L ?u" using u(1) by simp
        show "succeeds (put d (take m (drop (unat (off mod 512)) (b_data (bufs u ! x)))) u) (\<lambda>dst t.
          succeeds (brelse x t) (\<lambda>_ t. succeeds (readi_loop put ip dst (off + of_nat m) (left - m) t) ?Q))"
          unfolding u(2) v chunk pr succeeds.simps
        proof (rule succeeds_mono [OF txn_brelse [OF tu insertI1]], unfold rm, elim conjE)
          fix w
          assume w: "txn p {} L w" "bview w = bview ?u" "disk w = disk ?u" "log_only ?u w"
          let ?s = "s\<lparr>mem := stores d bs (mem s)\<rparr>"
          have mu: "mem u = mem s" using su log_only_frame(8) by (auto simp: same_files_def)
          have uw: "same_files ?u w" using w by (simp add: same_files_def)
          have "same_files ?s ?u" using same_files_mem [OF su] mu by simp
          then have sw: "same_files ?s w" using uw by (rule same_files_trans)
          note g = same_filesD [OF sw, unfolded files_mem]
          have mw: "mapped w ip n" using less.prems(3) g(4) by simp
          have mm: "mem w = stores d bs (mem s)" using sw log_only_frame(8) by (fastforce simp: same_files_def)
          have le: "unat (off + of_nat m) + (left - m) \<le> BSIZE * n" "left - m < left" using c less.prems(4) by simp_all
          have fa: "fits (adv d bs) (left - m)" using fits_adv [OF less.prems(5), of bs] lb c(3) by simp
          define cs where "cs = map ?f [unat (off + of_nat m)..<unat (off + of_nat m) + (left - m)]"
          have lc: "length bs + length cs \<le> left" using lb c(3) by (simp add: cs_def)
          have bc: "map ?f [unat off..<unat off + left] = bs @ cs"
            using upt_split [OF c(3), of "unat off"] by (simp add: bs_def cs_def c(7))
          have ih: "succeeds (readi_loop put ip (adv d bs) (off + of_nat m) (left - m) w) (\<lambda>r t.
            r = adv (adv d bs) cs \<and> txn p {} L t \<and> same_files (w\<lparr>mem := stores (adv d bs) cs (mem w)\<rparr>) t)"
            using less.IH [OF le(2) w(1) less.prems(2) mw le(1) fa] unfolding g(3) Let_def cs_def [symmetric] .
          show "succeeds (readi_loop put ip (adv d bs) (off + of_nat m) (left - m) w) ?Q"
            unfolding bc Let_def
          proof (rule succeeds_mono [OF ih], elim conjE, intro conjI)
            fix r t
            assume rt: "r = adv (adv d bs) cs" "same_files (w\<lparr>mem := stores (adv d bs) cs (mem w)\<rparr>) t"
            show "r = adv d (bs @ cs)" using rt(1) by (simp add: adv_append)
            have "same_files (?s\<lparr>mem := stores (adv d bs) cs (mem w)\<rparr>) (w\<lparr>mem := stores (adv d bs) cs (mem w)\<rparr>)"
              by (rule same_files_mem [OF sw])
            then show "same_files (s\<lparr>mem := stores d (bs @ cs) (mem s)\<rparr>) t"
              using same_files_trans [OF _ rt(2)] stores_append [OF less.prems(5), of bs cs] lc by (simp add: mm)
          qed
        qed
      qed
    qed
  qed
qed

lemma readi_sink:
  fixes s :: "'z cst_scheme"
  assumes "txn p {} L s" and "length L < NBUF" and "i_type (icache s ! ip) \<noteq> T_DEV"
    and "mapped s ip ((unat (i_size (icache s ! ip)) + 511) div BSIZE)"
    and "m = min (unat n) (unat (i_size (icache s ! ip)) - unat off)" and "fits d m"
  shows "if i_size (icache s ! ip) < off \<or> off + n < off then readi put ip d off n s = Ok (- 1, d) s
    else succeeds (readi put ip d off n s) (\<lambda>(r, d') t. let bs = map (file_byte s ip) [unat off..<unat off + m] in
      r = int m \<and> d' = adv d bs \<and> txn p {} L t \<and> same_files (s\<lparr>mem := stores d bs (mem s)\<rparr>) t)"
proof -
  define sz where "sz = i_size (icache s ! ip)"
  let ?N = "(unat sz + 511) div BSIZE"
  have mp: "mapped s ip ?N" using assms(4) by (simp add: sz_def)
  have N: "?N \<le> 140" using mp by (simp add: mapped_def)
  have small: "unat sz \<le> 71680" and fit: "unat sz \<le> BSIZE * ?N"
    using blocks_fit(1) [of "unat sz"] blocks_fit(2) [OF N] by simp_all
  have m: "m = min (unat n) (unat sz - unat off)" using assms(5) by (simp add: sz_def)
  show ?thesis
    unfolding sz_def [symmetric]
  proof (cases "sz < off \<or> off + n < off")
    case True
    then show "if sz < off \<or> off + n < off then readi put ip d off n s = Ok (- 1, d) s
      else succeeds (readi put ip d off n s) (\<lambda>(r, d') t. let bs = map (file_byte s ip) [unat off..<unat off + m] in
        r = int m \<and> d' = adv d bs \<and> txn p {} L t \<and> same_files (s\<lparr>mem := stores d bs (mem s)\<rparr>) t)"
      using assms(3) by (simp add: readi_def Let_def sz_def)
  next
    case False
    let ?n = "if sz < off + n then sz - off else n"
    have le: "unat off \<le> unat sz" using False by (simp add: word_le_nat_alt not_less)
    have nov: "unat (off + n) = unat off + unat n"
      by (rule unat_plus_lt) (use False in \<open>simp add: not_less no_olen_add_nat\<close>)
    have un: "unat ?n = m"
    proof (cases "sz < off + n")
      case True
      then have "unat sz < unat off + unat n" by (simp only: word_less_nat_alt nov)
      then show ?thesis using True le unat_sub [of off sz] by (simp add: m word_le_nat_alt)
    next
      case False
      then have "unat off + unat n \<le> unat sz" by (simp only: word_less_nat_alt nov not_less)
      then show ?thesis using False by (simp add: m)
    qed
    have ml: "unat off + m \<le> BSIZE * ?N" using le fit unfolding m by linarith
    have "m \<le> unat sz" unfolding m by linarith
    then have mlt: "m < 2 ^ 31" using small by simp
    have sn: "sint ?n = int m"
      using sint_file_pos [of ?n] mlt unfolding un by simp
    have e: "readi put ip d off n s = andthen (readi_loop put ip d off m s) (\<lambda>dst s. Ok (int m, dst) s)"
      unfolding un [symmetric] unfolding readi_def Let_def sz_def [symmetric] if_not_P [OF assms(3)] if_not_P [OF False] un [symmetric]
      by (simp only: sn un)
    show "if sz < off \<or> off + n < off then readi put ip d off n s = Ok (- 1, d) s
      else succeeds (readi put ip d off n s) (\<lambda>(r, d') t. let bs = map (file_byte s ip) [unat off..<unat off + m] in
        r = int m \<and> d' = adv d bs \<and> txn p {} L t \<and> same_files (s\<lparr>mem := stores d bs (mem s)\<rparr>) t)"
      unfolding if_not_P [OF False] e succeeds_andthen
      by (rule succeeds_mono [OF readi_loop_sink [OF assms(1,2) mp ml assms(6)]]) (simp add: Let_def)
  qed
qed

end

interpretation local_sink: byte_sink to_local "\<lambda>_ _. True" "\<lambda>d bs. d @ bs" "\<lambda>_ _ m. m"
  by unfold_locales (simp_all add: to_local_def)

interpretation kmem_sink: byte_sink to_mem "\<lambda>a n. KERNBASE \<le> a \<and> unat a + n < 2 ^ 32" "\<lambda>a bs. a + of_nat (length bs)" kstore
proof
  fix a :: addr and n :: nat and bs cs :: "byte list" and m :: memory and s :: "'a cst_scheme"
  assume a: "KERNBASE \<le> a \<and> unat a + n < 2 ^ 32"
  show "to_mem a bs s = Ok (a + of_nat (length bs)) (s\<lparr>mem := kstore a bs (mem s)\<rparr>)" if "length bs \<le> n"
    using uwrites_kernel [of a bs s] a that by (simp add: to_mem_def umem_write_def)
  show "KERNBASE \<le> a + of_nat (length bs) \<and> unat (a + of_nat (length bs)) + (n - length bs) < 2 ^ 32" if l: "length bs \<le> n"
  proof -
    have "unat (of_nat (length bs) :: addr) = length bs" by (rule unat_of_nat_small) (use a l in simp)
    then have "unat (a + of_nat (length bs)) = unat a + length bs" using a l by (subst unat_plus_lt) simp_all
    then show ?thesis using a l by (simp add: word_le_nat_alt)
  qed
  show "kstore (a + of_nat (length bs)) cs (kstore a bs m) = kstore a (bs @ cs) m" if "length bs + length cs \<le> n"
    by (rule kstore_append) (use a that in simp)
qed simp_all

text \<open>Reading into a local structure.\<close>

lemma readi_spec:
  fixes s :: "'z cst_scheme"
  assumes "txn p {} L s" and "length L < NBUF" and "i_type (icache s ! ip) \<noteq> T_DEV"
    and "mapped s ip ((unat (i_size (icache s ! ip)) + 511) div BSIZE)"
  shows "let sz = i_size (icache s ! ip); m = min (unat n) (unat sz - unat off) in
    if sz < off \<or> off + n < off then readi to_local ip [] off n s = Ok (- 1, []) s
    else succeeds (readi to_local ip [] off n s) (\<lambda>(r, bs) t. r = int m \<and>
      bs = map (file_byte s ip) [unat off..<unat off + m] \<and> txn p {} L t \<and> same_files s t)"
  using local_sink.readi_sink [OF assms refl, where n = n and off = off and d = "[]"] by (auto simp: Let_def elim!: succeeds_mono)

section \<open>Writing\<close>

text \<open>The content of the file after the bytes from \<open>off\<close> on have been replaced by \<open>bs\<close>.\<close>

definition overwritten :: "'z ist_scheme \<Rightarrow> nat \<Rightarrow> nat \<Rightarrow> nat \<Rightarrow> byte list \<Rightarrow> 'z ist_scheme \<Rightarrow> bool" where
  "overwritten s ip n off bs t \<longleftrightarrow> log_only s t \<and> disk t = disk s \<and> mapped t ip n \<and> (\<forall>k<n. baddr t ip k = baddr s ip k) \<and>
     (\<forall>b. b \<notin> baddr s ip ` {..<n} \<longrightarrow> bview t b = bview s b) \<and>
     (\<forall>j<BSIZE * n. file_byte t ip j = (if off \<le> j \<and> j < off + length bs then bs ! (j - off) else file_byte s ip j))"

lemma overwritten_comp:
  assumes s: "overwritten s ip n off bs t" and t: "overwritten t ip n (off + length bs) cs u"
  shows "overwritten s ip n off (bs @ cs) u"
proof -
  have im: "baddr t ip ` {..<n} = baddr s ip ` {..<n}" using s by (auto simp: overwritten_def intro!: image_cong)
  show ?thesis
    unfolding overwritten_def
  proof (intro conjI allI impI)
    show "log_only s u" using s t log_only_trans unfolding overwritten_def by blast
    show "disk u = disk s" "mapped u ip n" using s t by (simp_all add: overwritten_def)
    show "baddr u ip k = baddr s ip k" if "k < n" for k using that s t by (simp add: overwritten_def)
    show "bview u b = bview s b" if "b \<notin> baddr s ip ` {..<n}" for b using that s t im by (simp add: overwritten_def)
    show "file_byte u ip j = (if off \<le> j \<and> j < off + length (bs @ cs) then (bs @ cs) ! (j - off) else file_byte s ip j)"
      if j: "j < BSIZE * n" for j
    proof -
      have "file_byte t ip j = (if off \<le> j \<and> j < off + length bs then bs ! (j - off) else file_byte s ip j)"
        using s j by (simp add: overwritten_def)
      moreover have "file_byte u ip j = (if off + length bs \<le> j \<and> j < off + length bs + length cs
          then cs ! (j - (off + length bs)) else file_byte t ip j)"
        using t j by (simp add: overwritten_def)
      ultimately show ?thesis by (auto simp: nth_append)
    qed
  qed
qed

lemma overwrite_chunk:
  assumes m: "mapped s ip n" and k: "k < n" and o: "bo + length bs \<le> BSIZE" and l: "log_only s t" "disk t = disk s"
    and v: "bview t = (bview s)(baddr s ip k := put_bytes (bview s (baddr s ip k)) bo bs)"
  shows "overwritten s ip n (BSIZE * k + bo) bs t"
proof -
  note md = mappedD [OF m]
  have ic: "icache t = icache s" "disksize t = disksize s"
    using lst_more_ist(2) [OF log_only_frame(7) [OF l(1)]] log_only_frame(2) [OF l(1)] by simp_all
  have inj: "baddr s ip j = baddr s ip k \<longleftrightarrow> j = k" if "j < n" for j
    using m that k by (auto simp: mapped_def inj_on_def)
  have b: "baddr t ip j = baddr s ip j" if "j < n" for j
  proof (cases "j < NDIRECT")
    case False
    then have "baddr s ip k \<noteq> i_addrs (icache s ! ip) ! NDIRECT" using m k that by (auto simp: mapped_def)
    then show ?thesis using False by (simp add: baddr_def ic v)
  qed (simp add: baddr_def ic)
  have lb: "length (bview t (baddr s ip j)) = BSIZE" if "j < n" for j
    using md(3) [OF that] md(3) [OF k] o by (simp add: v)
  have "inj_on (baddr t ip) {..<n}"
    using m b by (auto simp: mapped_def inj_on_def)
  then have mt: "mapped t ip n" using m b lb by (auto simp: mapped_def ic)
  have fb: "file_byte t ip j = (if BSIZE * k + bo \<le> j \<and> j < BSIZE * k + bo + length bs then bs ! (j - (BSIZE * k + bo)) else file_byte s ip j)"
    if j: "j < BSIZE * n" for j
  proof -
    have jn: "j div BSIZE < n" using j by (simp add: div_less_iff_less_mult mult.commute)
    have sp: "j = BSIZE * (j div BSIZE) + j mod BSIZE" "j mod BSIZE < BSIZE" by simp_all
    show ?thesis
    proof (cases "j div BSIZE = k")
      case True
      let ?d = "bview s (baddr s ip k)"
      have e: "j = BSIZE * k + j mod BSIZE" using sp(1) True by simp
      have d: "length ?d = BSIZE" by (rule md(3) [OF k])
      have "put_bytes ?d bo bs ! (j mod BSIZE) = (if bo \<le> j mod BSIZE \<and> j mod BSIZE < bo + length bs
          then bs ! (j mod BSIZE - bo) else ?d ! (j mod BSIZE))"
        using o d sp(2) by (auto simp: put_bytes_def nth_append)
      moreover have "BSIZE * k + bo \<le> j \<longleftrightarrow> bo \<le> j mod BSIZE" "j < BSIZE * k + bo + length bs \<longleftrightarrow> j mod BSIZE < bo + length bs"
        "j - (BSIZE * k + bo) = j mod BSIZE - bo" using e by linarith+
      ultimately show ?thesis
        unfolding file_byte_def b [OF jn] v using True by simp
    next
      case False
      have "\<not> (BSIZE * k + bo \<le> j \<and> j < BSIZE * k + bo + length bs)"
      proof
        assume a: "BSIZE * k + bo \<le> j \<and> j < BSIZE * k + bo + length bs"
        then have "k * BSIZE \<le> j" "j < (k + 1) * BSIZE" using o by simp_all
        then have "j div BSIZE = k" by (simp add: div_nat_eqI)
        with False show False ..
      qed
      then show ?thesis unfolding file_byte_def b [OF jn] v using False inj [OF jn] by auto
    qed
  qed
  show ?thesis unfolding overwritten_def using l mt b fb k by (auto simp: v)
qed

definition nchunks :: "nat \<Rightarrow> nat \<Rightarrow> nat" where
  "nchunks off left = (if left = 0 then 0 else (off mod BSIZE + left + 511) div BSIZE)"

lemma nchunks_step:
  assumes "left \<noteq> 0" and "m = min left (BSIZE - off mod BSIZE)"
  shows "Suc (nchunks (off + m) (left - m)) \<le> nchunks off left"
proof (cases "left \<le> BSIZE - off mod BSIZE")
  case True
  then show ?thesis using assms by (simp add: nchunks_def)
next
  case False
  then have m: "m = BSIZE - off mod BSIZE" using assms(2) by simp
  have lt: "off mod BSIZE < BSIZE" by simp
  have "off + m = off div BSIZE * BSIZE + BSIZE" using m lt div_mult_mod_eq [of off BSIZE] by linarith
  then have z: "(off + m) mod BSIZE = 0" by simp
  have "off mod BSIZE + left + 511 = (left - m + 511) + BSIZE" using False m lt by linarith
  then have "(off mod BSIZE + left + 511) div BSIZE = Suc ((left - m + 511) div BSIZE)" by simp
  moreover have "nchunks (off + m) (left - m) \<le> (left - m + 511) div BSIZE" unfolding nchunks_def z by simp
  ultimately show ?thesis using assms(1) by (simp add: nchunks_def)
qed

text \<open>
  Where \<open>writei\<close> gets its bytes: a source \<open>d\<close> with the bytes \<open>bs\<close> delivers them in any number of pieces and is not affected
  by what happens in the cache and the log.
\<close>

locale byte_source =
  fixes get :: "'d \<Rightarrow> nat \<Rightarrow> 'z cst_scheme \<Rightarrow> (byte list \<times> 'd, 'z cst_scheme) out"
    and has :: "'d \<Rightarrow> byte list \<Rightarrow> 'z cst_scheme \<Rightarrow> bool"
    and skip :: "'d \<Rightarrow> nat \<Rightarrow> 'd"
  assumes get_run: "has d bs s \<Longrightarrow> m \<le> length bs \<Longrightarrow> get d m s = Ok (take m bs, skip d m) s \<and> has (skip d m) (drop m bs) s"
    and has_log: "has d bs s \<Longrightarrow> log_only s t \<Longrightarrow> has d bs t"
begin

lemma writei_loop_source:
  fixes s :: "'z cst_scheme"
  assumes "txn p {} L s" and "mapped s ip n" and "unat off + length bs \<le> BSIZE * n" and "has src bs s"
    and "length L + nchunks (unat off) (length bs) \<le> 29" and "1 \<le> lg_outstanding s"
  shows "succeeds (writei_loop get ip src off (length bs) s) (\<lambda>r t. unat r = unat off + length bs \<and>
    overwritten s ip n (unat off) bs t \<and> (\<exists>L'. txn p {} L' t \<and> length L' \<le> length L + nchunks (unat off) (length bs) \<and>
      set L' \<subseteq> set L \<union> baddr s ip ` {..<n} \<and> (distinct L \<longrightarrow> distinct L')))"
  using assms
proof (induction "length bs" arbitrary: bs src off s L rule: less_induct)
  case less
  let ?left = "length bs"
  let ?Q = "\<lambda>r t. unat r = unat off + ?left \<and> overwritten s ip n (unat off) bs t \<and>
    (\<exists>L'. txn p {} L' t \<and> length L' \<le> length L + nchunks (unat off) ?left \<and>
      set L' \<subseteq> set L \<union> baddr s ip ` {..<n} \<and> (distinct L \<longrightarrow> distinct L'))"
  show ?case
  proof (cases "?left = 0")
    case True
    then show ?thesis
      using less.prems by (subst writei_loop.simps) (auto simp: overwritten_def log_only_refl nchunks_def)
  next
    case False
    define m where "m = min ?left (BSIZE - unat (off mod 512))"
    have n: "n \<le> 140" using less.prems(2) by (simp add: mapped_def)
    note c = chunk_bounds [OF less.prems(3) n False, folded m_def]
    have m': "m = min ?left (BSIZE - unat off mod BSIZE)" by (simp add: m_def c(1))
    note nc = nchunks_step [OF False m']
    have k: "unat (off div 512) < n" using c(5,6) by simp
    note md = mappedD [OF less.prems(2) k]
    let ?a = "baddr s ip (unat (off div 512))" and ?bo = "unat (off mod 512)"
    have lm: "length (take m bs) = m" "?left - m = length (drop m bs)" using c(3) by simp_all
    have oe: "BSIZE * unat (off div 512) + ?bo = unat off" by (simp add: c(1,5))
    have rL: "length L < NBUF" "length L < 29" using less.prems(5) nc by simp_all
    have e: "writei_loop get ip src off ?left s =
      andthen (bmap ip (off div 512) s) (\<lambda>addr s.
      andthen (bread (i_dev (icache s ! ip)) addr s) (\<lambda>bp s.
      andthen (get src m s) (\<lambda>(cs, src) s.
      andthen (log_write bp (set_data bp (put_bytes (b_data (bufs s ! bp)) ?bo cs) s)) (\<lambda>_ s.
      andthen (brelse bp s) (\<lambda>_ s. writei_loop get ip src (off + of_nat m) (?left - m) s)))))"
      using False by (subst writei_loop.simps) (simp add: m_def Let_def)
    show ?thesis
      unfolding e succeeds_andthen [of "bmap ip (off div 512) s"]
    proof (rule succeeds_mono [OF bmap_mapped [OF less.prems(1) rL(1) less.prems(2) k]], elim conjE)
      fix a t
      assume t: "a = ?a" "txn p {} L t" "same_files s t"
      note f = same_filesD [OF t(3)]
      have v: "bview t = bview s" "disk t = disk s" "log_only s t" using t(3) by (simp_all add: same_files_def)
      have lim: "?a < disksize t" "1 \<le> lg_outstanding t" using md(2) f(5,7) less.prems(6) by simp_all
      have g: "get src m u = Ok (take m bs, skip src m) u" "has (skip src m) (drop m bs) u" if "log_only s u" for u
        using get_run [OF has_log [OF less.prems(4) that], of m] c(3) by simp_all
      let ?mod = "andthen (bread (i_dev (icache t ! ip)) a t) (\<lambda>bp s.
        andthen (log_write bp (set_data bp (put_bytes (b_data (bufs s ! bp)) ?bo (take m bs)) s)) (\<lambda>_ s. brelse bp s))"
      have rest: "succeeds (writei_loop get ip (skip src m) (off + of_nat m) (?left - m) w) ?Q"
        if w: "txn p {} (absorb ?a L) w" "bview w = (bview t)(?a := put_bytes (bview t ?a) ?bo (take m bs))" "disk w = disk t" "log_only t w" for w
      proof -
        have sw: "log_only s w" by (rule log_only_trans [OF v(3) w(4)])
        have bo: "?bo + length (take m bs) \<le> BSIZE" using c(1,4) lm by simp
        have ow: "overwritten s ip n (unat off) (take m bs) w"
          using overwrite_chunk [OF less.prems(2) k bo sw] w(2,3) v oe by simp
        have la: "length (absorb ?a L) \<le> Suc (length L)" by (rule absorb_simps(2))
        have pre: "length (drop m bs) < ?left" "mapped w ip n" "unat (off + of_nat m) + length (drop m bs) \<le> BSIZE * n" "1 \<le> lg_outstanding w"
          using c less.prems(3,6) ow log_only_frame(4) [OF sw] by (simp_all add: overwritten_def)
        have nL: "length (absorb ?a L) + nchunks (unat (off + of_nat m)) (length (drop m bs)) \<le> 29"
          using la nc less.prems(5) unfolding c(7) lm(2) [symmetric] by linarith
        show ?thesis
          unfolding lm(2)
        proof (rule succeeds_mono [OF less.hyps [OF pre(1) w(1) pre(2,3) g(2) [OF sw] nL pre(4)]], elim conjE exE)
          fix r u L'
          assume u: "unat r = unat (off + of_nat m) + length (drop m bs)" "overwritten w ip n (unat (off + of_nat m)) (drop m bs) u"
            "txn p {} L' u" "length L' \<le> length (absorb ?a L) + nchunks (unat (off + of_nat m)) (length (drop m bs))"
            "set L' \<subseteq> set (absorb ?a L) \<union> baddr w ip ` {..<n}" "distinct (absorb ?a L) \<longrightarrow> distinct L'"
          have "overwritten s ip n (unat off) (take m bs @ drop m bs) u"
            by (rule overwritten_comp [OF ow]) (use u(2) lm c(7) in simp)
          moreover have "length L' \<le> length L + nchunks (unat off) ?left" using u(4) la nc unfolding c(7) lm(2) [symmetric] by linarith
          moreover have "baddr w ip ` {..<n} = baddr s ip ` {..<n}" using ow by (auto simp: overwritten_def intro!: image_cong)
          then have "set L' \<subseteq> set L \<union> baddr s ip ` {..<n}" using u(5) k by auto
          moreover have "distinct L \<longrightarrow> distinct L'" using u(6) by (auto simp: absorb_def)
          ultimately show "?Q r u" using u(1,3) c(3,7) by auto
        qed
      qed
      have run: "succeeds (andthen ?mod (\<lambda>_ s. writei_loop get ip (skip src m) (off + of_nat m) (?left - m) s)) ?Q"
        unfolding t(1) f(1) md(4) succeeds_andthen [of "andthen _ _"]
        by (rule succeeds_mono [OF txn_modify [OF t(2) _ _ rL(2) lim, where f = "\<lambda>d. put_bytes d ?bo (take m bs)"]])
          (use rL rest in simp_all)
      have "succeeds (bread (i_dev (icache t ! ip)) a t) (\<lambda>bp u. log_only s u)"
        unfolding t(1) f(1) md(4)
        by (rule succeeds_mono [OF txn_bread [OF t(2) _ _ lim(1)]]) (use rL log_only_trans [OF v(3)] in auto)
      then obtain bp u where br: "bread (i_dev (icache t ! ip)) a t = Ok bp u" "log_only s u" by (auto simp: succeeds_iff)
      show "succeeds (andthen (bread (i_dev (icache t ! ip)) a t) (\<lambda>bp s.
          andthen (get src m s) (\<lambda>(cs, src) s.
          andthen (log_write bp (set_data bp (put_bytes (b_data (bufs s ! bp)) ?bo cs) s)) (\<lambda>_ s.
          andthen (brelse bp s) (\<lambda>_ s. writei_loop get ip src (off + of_nat m) (?left - m) s))))) ?Q"
        using run by (simp only: br(1) g(1) [OF br(2)] andthen.simps andthen_assoc prod.case)
    qed
  qed
qed

lemma writei_source:
  fixes s :: "'z cst_scheme"
  assumes "txn p {} L s" and "i_type (icache s ! ip) \<noteq> T_DEV" and "1 \<le> lg_outstanding s"
    and "mapped s ip N" and N: "N = (unat (i_size (icache s ! ip)) + 511) div BSIZE"
    and le: "unat off + length bs \<le> unat (i_size (icache s ! ip))" and "length L + nchunks (unat off) (length bs) \<le> 29"
    and "has src bs s"
  shows "succeeds (writei get ip src off (of_nat (length bs)) s) (\<lambda>r t. r = int (length bs) \<and> icache t = icache s \<and>
    overwritten s ip N (unat off) bs t \<and> (\<exists>L'. txn p {} L' t \<and> length L' \<le> length L + nchunks (unat off) (length bs) \<and>
      set L' \<subseteq> set L \<union> baddr s ip ` {..<N} \<and> (distinct L \<longrightarrow> distinct L')))"
proof -
  define sz where "sz = i_size (icache s ! ip)"
  let ?n = "of_nat (length bs) :: u32"
  have "N \<le> 140" using assms(4) by (simp add: mapped_def)
  then have small: "unat sz \<le> 71680" and fit: "unat sz \<le> BSIZE * N"
    using blocks_fit(1) [of "unat sz"] blocks_fit(2) [of "unat sz" 140] N by (simp_all add: sz_def)
  have le: "unat off + length bs \<le> unat sz" using assms(6) by (simp add: sz_def)
  have un: "unat ?n = length bs" by (rule unat_of_nat_small) (use le small in simp)
  have uo: "unat (off + ?n) = unat off + length bs" using unat_plus_lt [of off ?n] un le small by simp
  have g: "\<not> (sz < off \<or> off + ?n < off)" "\<not> 140 * 512 < off + ?n"
    unfolding word_less_nat_alt uo using le small by simp_all
  have sn: "sint ?n = int (length bs)" using sint_file_pos [of ?n] un le small by simp
  have w: "writei get ip src off ?n s = andthen (writei_loop get ip src off (length bs) s) (\<lambda>off s.
      andthen (if 0 < ?n \<and> i_size (icache s ! ip) < off
        then iupdate ip (upd_inode ip (\<lambda>q. q\<lparr>i_size := off\<rparr>) s) else Ok () s) (\<lambda>_ s. Ok (int (length bs)) s))"
    unfolding writei_def Let_def sz_def [symmetric] if_not_P [OF assms(2)] if_not_P [OF g(1)] if_not_P [OF g(2)] un sn ..
  have lo: "unat off + length bs \<le> BSIZE * N" using le fit by simp
  show ?thesis
    unfolding w succeeds_andthen
  proof (rule succeeds_mono [OF writei_loop_source [OF assms(1,4) lo assms(8,7,3)]], elim conjE exE)
    fix r :: u32 and t :: "'z cst_scheme" and L'
    assume t: "unat r = unat off + length bs" "overwritten s ip N (unat off) bs t" "txn p {} L' t"
      "length L' \<le> length L + nchunks (unat off) (length bs)" "set L' \<subseteq> set L \<union> baddr s ip ` {..<N}" "distinct L \<longrightarrow> distinct L'"
    have ic: "icache t = icache s" using lst_more_ist(2) [OF log_only_frame(7)] t(2) unfolding overwritten_def by blast
    have c: "\<not> (0 < ?n \<and> i_size (icache t ! ip) < r)" using t(1) le by (simp add: ic sz_def word_less_nat_alt)
    show "succeeds (if 0 < ?n \<and> i_size (icache t ! ip) < r
        then iupdate ip (upd_inode ip (\<lambda>q. q\<lparr>i_size := r\<rparr>) t) else Ok () t)
      (\<lambda>_ s'. succeeds (Ok (int (length bs)) s') (\<lambda>r t. r = int (length bs) \<and> icache t = icache s \<and>
        overwritten s ip N (unat off) bs t \<and> (\<exists>L'. txn p {} L' t \<and> length L' \<le> length L + nchunks (unat off) (length bs) \<and>
          set L' \<subseteq> set L \<union> baddr s ip ` {..<N} \<and> (distinct L \<longrightarrow> distinct L'))))"
      unfolding if_not_P [OF c] using t ic by auto
  qed
qed

end

interpretation local_source: byte_source from_local "\<lambda>d bs _. d = bs" "\<lambda>d m. drop m d"
  by unfold_locales (simp_all add: from_local_def)

interpretation mem_source: byte_source from_mem "\<lambda>a bs s. ureads (length bs) a s = Some bs" "\<lambda>a m. a + of_nat m"
proof
  fix a :: addr and bs :: "byte list" and m :: nat and s t :: "'a cst_scheme"
  assume r: "ureads (length bs) a s = Some bs"
  show "from_mem a m s = Ok (take m bs, a + of_nat m) s \<and> ureads (length (drop m bs)) (a + of_nat m) s = Some (drop m bs)" if "m \<le> length bs"
  proof -
    have "length bs = m + (length bs - m)" using that by simp
    then have "ureads (m + (length bs - m)) a s = Some bs" using r by simp
    from ureads_split [OF this] show ?thesis by (simp add: from_mem_def umem_read_def)
  qed
  show "ureads (length bs) a t = Some bs" if "log_only s t"
    using r ureads_cong [of t s] log_only_frame(1,8) [OF that] by simp
qed

section \<open>Properties\<close>

text \<open>
  C26: \<open>readi\<close> returns the content of the file. For a file whose blocks are mapped, a read of \<open>n\<close> bytes at \<open>off\<close> fails when
  \<open>off\<close> is beyond the end or \<open>off + n\<close> wraps around; otherwise it returns the bytes from \<open>off\<close> on, \<open>n\<close> of them or up
  to the end of the file, whatever mixture of direct and indirect blocks they lie in, and leaves every file as it was.
\<close>

theorem readi_content:
  fixes s :: "'z cst_scheme"
  assumes "txn p {} L s" and "length L < NBUF" and "i_type (icache s ! ip) \<noteq> T_DEV"
    and "mapped s ip ((unat (i_size (icache s ! ip)) + 511) div BSIZE)"
  shows "let sz = i_size (icache s ! ip); m = min (unat n) (unat sz - unat off) in
    if sz < off \<or> off + n < off then readi to_local ip [] off n s = Ok (- 1, []) s
    else succeeds (readi to_local ip [] off n s) (\<lambda>(r, bs) t. r = int m \<and>
      bs = map (file_byte s ip) [unat off..<unat off + m] \<and> txn p {} L t \<and> same_files s t)"
  using assms by (rule readi_spec)

text \<open>
  C8: What is written is read back. Writing \<open>bs\<close> at \<open>off\<close> inside a file, in a transaction with room for the blocks touched,
  returns the number of bytes and replaces exactly these bytes of the file: the rest of the file, its size and every
  block outside it stay as they were. Reading the same range afterwards returns \<open>bs\<close>.
\<close>

theorem writei_readi:
  fixes s :: "'z cst_scheme"
  assumes "txn p {} L s" and "i_type (icache s ! ip) \<noteq> T_DEV" and "1 \<le> lg_outstanding s"
    and "mapped s ip ((unat (i_size (icache s ! ip)) + 511) div BSIZE)"
    and "unat off + length bs \<le> unat (i_size (icache s ! ip))" and "length L + nchunks (unat off) (length bs) \<le> 29"
  shows "succeeds (writei from_local ip bs off (of_nat (length bs)) s) (\<lambda>r t. r = int (length bs) \<and> icache t = icache s \<and>
    overwritten s ip ((unat (i_size (icache s ! ip)) + 511) div BSIZE) (unat off) bs t \<and>
    succeeds (readi to_local ip [] off (of_nat (length bs)) t) (\<lambda>(r, cs) _. r = int (length bs) \<and> cs = bs))"
proof -
  define sz where "sz = i_size (icache s ! ip)"
  define N where "N = (unat sz + 511) div BSIZE"
  let ?n = "of_nat (length bs) :: u32"
  have mp: "mapped s ip N" using assms(4) by (simp add: sz_def N_def)
  have N: "N \<le> 140" using mp by (simp add: mapped_def)
  have small: "unat sz \<le> 71680" and fit: "unat sz \<le> BSIZE * N"
    using blocks_fit(1) [of "unat sz"] blocks_fit(2) [OF N [unfolded N_def]] by (simp_all add: N_def)
  have le: "unat off + length bs \<le> unat sz" using assms(5) by (simp add: sz_def)
  have un: "unat ?n = length bs" by (rule unat_of_nat_small) (use le small in simp)
  have "unat (off + ?n) = unat off + length bs" using unat_plus_lt [of off ?n] un le small by simp
  then have g: "\<not> (sz < off \<or> off + ?n < off)" unfolding word_less_nat_alt using le by simp
  have m: "min (unat ?n) (unat sz - unat off) = length bs" unfolding un using le by simp
  show ?thesis
    unfolding sz_def [symmetric] N_def [symmetric]
  proof (rule succeeds_mono [OF local_source.writei_source [OF assms(1-3) mp _ assms(5,6) refl]], simp add: N_def sz_def, elim conjE exE)
    fix r :: int and t :: "'z cst_scheme" and L'
    assume t: "r = int (length bs)" "icache t = icache s" "overwritten s ip N (unat off) bs t" "txn p {} L' t"
      "length L' \<le> length L + nchunks (unat off) (length bs)"
    have L': "length L' < NBUF" using t(5) assms(6) by simp
    have ty: "i_type (icache t ! ip) \<noteq> T_DEV" using assms(2) by (simp add: t(2))
    have mt: "mapped t ip ((unat (i_size (icache t ! ip)) + 511) div BSIZE)"
      using t(3) by (simp add: overwritten_def t(2) sz_def [symmetric] N_def [symmetric])
    have "map (file_byte t ip) [unat off..<unat off + length bs] = bs"
      by (rule nth_equalityI) (use t(3) le fit in \<open>simp_all add: overwritten_def\<close>)
    then have "succeeds (readi to_local ip [] off ?n t) (\<lambda>(r, cs) _. r = int (length bs) \<and> cs = bs)"
      using readi_spec [OF t(4) L' ty mt, of ?n off] g m unfolding Let_def t(2) sz_def [symmetric]
      by (auto elim!: succeeds_mono)
    then show "r = int (length bs) \<and> icache t = icache s \<and> overwritten s ip N (unat off) bs t \<and>
      succeeds (readi to_local ip [] off ?n t) (\<lambda>(r, cs) _. r = int (length bs) \<and> cs = bs)" using t by simp
  qed
qed

text \<open>
  An example: a file of 1000 bytes in blocks 100 and 101, on a disk of zeros.
\<close>

definition file_ex :: inode where
  "file_ex = zero_inode\<lparr>i_dev := 1, i_inum := 9, i_ref := 1, i_valid := True, i_type := T_FILE, i_nlink := 1, i_size := 1000,
     i_addrs := [100, 101] @ replicate 11 0\<rparr>"

lemma con_boot_view: "bview (con_boot d q) = d"
proof -
  have c: "bcached (con_boot d q) = bcached (fs_boot d)" unfolding bcached_def con_boot_sel by (rule refl)
  show ?thesis using fs_boot_view [of d] unfolding bview_def c con_boot_sel .
qed

lemma con_boot_txn: "txn 0 {} [] (con_boot d q)"
proof -
  note f = fs_boot_txn [of d, unfolded txn_def]
  have "buf_ok 0 {} (con_boot d q) i = buf_ok 0 {} (fs_boot d) i" for i unfolding buf_ok_def con_boot_sel by (rule refl)
  then have "bc_ok 0 {} (con_boot d q)" using f unfolding bc_ok_def con_boot_sel by simp
  moreover have "dirties (con_boot d q) = {}" using f unfolding dirties_def con_boot_sel by simp
  ultimately show ?thesis using f by (simp add: txn_def con_boot_view fs_boot_view del: fs_boot_sel)
qed

lemma file_ex_mapped: "mapped (con_boot (\<lambda>_. replicate BSIZE 0) file_ex) 0 2"
proof -
  have b: "baddr (con_boot (\<lambda>_. replicate BSIZE 0) file_ex) 0 0 = 100" "baddr (con_boot (\<lambda>_. replicate BSIZE 0) file_ex) 0 1 = 101"
    by (simp_all add: baddr_def file_ex_def)
  have two: "k < 2 \<longleftrightarrow> k = 0 \<or> k = 1" for k :: nat by auto
  have "inj_on (baddr (con_boot (\<lambda>_. replicate BSIZE 0) file_ex) 0) {..<2}"
    using b by (intro inj_onI) (auto simp: two)
  then show ?thesis
    unfolding mapped_def two using b by (auto simp: con_boot_view file_ex_def)
qed

theorem readi_content_witness:
  "succeeds (readi to_local 0 [] 510 4 (con_boot (\<lambda>_. replicate BSIZE 0) file_ex)) (\<lambda>(r, bs) _. r = 4 \<and> bs = [0, 0, 0, 0])"
proof -
  let ?s = "con_boot (\<lambda>_. replicate BSIZE 0) file_ex"
  have m: "mapped ?s 0 ((unat (i_size (icache ?s ! 0)) + 511) div BSIZE)" using file_ex_mapped by (simp add: file_ex_def)
  have n: "i_type (icache ?s ! 0) \<noteq> T_DEV" by (simp add: file_ex_def)
  have "file_byte ?s 0 j = 0" for j by (simp add: file_byte_def con_boot_view)
  then have b: "map (file_byte ?s 0) [510..<514] = [0, 0, 0, 0]" by (simp add: upt_rec)
  show ?thesis
    using readi_content [OF con_boot_txn _ n m, of 4 510] b by (auto simp: file_ex_def elim!: succeeds_mono)
qed

theorem writei_readi_witness:
  "succeeds (writei from_local 0 [1, 2, 3, 4] 510 4 (con_boot (\<lambda>_. replicate BSIZE 0) file_ex)) (\<lambda>r t. r = 4 \<and>
     succeeds (readi to_local 0 [] 510 4 t) (\<lambda>(r, cs) _. cs = [1, 2, 3, 4]))"
proof -
  let ?s = "con_boot (\<lambda>_. replicate BSIZE 0) file_ex"
  have m: "mapped ?s 0 ((unat (i_size (icache ?s ! 0)) + 511) div BSIZE)" using file_ex_mapped by (simp add: file_ex_def)
  have n: "i_type (icache ?s ! 0) \<noteq> T_DEV" by (simp add: file_ex_def)
  show ?thesis
    using writei_readi [OF con_boot_txn n _ m, of 510 "[1, 2, 3, 4]"]
    by (auto simp: file_ex_def nchunks_def elim!: succeeds_mono)
qed

end
