(* ===== verification/Fsop.thy ===== *)
theory Fsop
  imports Content
begin

text \<open>
  A whole file system operation: from a state without a transaction, \<open>begin_op\<close> opens one, \<open>end_op\<close> as the last
  operation commits it, and outside the log area every block is afterwards on disk as the operation left it. Also
  locking and unlocking an inode that is in the cache.
\<close>

section \<open>Between operations\<close>

definition outside_log :: "u32 \<Rightarrow> u32 \<Rightarrow> bool" where
  "outside_log st b \<longleftrightarrow> b < st \<or> st + 29 < b"

definition idle :: "nat \<Rightarrow> 'z lst_scheme \<Rightarrow> bool" where
  "idle p s \<longleftrightarrow> txn p {} [] s \<and> lg_dev s = 1 \<and> lg_outstanding s = 0 \<and> \<not> lg_committing s \<and>
     unat (lg_start s) + 30 \<le> unat (disksize s)"

text \<open>Everything but the cache, the disk and the log is the same, up to sleeping processes woken.\<close>

definition op_only :: "'z lst_scheme \<Rightarrow> 'z lst_scheme \<Rightarrow> bool" where
  "op_only s t \<longleftrightarrow> (\<exists>n bs k c. bio_only (s\<lparr>lg_block := bs, lg_n := n, lg_outstanding := k, lg_committing := c\<rparr>) t)"

lemma op_only_frame:
  assumes "op_only s t"
  shows "hw t = hw s" "disksize t = disksize s" "lg_size t = lg_size s" "lg_start t = lg_start s" "lg_dev t = lg_dev s"
    "lst.more t = lst.more s" "mem t = mem s" "(\<And>b. i \<noteq> SL_buf b) \<Longrightarrow> slocks t i = slocks s i"
    "map (p_state_update (\<lambda>_. UNUSED)) (ptable t) = map (p_state_update (\<lambda>_. UNUSED)) (ptable s)" "kbuffer t = kbuffer s"
proof -
  obtain n bs k c where b: "bio_only (s\<lparr>lg_block := bs, lg_n := n, lg_outstanding := k, lg_committing := c\<rparr>) t"
    using assms by (auto simp: op_only_def)
  note l = bio_only_log [OF b]
  show "disksize t = disksize s" "lg_size t = lg_size s" "lg_start t = lg_start s" "lg_dev t = lg_dev s" "lst.more t = lst.more s"
    using l by simp_all
  show "hw t = hw s" "mem t = mem s" "(\<And>b. i \<noteq> SL_buf b) \<Longrightarrow> slocks t i = slocks s i" "kbuffer t = kbuffer s"
    "map (p_state_update (\<lambda>_. UNUSED)) (ptable t) = map (p_state_update (\<lambda>_. UNUSED)) (ptable s)"
    using b by (simp_all add: bio_only_def)
qed

lemma bio_only_log_upd:
  "bio_only s t \<Longrightarrow> bio_only ((s :: 'z lst_scheme)\<lparr>lg_block := bs, lg_n := n, lg_outstanding := k, lg_committing := c\<rparr>)
     (t\<lparr>lg_block := bs, lg_n := n, lg_outstanding := k, lg_committing := c\<rparr>)"
  unfolding bio_only_def by (cases s; cases t) simp

lemma op_only_trans:
  assumes "op_only s t" and "op_only t u"
  shows "op_only s u"
proof -
  obtain n bs k c where t: "bio_only (s\<lparr>lg_block := bs, lg_n := n, lg_outstanding := k, lg_committing := c\<rparr>) t"
    using assms(1) by (auto simp: op_only_def)
  obtain n' bs' k' c' where u: "bio_only (t\<lparr>lg_block := bs', lg_n := n', lg_outstanding := k', lg_committing := c'\<rparr>) u"
    using assms(2) by (auto simp: op_only_def)
  from bio_only_trans [OF bio_only_log_upd [OF t, where bs = bs' and n = n' and k = k' and c = c', simplified] u]
  show ?thesis unfolding op_only_def by blast
qed

lemma log_only_op_only: "log_only s t \<Longrightarrow> op_only s t"
  unfolding log_only_def op_only_def
  by (elim exE, rule_tac x = n in exI, rule_tac x = bs in exI, rule_tac x = "lg_outstanding s" in exI, rule_tac x = "lg_committing s" in exI) simp

lemma begin_op_idle:
  assumes "idle p s"
  shows "begin_op s = Ok () (s\<lparr>lg_outstanding := 1\<rparr>)"
proof -
  have q: "quiet (hw s)" and n: "lg_n s = 0" using txnD(4,9) [of p "{}" "[]" s] assms by (simp_all add: idle_def)
  show ?thesis
    using assms n quiet_simps(2-4) [OF q] by (simp add: begin_op_def begin_op_loop_def idle_def lock_simps)
qed

lemma bc_same:
  assumes "bufs t = bufs s" "disk t = disk s" "hw t = hw s" "length (ptable t) = length (ptable s)"
    and "p_pid (ptable t ! p) = p_pid (ptable s ! p)" "\<And>i. slocks t (SL_buf i) = slocks s (SL_buf i)"
  shows "bc_ok p H t = bc_ok p H s" "bview t = bview s" "dirties t = dirties s"
proof -
  have c: "bcached t = bcached s" unfolding bcached_def assms by (rule refl)
  show "bview t = bview s" unfolding bview_def c assms by (rule refl)
  have "buf_ok p H t i = buf_ok p H s i" for i unfolding buf_ok_def assms by (rule refl)
  then show "bc_ok p H t = bc_ok p H s" unfolding bc_ok_def assms by simp
  show "dirties t = dirties s" unfolding dirties_def assms by (rule refl)
qed

lemma txn_same:
  assumes "bufs t = bufs s" "disk t = disk s" "hw t = hw s" "length (ptable t) = length (ptable s)"
    and "p_pid (ptable t ! p) = p_pid (ptable s ! p)" "\<And>i. slocks t (SL_buf i) = slocks s (SL_buf i)"
    and "lg_block t = lg_block s" "lg_size t = lg_size s" "lg_n t = lg_n s"
  shows "txn p H L t = txn p H L s"
  unfolding txn_def bc_same [OF assms(1-6)] assms by (rule refl)

lemma runs_pid: "txn p H L s \<Longrightarrow> p < length (ptable s)"
  using bc_okD(2) [OF txnD(1)] by blast

section \<open>Committing\<close>

lemma log_region:
  assumes "unat st + 30 \<le> unat (lim :: u32)" and "length L \<le> 29" and "distinct L"
    and "\<And>b. b \<in> set L \<Longrightarrow> b < lim \<and> outside_log st b"
  shows "log_area st L lim"
proof -
  have "unat lim < 2 ^ 32" using unsigned_less [of lim] by simp
  then have u: "unat (st + 29) = unat st + 29" "unat (st + of_nat (length L)) = unat st + length L"
    using assms(1,2) by (subst unat_plus_lt; simp add: unat_of_nat_small)+
  have "b < st \<or> st + of_nat (length L) < b" if "b \<in> set L" for b
    using assms(4) [OF that] u assms(2) by (auto simp: outside_log_def word_less_nat_alt)
  then show ?thesis unfolding log_area_def using assms by auto
qed

lemma commit_outside:
  assumes "unat st + 30 \<le> unat (lim :: u32)" and "length L \<le> 29" and "distinct L" and "outside_log st b"
  shows "apply_writes v (commit_writes st L al v) b = v b"
proof -
  have l: "unat lim < 2 ^ 32" using unsigned_less [of lim] by simp
  have u: "unat (st + 29) = unat st + 29" using assms(1) l by (subst unat_plus_lt) simp_all
  have ne: "b \<noteq> st" using assms(4) u by (auto simp: outside_log_def word_less_nat_alt)
  have nl: "b \<noteq> logblk st k" if "k < length L" for k
  proof -
    have "unat (of_nat (k + 1) :: u32) = k + 1" using that assms(2) by (intro unat_of_nat_small) simp
    then have "unat (logblk st k) = unat st + k + 1" using that assms(1,2) l unat_plus_lt [of st "of_nat (k + 1)"] by (simp add: ac_simps)
    then show ?thesis using assms(2,4) that u by (auto simp: outside_log_def word_less_nat_alt)
  qed
  define h where "h = head_block (int (length L)) al (v st)"
  have lw: "x \<notin> fst ` set (log_writes st L v)" if "\<And>k. k < length L \<Longrightarrow> x \<noteq> logblk st k" for x
  proof
    assume "x \<in> fst ` set (log_writes st L v)"
    then obtain k where "k < length L" "x = logblk st k" by (auto simp: log_writes_def)
    then show False using that by blast
  qed
  have e: "apply_writes v (commit_writes st L al v) =
    (apply_writes ((apply_writes v (log_writes st L v))(st := h)) (home_writes L v))(st := head_block 0 al h)"
    by (simp add: commit_writes_def Let_def h_def apply_writes_simps)
  define X where "X = insert st ((\<lambda>k. logblk st k) ` {..<length L})"
  have "((apply_writes v (log_writes st L v))(st := h)) x = v x" if "x \<notin> X" for x
    using that apply_writes_other [OF lw, of x v] by (auto simp: X_def)
  moreover have "b \<notin> X" using ne nl by (auto simp: X_def)
  ultimately have "apply_writes ((apply_writes v (log_writes st L v))(st := h)) (home_writes L v) b = v b"
    using home_apply [OF assms(3)] by blast
  then show ?thesis unfolding e using ne by simp
qed

lemma commit_op:
  fixes s :: "'z lst_scheme"
  assumes "txn p {} L s" "lg_dev s = 1" "unat (lg_start s) + 30 \<le> unat (disksize s)" "length L \<le> 28" "distinct L"
    and "\<And>b. b \<in> set L \<Longrightarrow> b < disksize s \<and> outside_log (lg_start s) b"
  shows "succeeds (commit s) (\<lambda>_ t. bc_ok p {} t \<and> bio_only (s\<lparr>lg_n := 0\<rparr>) t \<and> dirties t = {} \<and>
    (\<forall>b. outside_log (lg_start s) b \<longrightarrow> bview t b = bview s b))"
proof (cases "L = []")
  case True
  then have "lg_n s = 0" "dirties s = {}" "bc_ok p {} s" using txnD(1,4,6) [OF assms(1)] by simp_all
  moreover from this have e: "s\<lparr>lg_n := 0\<rparr> = s" by simp
  have "bio_only (s\<lparr>lg_n := 0\<rparr>) s" unfolding e by (simp add: bio_only_def)
  ultimately show ?thesis by (simp add: commit_def)
next
  case False
  note t = txnD [OF assms(1)]
  have a: "log_area (lg_start s) L (disksize s)" using assms(3-6) by (intro log_region) auto
  have "card (dirties s) \<le> 28" unfolding t(6) using card_length [of L] assms(4) by simp
  then have l: "log_at p (lg_start s) L s" using a t(1,4,5) assms(2) by (simp add: log_at_def)
  have "length L \<le> 29" using assms(4) by simp
  note o = commit_outside [OF assms(3) this assms(5)]
  show ?thesis
    by (rule succeeds_mono [OF commit_spec [OF l _ False]]) (use t(6) o in auto)
qed

lemma end_op_commits:
  fixes s :: "'z lst_scheme"
  assumes t: "txn p {} L s" and s: "lg_dev s = 1" "unat (lg_start s) + 30 \<le> unat (disksize s)" "lg_outstanding s = 1" "\<not> lg_committing s"
    and L: "length L \<le> 28" "distinct L" "\<And>b. b \<in> set L \<Longrightarrow> b < disksize s \<and> outside_log (lg_start s) b"
  shows "succeeds (end_op s) (\<lambda>_ t. idle p t \<and> op_only s t \<and> (\<forall>b. outside_log (lg_start s) b \<longrightarrow> bview t b = bview s b))"
proof -
  define s1 where "s1 = s\<lparr>lg_outstanding := 0, lg_committing := True\<rparr>"
  have s1: "lg_dev s1 = 1" "lg_start s1 = lg_start s" "disksize s1 = disksize s" "bview s1 = bview s" "hw s1 = hw s"
    using bc_ext(2) [of s1 s] s(1) by (simp_all add: s1_def)
  have t1: "txn p {} L s1" using t txn_same [of s1 s p "{}" L] by (simp add: s1_def)
  have q: "quiet (hw s)" using txnD(9) [OF t] .
  have e: "end_op s = andthen (commit s1) (\<lambda>_ s. andthen (kacquire LK_log s) (\<lambda>_ s.
      andthen (wakeup Ch_log (s\<lparr>lg_committing := False\<rparr>)) (\<lambda>_ s. krelease LK_log s)))"
    using s(3,4) quiet_simps(2-4) [OF q] by (simp add: end_op_def s1_def lock_simps)
  show ?thesis unfolding e succeeds_andthen [of "commit s1"]
  proof (rule succeeds_mono [OF commit_op [OF t1]])
    show "lg_dev s1 = 1" "unat (lg_start s1) + 30 \<le> unat (disksize s1)" "length L \<le> 28" "distinct L"
      "\<And>b. b \<in> set L \<Longrightarrow> b < disksize s1 \<and> outside_log (lg_start s1) b" using s1 s(2) L by simp_all
    fix r and u :: "'z lst_scheme"
    assume "bc_ok p {} u \<and> bio_only (s1\<lparr>lg_n := 0\<rparr>) u \<and> dirties u = {} \<and> (\<forall>b. outside_log (lg_start s1) b \<longrightarrow> bview u b = bview s1 b)"
    then have u: "bc_ok p {} u" "bio_only (s1\<lparr>lg_n := 0\<rparr>) u" "dirties u = {}" "\<And>b. outside_log (lg_start s) b \<Longrightarrow> bview u b = bview s b"
      by (simp_all add: s1)
    define v where "v = wakeup1 Ch_log (u\<lparr>lg_committing := False\<rparr>)"
    have uq: "quiet (hw u)" using bc_okD(1) [OF u(1)] by (auto simp: runs_def)
    have ev: "andthen (kacquire LK_log u) (\<lambda>_ s. andthen (wakeup Ch_log (s\<lparr>lg_committing := False\<rparr>)) (\<lambda>_ s. krelease LK_log s)) = Ok () v"
      using quiet_simps(2-5) [OF uq] by (simp add: lock_simps v_def wakeup1_def)
    note lu = bio_only_log [OF u(2)]
    have p: "p < length (ptable u)" using bc_okD(2) [OF u(1)] .
    have bv: "bufs v = bufs u" "disk v = disk u" "hw v = hw u" "slocks v = slocks u" by (simp_all add: v_def wakeup1_def)
    have pv: "length (ptable v) = length (ptable u)" "p_pid (ptable v ! p) = p_pid (ptable u ! p)" using p by (simp_all add: v_def wakeup1_def)
    note same = bc_same [of v u p, OF bv(1-3) pv] 
    have vv: "bc_ok p {} v" "bview v = bview u" "dirties v = {}" using same bv(4) u(1,3) by simp_all
    have lv: "lg_block v = lg_block s" "lg_size v = lg_size s" "lg_n v = 0" "lg_dev v = 1" "lg_outstanding v = 0" "\<not> lg_committing v"
      "lg_start v = lg_start s" "disksize v = disksize s"
      using lu s(1) by (simp_all add: v_def wakeup1_def s1_def)
    have "txn p {} [] v" using vv lv txnD(2,3) [OF t] bc_clean [OF vv(1)] by (simp add: txn_def)
    then have i: "idle p v" using lv s(2) by (simp add: idle_def)
    have ue: "u\<lparr>lg_block := lg_block s, lg_n := 0, lg_outstanding := 0, lg_committing := False\<rparr> = u\<lparr>lg_committing := False\<rparr>"
      using lu by (cases u) (simp add: s1_def)
    have "bio_only (s\<lparr>lg_block := lg_block s, lg_n := 0, lg_outstanding := 0, lg_committing := False\<rparr>) (u\<lparr>lg_committing := False\<rparr>)"
      using bio_only_log_upd [OF u(2), where bs = "lg_block s" and n = 0 and k = 0 and c = False] unfolding ue by (simp add: s1_def)
    from bio_only_trans [OF this bio_only_wakeup1] have "op_only s v" unfolding op_only_def v_def by blast
    then show "succeeds (andthen (kacquire LK_log u) (\<lambda>_ s. andthen (wakeup Ch_log (s\<lparr>lg_committing := False\<rparr>)) (\<lambda>_ s. krelease LK_log s)))
        (\<lambda>_ t. idle p t \<and> op_only s t \<and> (\<forall>b. outside_log (lg_start s) b \<longrightarrow> bview t b = bview s b))"
      unfolding ev using i vv(2) u(4) by simp
  qed
qed

end
