(* ===== verification/Swapspace.thy ===== *)
theory Swapspace
  imports Paging Fsop
begin

text \<open>
  The swap file as an array of pages: \<open>writeToSwapFile\<close> and \<open>readFromSwapFile\<close> (fs.c) go through the file table, one
  transaction per 1536 bytes, the inode layer, the log and the buffer cache; together they implement storing and loading
  a page of 4096 bytes.
\<close>

section \<open>Locking an inode in the cache\<close>

lemma ilock_cached:
  fixes s :: "'z ist_scheme"
  assumes "runs (hw s) p" and "1 \<le> i_ref (icache s ! ip)" and "i_valid (icache s ! ip)" and "\<not> sl_locked (slocks s (SL_inode ip))"
  shows "ilock (Some ip) s = Ok () (upd_slock (SL_inode ip) (\<lambda>l. l\<lparr>sl_locked := True, sl_pid := p_pid (ptable s ! p)\<rparr>) s)"
  using assms by (simp add: ilock_def acquiresleep_runs [OF assms(1,4)] upd_slock_def)

lemma iunlock_cached:
  fixes s :: "'z ist_scheme"
  assumes "runs (hw s) p" and "1 \<le> i_ref (icache s ! ip)" and "sl_locked (slocks s (SL_inode ip))"
    and "sl_pid (slocks s (SL_inode ip)) = p_pid (ptable s ! p)"
  shows "iunlock (Some ip) s = Ok () (wakeup1 (Ch_sleep (SL_inode ip)) (upd_slock (SL_inode ip) (\<lambda>l. l\<lparr>sl_locked := False, sl_pid := 0\<rparr>) s))"
  using assms by (simp add: iunlock_def holdingsleep_runs [OF assms(1)] releasesleep_runs [OF assms(1)])

section \<open>What file operations leave alone\<close>

text \<open>A state without what a transaction on file \<open>f\<close> may change; sleeping processes may be woken.\<close>

definition strip :: "nat \<Rightarrow> 'z flst_scheme \<Rightarrow> 'z flst_scheme" where
  "strip f s = s\<lparr>ptable := map (p_state_update (\<lambda>_. UNUSED)) (ptable s), slocks := \<lambda>_. \<lparr>sl_locked = False, sl_name = [], sl_pid = 0\<rparr>,
     bufs := [], disk := \<lambda>_. [], dwrites := [], lg_block := [], lg_n := 0, lg_outstanding := 0, lg_committing := False,
     ftable := (ftable s)[f := (ftable s ! f)\<lparr>f_off := 0\<rparr>]\<rparr>"

definition fs_same :: "nat \<Rightarrow> 'z flst_scheme \<Rightarrow> 'z flst_scheme \<Rightarrow> bool" where
  "fs_same f s t \<longleftrightarrow> strip f t = strip f s"

lemma fs_same_trans: "fs_same f s t \<Longrightarrow> fs_same f t u \<Longrightarrow> fs_same f s u"
  by (simp add: fs_same_def)

lemma fs_same_refl: "fs_same f s s"
  by (simp add: fs_same_def)

lemma fs_same_sel:
  assumes "fs_same f s t"
  shows "hw t = hw s" "mem t = mem s" "kbuffer t = kbuffer s" "icache t = icache s" "disksize t = disksize s"
    "lg_start t = lg_start s" "lg_dev t = lg_dev s" "lg_size t = lg_size s" "selection t = selection s" "length (ftable t) = length (ftable s)"
    "f < length (ftable s) \<Longrightarrow> (ftable t ! f)\<lparr>f_off := 0\<rparr> = (ftable s ! f)\<lparr>f_off := 0\<rparr>"
    "map (p_state_update (\<lambda>_. UNUSED)) (ptable t) = map (p_state_update (\<lambda>_. UNUSED)) (ptable s)"
    "length (ptable t) = length (ptable s)"
proof -
  have e: "strip f t = strip f s" using assms by (simp add: fs_same_def)
  show "hw t = hw s" "mem t = mem s" "kbuffer t = kbuffer s" "icache t = icache s" "disksize t = disksize s"
    "lg_start t = lg_start s" "lg_dev t = lg_dev s" "lg_size t = lg_size s" "selection t = selection s"
    using arg_cong [OF e, of hw] arg_cong [OF e, of mem] arg_cong [OF e, of kbuffer] arg_cong [OF e, of icache]
      arg_cong [OF e, of disksize] arg_cong [OF e, of lg_start] arg_cong [OF e, of lg_dev] arg_cong [OF e, of lg_size]
      arg_cong [OF e, of selection] by (simp_all add: strip_def)
  show p: "map (p_state_update (\<lambda>_. UNUSED)) (ptable t) = map (p_state_update (\<lambda>_. UNUSED)) (ptable s)"
    using arg_cong [OF e, of ptable] by (simp add: strip_def)
  then show "length (ptable t) = length (ptable s)" by (metis length_map)
  have l: "(ftable t)[f := (ftable t ! f)\<lparr>f_off := 0\<rparr>] = (ftable s)[f := (ftable s ! f)\<lparr>f_off := 0\<rparr>]"
    using arg_cong [OF e, of ftable] by (simp add: strip_def)
  then show n: "length (ftable t) = length (ftable s)" by (metis length_list_update)
  show "(ftable t ! f)\<lparr>f_off := 0\<rparr> = (ftable s ! f)\<lparr>f_off := 0\<rparr>" if "f < length (ftable s)"
    using that n arg_cong [OF l, of "\<lambda>l. l ! f"] by simp
qed

lemma fs_same_proc:
  assumes "fs_same f s t" and "p < length (ptable s)"
  shows "p_swapFile (ptable t ! p) = p_swapFile (ptable s ! p)" "p_pid (ptable t ! p) = p_pid (ptable s ! p)"
proof -
  have "map (p_state_update (\<lambda>_. UNUSED)) (ptable t) ! p = map (p_state_update (\<lambda>_. UNUSED)) (ptable s) ! p"
    using fs_same_sel(12) [OF assms(1)] by simp
  then have e: "(ptable t ! p)\<lparr>p_state := UNUSED\<rparr> = (ptable s ! p)\<lparr>p_state := UNUSED\<rparr>"
    using fs_same_sel(13) [OF assms(1)] assms(2) by simp
  show "p_swapFile (ptable t ! p) = p_swapFile (ptable s ! p)" "p_pid (ptable t ! p) = p_pid (ptable s ! p)"
    using arg_cong [OF e, of p_swapFile] arg_cong [OF e, of p_pid] by simp_all
qed

lemma fs_same_file:
  assumes "fs_same f s t" and "f < length (ftable s)"
  shows "f_type (ftable t ! f) = f_type (ftable s ! f)" "f_ip (ftable t ! f) = f_ip (ftable s ! f)"
    "f_readable (ftable t ! f) = f_readable (ftable s ! f)" "f_writable (ftable t ! f) = f_writable (ftable s ! f)"
proof -
  note e = fs_same_sel(11) [OF assms]
  show "f_type (ftable t ! f) = f_type (ftable s ! f)" "f_ip (ftable t ! f) = f_ip (ftable s ! f)"
    "f_readable (ftable t ! f) = f_readable (ftable s ! f)" "f_writable (ftable t ! f) = f_writable (ftable s ! f)"
    using arg_cong [OF e, of f_type] arg_cong [OF e, of f_ip] arg_cong [OF e, of f_readable] arg_cong [OF e, of f_writable] by simp_all
qed

lemma op_only_same:
  fixes s t :: "'z flst_scheme"
  assumes "op_only s t"
  shows "fs_same f s t" "ftable t = ftable s"
proof -
  obtain n bs k c where b: "bio_only (s\<lparr>lg_block := bs, lg_n := n, lg_outstanding := k, lg_committing := c\<rparr>) t"
    using assms by (auto simp: op_only_def)
  define u where "u = s\<lparr>lg_block := bs, lg_n := n, lg_outstanding := k, lg_committing := c\<rparr>"
  have e: "t = u\<lparr>ptable := ptable t, slocks := slocks t, bufs := bufs t, disk := disk t, dwrites := dwrites t\<rparr>"
    using b by (intro bst.equality) (simp_all add: bio_only_def u_def)
  have p: "map (p_state_update (\<lambda>_. UNUSED)) (ptable t) = map (p_state_update (\<lambda>_. UNUSED)) (ptable s)"
    using b by (simp add: bio_only_def)
  show "ftable t = ftable s" by (subst e) (simp add: u_def)
  show "fs_same f s t" unfolding fs_same_def by (subst e) (simp add: strip_def u_def p)
qed

lemma fs_same_simps:
  fixes s :: "'z flst_scheme"
  shows "fs_same f s (s\<lparr>lg_outstanding := k\<rparr>)" "fs_same f s (upd_slock i g s)" "fs_same f s (wakeup1 ch s)"
    "fs_same f s (upd_file f (\<lambda>q. q\<lparr>f_off := x q\<rparr>) s)"
proof -
  have "xs[f := g (xs[f := y] ! f)] = xs[f := g y]" for xs :: "file_rec list" and g y by (cases "f < length xs") (simp_all add: list_update_beyond not_less)
  then show "fs_same f s (s\<lparr>lg_outstanding := k\<rparr>)" "fs_same f s (upd_slock i g s)" "fs_same f s (wakeup1 ch s)"
    "fs_same f s (upd_file f (\<lambda>q. q\<lparr>f_off := x q\<rparr>) s)"
    by (simp_all add: fs_same_def strip_def upd_slock_def wakeup1_def comp_def upd_file_def)
qed

section \<open>A file in use\<close>

definition nblocks :: "'z ist_scheme \<Rightarrow> nat \<Rightarrow> nat" where
  "nblocks s ip = (unat (i_size (icache s ! ip)) + 511) div BSIZE"

text \<open>The inode is in the cache and not locked, and its blocks are allocated and outside the log.\<close>

definition inode_ok :: "nat \<Rightarrow> 'z ist_scheme \<Rightarrow> bool" where
  "inode_ok ip s \<longleftrightarrow> (let q = icache s ! ip in 1 \<le> i_ref q \<and> i_valid q \<and> i_type q \<noteq> T_DEV \<and> \<not> sl_locked (slocks s (SL_inode ip)) \<and>
     mapped s ip (nblocks s ip) \<and> (\<forall>k < nblocks s ip. outside_log (lg_start s) (baddr s ip k)) \<and>
     (NDIRECT < nblocks s ip \<longrightarrow> outside_log (lg_start s) (i_addrs q ! NDIRECT)))"

definition file_ok :: "nat \<Rightarrow> nat \<Rightarrow> nat \<Rightarrow> 'z flst_scheme \<Rightarrow> bool" where
  "file_ok p f ip s \<longleftrightarrow> idle p s \<and> f < length (ftable s) \<and> f_type (ftable s ! f) = FD_INODE \<and> f_ip (ftable s ! f) = Some ip \<and>
     f_readable (ftable s ! f) \<noteq> 0 \<and> f_writable (ftable s ! f) \<noteq> 0 \<and> inode_ok ip s"

lemma content_cong:
  fixes s t :: "'z ist_scheme"
  assumes "icache t = icache s" "disksize t = disksize s" "mapped s ip n" "\<And>k. k < n \<Longrightarrow> bview t (baddr s ip k) = bview s (baddr s ip k)"
    and "NDIRECT < n \<Longrightarrow> bview t (i_addrs (icache s ! ip) ! NDIRECT) = bview s (i_addrs (icache s ! ip) ! NDIRECT)"
  shows "k < n \<Longrightarrow> baddr t ip k = baddr s ip k" "mapped t ip n" "j < BSIZE * n \<Longrightarrow> file_byte t ip j = file_byte s ip j"
proof -
  show b: "baddr t ip k = baddr s ip k" if "k < n" for k using that assms(1,5) by (cases "k < NDIRECT") (simp_all add: baddr_def)
  show "mapped t ip n" using assms b by (auto simp: mapped_def inj_on_def)
  show "file_byte t ip j = file_byte s ip j" if "j < BSIZE * n"
  proof -
    have "j div BSIZE < n" using that by (simp add: div_less_iff_less_mult mult.commute)
    then show ?thesis by (simp add: file_byte_def b assms(4))
  qed
qed

lemma inode_ok_cong:
  fixes s t :: "'z ist_scheme"
  assumes "inode_ok ip s" "icache t = icache s" "disksize t = disksize s" "lg_start t = lg_start s" "\<not> sl_locked (slocks t (SL_inode ip))"
    and "\<And>b. outside_log (lg_start s) b \<Longrightarrow> bview t b = bview s b"
  shows "inode_ok ip t" "j < BSIZE * nblocks s ip \<Longrightarrow> file_byte t ip j = file_byte s ip j"
proof -
  have n: "nblocks t ip = nblocks s ip" by (simp add: nblocks_def assms(2))
  note i = assms(1) [unfolded inode_ok_def Let_def]
  note c = content_cong [OF assms(2,3), of ip "nblocks s ip"]
  have m: "mapped s ip (nblocks s ip)" and o: "\<And>k. k < nblocks s ip \<Longrightarrow> outside_log (lg_start s) (baddr s ip k)"
    "NDIRECT < nblocks s ip \<Longrightarrow> outside_log (lg_start s) (i_addrs (icache s ! ip) ! NDIRECT)" using i by simp_all
  note d = c [OF m assms(6) [OF o(1)] assms(6) [OF o(2)]]
  show "inode_ok ip t" unfolding inode_ok_def Let_def n assms(2,4) using i assms(5) d(1,2) by auto
  show "file_byte t ip j = file_byte s ip j" if "j < BSIZE * nblocks s ip" using d(3) that by simp
qed

section \<open>One transaction of a write\<close>

definition write_op :: "nat \<Rightarrow> nat \<Rightarrow> addr \<Rightarrow> nat \<Rightarrow> 'z flst_scheme \<Rightarrow> (int, 'z flst_scheme) out" where
  "write_op f ip addr n1 s =
     andthen (begin_op s) (\<lambda>_ s.
     andthen (ilock (Some ip) s) (\<lambda>_ s.
     andthen (writei from_mem ip addr (f_off (ftable s ! f)) (of_nat n1) s) (\<lambda>r s.
     let s = (if 0 < r then upd_file f (\<lambda>q. q\<lparr>f_off := f_off q + of_int r\<rparr>) s else s) in
     andthen (iunlock (Some ip) s) (\<lambda>_ s.
     andthen (end_op s) (\<lambda>_ s. Ok r s)))))"

lemma filewrite_loop_op:
  "filewrite_loop f ip addr left s =
     (if left = 0 then Ok True s
      else let n1 = min left 1536 in
        andthen (write_op f ip addr n1 s) (\<lambda>r s.
        if r < 0 then Ok False s
        else if r \<noteq> int n1 then Panic ''short filewrite''
        else filewrite_loop f ip (addr + of_nat n1) (left - n1) s))"
  by (subst filewrite_loop.simps) (simp add: write_op_def Let_def andthen_assoc)

lemma nblocks_cover: "unat (i_size (icache s ! ip)) \<le> BSIZE * nblocks s ip"
  unfolding nblocks_def by (rule blocks_fit(1))

text \<open>The inode locked and the transaction open.\<close>

definition opened :: "nat \<Rightarrow> nat \<Rightarrow> 'z flst_scheme \<Rightarrow> 'z flst_scheme" where
  "opened p ip s = upd_slock (SL_inode ip) (\<lambda>l. l\<lparr>sl_locked := True, sl_pid := p_pid (ptable s ! p)\<rparr>) (s\<lparr>lg_outstanding := 1\<rparr>)"

lemma opened_sel [simp]:
  "hw (opened p ip s) = hw s" "icache (opened p ip s) = icache s" "ftable (opened p ip s) = ftable s" "mem (opened p ip s) = mem s"
  "lg_outstanding (opened p ip s) = 1" "lg_committing (opened p ip s) = lg_committing s" "lg_start (opened p ip s) = lg_start s"
  "disksize (opened p ip s) = disksize s" "lg_dev (opened p ip s) = lg_dev s" "ptable (opened p ip s) = ptable s"
  "sl_locked (slocks (opened p ip s) (SL_inode ip))" "sl_pid (slocks (opened p ip s) (SL_inode ip)) = p_pid (ptable s ! p)"
  "bview (opened p ip s) = bview s" "txn p {} L (opened p ip s) = txn p {} L s" "fs_same f s (opened p ip s)"
proof -
  let ?t = "opened p ip s"
  show "hw ?t = hw s" "icache ?t = icache s" "ftable ?t = ftable s" "mem ?t = mem s" "lg_outstanding ?t = 1"
    "lg_committing ?t = lg_committing s" "lg_start ?t = lg_start s" "disksize ?t = disksize s" "lg_dev ?t = lg_dev s"
    "sl_locked (slocks ?t (SL_inode ip))" "sl_pid (slocks ?t (SL_inode ip)) = p_pid (ptable s ! p)" "ptable ?t = ptable s"
    by (simp_all add: opened_def upd_slock_def)
  show "bview ?t = bview s" by (rule bc_same(2) [where p = p]) (simp_all add: opened_def upd_slock_def)
  show "txn p {} L ?t = txn p {} L s" by (rule txn_same) (simp_all add: opened_def upd_slock_def)
  show "fs_same f s ?t" unfolding opened_def by (rule fs_same_trans [OF fs_same_simps(1) fs_same_simps(2)])
qed

lemma file_okD:
  assumes "file_ok p f ip s"
  shows "idle p s" "txn p {} [] s" "runs (hw s) p" "p < length (ptable s)" "f < length (ftable s)" "f_ip (ftable s ! f) = Some ip"
    "f_type (ftable s ! f) = FD_INODE" "inode_ok ip s" "1 \<le> i_ref (icache s ! ip)" "i_valid (icache s ! ip)"
    "i_type (icache s ! ip) \<noteq> T_DEV" "\<not> sl_locked (slocks s (SL_inode ip))" "mapped s ip (nblocks s ip)"
    "k < nblocks s ip \<Longrightarrow> outside_log (lg_start s) (baddr s ip k)"
    "NDIRECT < nblocks s ip \<Longrightarrow> outside_log (lg_start s) (i_addrs (icache s ! ip) ! NDIRECT)"
  using assms txnD(8) [of p "{}" "[]" s] runs_pid [of p "{}" "[]" s] by (auto simp: file_ok_def idle_def inode_ok_def Let_def)

lemma open_file:
  assumes "file_ok p f ip s"
  shows "begin_op s = Ok () (s\<lparr>lg_outstanding := 1\<rparr>)" "ilock (Some ip) (s\<lparr>lg_outstanding := 1\<rparr>) = Ok () (opened p ip s)"
  using begin_op_idle [OF file_okD(1) [OF assms]] ilock_cached [of "s\<lparr>lg_outstanding := 1\<rparr>" p ip] file_okD [OF assms]
  by (simp_all add: opened_def)

lemma file_ok_same:
  assumes "file_ok p f ip s" "fs_same f s t" "idle p t" "inode_ok ip t"
  shows "file_ok p f ip t"
  using assms fs_same_file [OF assms(2)] fs_same_sel(10) [OF assms(2)] by (simp add: file_ok_def)

lemma close_file:
  assumes s: "file_ok p f ip s" and u: "txn p {} L u" "fs_same f s u" "sl_locked (slocks u (SL_inode ip))"
      "sl_pid (slocks u (SL_inode ip)) = p_pid (ptable u ! p)" "lg_outstanding u = 1" "\<not> lg_committing u"
    and L: "length L \<le> 28" "distinct L" "set L \<subseteq> baddr s ip ` {..<nblocks s ip}"
    and m: "mapped u ip (nblocks s ip)" "\<And>k. k < nblocks s ip \<Longrightarrow> baddr u ip k = baddr s ip k"
  shows "succeeds (andthen (iunlock (Some ip) u) (\<lambda>_ s. andthen (end_op s) (\<lambda>_ s. Ok r s)))
    (\<lambda>r' t. r' = r \<and> file_ok p f ip t \<and> fs_same f s t \<and> ftable t = ftable u \<and> (\<forall>j < BSIZE * nblocks s ip. file_byte t ip j = file_byte u ip j))"
proof -
  note sd = file_okD [OF s] and su = fs_same_sel [OF u(2)]
  define v where "v = wakeup1 (Ch_sleep (SL_inode ip)) (upd_slock (SL_inode ip) (\<lambda>l. l\<lparr>sl_locked := False, sl_pid := 0\<rparr>) u)"
  have iu: "iunlock (Some ip) u = Ok () v"
    unfolding v_def by (rule iunlock_cached) (use sd su u in simp_all)
  have p: "p < length (ptable u)" using sd(4) su(13) by simp
  have vs: "bufs v = bufs u" "disk v = disk u" "hw v = hw u" "length (ptable v) = length (ptable u)" "p_pid (ptable v ! p) = p_pid (ptable u ! p)"
    "slocks v (SL_buf i) = slocks u (SL_buf i)" "lg_block v = lg_block u" "lg_size v = lg_size u" "lg_n v = lg_n u" "icache v = icache u"
    "disksize v = disksize u" "lg_start v = lg_start u" "lg_dev v = lg_dev u" "lg_outstanding v = lg_outstanding u"
    "lg_committing v = lg_committing u" "ftable v = ftable u" "\<not> sl_locked (slocks v (SL_inode ip))" for i
    using p by (simp_all add: v_def wakeup1_def upd_slock_def)
  have bv: "bview v = bview u" using bc_same(2) [OF vs(1-6)] .
  have tv: "txn p {} L v" using u(1) txn_same [OF vs(1-9)] by simp
  have fv: "fs_same f s v" unfolding v_def by (rule fs_same_trans [OF fs_same_trans [OF u(2) fs_same_simps(2)] fs_same_simps(3)])
  have nb: "nblocks v ip = nblocks s ip" by (simp add: nblocks_def vs(10) su(4))
  note cv = content_cong [of v u ip "nblocks s ip"]
  have iv: "inode_ok ip v" "\<And>j. j < BSIZE * nblocks s ip \<Longrightarrow> file_byte v ip j = file_byte u ip j"
    unfolding inode_ok_def Let_def nb using cv vs(10-12,17) su(4,6) bv m sd(9-11,14,15) by simp_all
  have dl: "lg_dev v = 1" "unat (lg_start v) + 30 \<le> unat (disksize v)"
    using sd(1) su(5-7) vs(11-13) by (simp_all add: idle_def)
  have Lv: "b < disksize v \<and> outside_log (lg_start v) b" if "b \<in> set L" for b
    using that L(3) mappedD(2) [OF sd(13)] sd(14) su(5,6) vs(11,12) by auto
  show ?thesis unfolding iu andthen.simps succeeds_andthen
  proof (rule succeeds_mono [OF end_op_commits [OF tv dl _ _ L(1,2) Lv]], simp add: vs u, simp add: vs u, assumption, elim conjE)
    fix x t
    assume t: "idle p t" "op_only v t" "\<forall>b. outside_log (lg_start v) b \<longrightarrow> bview t b = bview v b"
    note f = op_only_frame [OF t(2)]
    note ot = op_only_same [OF t(2)]
    have "inode_ok ip t" "\<And>j. j < BSIZE * nblocks v ip \<Longrightarrow> file_byte t ip j = file_byte v ip j"
      using inode_ok_cong [OF iv(1), of t] f(2,4,8) t(3) fs_same_sel(4) [OF ot(1)] vs(17) by auto
    moreover have st: "fs_same f s t" using fs_same_trans [OF fv ot(1)] .
    ultimately show "succeeds (Ok r t) (\<lambda>r' t. r' = r \<and> file_ok p f ip t \<and> fs_same f s t \<and> ftable t = ftable u \<and>
        (\<forall>j < BSIZE * nblocks s ip. file_byte t ip j = file_byte u ip j))"
      using file_ok_same [OF s st t(1)] ot(2) vs(16) iv(2) nb by auto
  qed
qed

text \<open>The content of the file with \<open>bs\<close> written at \<open>off\<close>.\<close>

definition patched :: "'z ist_scheme \<Rightarrow> nat \<Rightarrow> nat \<Rightarrow> byte list \<Rightarrow> 'z ist_scheme \<Rightarrow> bool" where
  "patched s ip off bs t \<longleftrightarrow> (\<forall>j < unat (i_size (icache s ! ip)). file_byte t ip j =
     (if off \<le> j \<and> j < off + length bs then bs ! (j - off) else file_byte s ip j))"

lemma write_op_spec:
  assumes s: "file_ok p f ip s" and bs: "ureads (length bs) addr s = Some bs" "bs \<noteq> []" "length bs \<le> 1536"
    and off: "unat (f_off (ftable s ! f)) + length bs \<le> unat (i_size (icache s ! ip))"
  shows "succeeds (write_op f ip addr (length bs) s) (\<lambda>r t. r = int (length bs) \<and> file_ok p f ip t \<and> fs_same f s t \<and>
    f_off (ftable t ! f) = f_off (ftable s ! f) + of_nat (length bs) \<and> patched s ip (unat (f_off (ftable s ! f))) bs t)"
proof -
  define o1 where "o1 = f_off (ftable s ! f)"
  define n where "n = nblocks s ip"
  note sd = file_okD [OF s]
  let ?s = "opened p ip s"
  have e: "write_op f ip addr (length bs) s = andthen (writei from_mem ip addr o1 (of_nat (length bs)) ?s) (\<lambda>r s.
     let s = (if 0 < r then upd_file f (\<lambda>q. q\<lparr>f_off := f_off q + of_int r\<rparr>) s else s) in
     andthen (iunlock (Some ip) s) (\<lambda>_ s. andthen (end_op s) (\<lambda>_ s. Ok r s)))"
    by (simp add: write_op_def open_file [OF s] o1_def)
  have m: "mapped ?s ip n" "\<And>k. k < n \<Longrightarrow> baddr ?s ip k = baddr s ip k" "\<And>j. j < BSIZE * n \<Longrightarrow> file_byte ?s ip j = file_byte s ip j"
    using content_cong [of ?s s ip n] sd(13) by (simp_all add: n_def)
  have "unat o1 mod BSIZE < BSIZE" by simp
  then have "(unat o1 mod BSIZE + length bs + 511) div BSIZE \<le> 2558 div BSIZE" using bs(3) by (intro div_le_mono) linarith
  then have c: "nchunks (unat o1) (length bs) \<le> 4" by (simp add: nchunks_def)
  have src: "ureads (length bs) addr ?s = Some bs" using bs(1) ureads_cong [of ?s s] by simp
  have pre: "1 \<le> lg_outstanding ?s" "n = (unat (i_size (icache ?s ! ip)) + 511) div BSIZE"
    "unat o1 + length bs \<le> unat (i_size (icache ?s ! ip))" "length [] + nchunks (unat o1) (length bs) \<le> 29"
    using off c by (simp_all add: n_def nblocks_def o1_def)
  have ty: "i_type (icache ?s ! ip) \<noteq> T_DEV" "txn p {} [] ?s" using sd(2,11) by simp_all
  note w = mem_source.writei_source [OF ty(2,1) pre(1) m(1) pre(2-4) src]
  show ?thesis unfolding e succeeds_andthen [of "writei _ _ _ _ _ _"] o1_def [symmetric]
  proof (rule succeeds_mono [OF w], elim conjE exE)
    fix r t L
    assume r: "r = int (length bs)" and ic: "icache t = icache ?s" and ow: "overwritten ?s ip n (unat o1) bs t"
      and tx: "txn p {} L t" and L: "length L \<le> length [] + nchunks (unat o1) (length bs)" "set L \<subseteq> set [] \<union> baddr ?s ip ` {..<n}"
        "distinct [] \<longrightarrow> distinct L"
    have lo: "log_only ?s t" using ow by (simp add: overwritten_def)
    note lf = log_only_frame [OF lo]
    note ot = op_only_same [OF log_only_op_only [OF lo]]
    have st: "fs_same f s t" using fs_same_trans [OF opened_sel(15) ot(1)] .
    define u where "u = upd_file f (\<lambda>q. q\<lparr>f_off := f_off q + of_int r\<rparr>) t"
    have us: "bufs u = bufs t" "disk u = disk t" "hw u = hw t" "slocks u = slocks t" "ptable u = ptable t" "lg_block u = lg_block t"
      "lg_size u = lg_size t" "lg_n u = lg_n t" "icache u = icache t" "disksize u = disksize t" "lg_outstanding u = lg_outstanding t"
      "lg_committing u = lg_committing t" by (simp_all add: u_def upd_file_def)
    have bu: "bview u = bview t" using bc_ext(2) [OF us(1,2,4,3,5)] .
    have tu: "txn p {} L u" using tx txn_same [of u t p "{}" L] us by simp
    have su: "fs_same f s u" unfolding u_def by (rule fs_same_trans [OF st fs_same_simps(4)])
    obtain n0 bs0 where bo: "bio_only (?s\<lparr>lg_block := bs0, lg_n := n0\<rparr>) t" using lo by (auto simp: log_only_def)
    have cm: "\<not> lg_committing u" using bio_only_log(4) [OF bo] us(12) sd(1) by (simp add: idle_def)
    have pid: "p_pid (ptable t ! p) = p_pid (ptable s ! p)" using fs_same_proc(2) [OF st sd(4)] .
    have L': "length L \<le> 28" "distinct L" "set L \<subseteq> baddr s ip ` {..<n}" using L c m(2) by auto
    have mu: "mapped u ip n" "\<And>k. k < n \<Longrightarrow> baddr u ip k = baddr s ip k" "\<And>j. j < BSIZE * n \<Longrightarrow> file_byte u ip j = file_byte t ip j"
      using content_cong [of u t ip n] us(9,10) bu ow m(2) by (simp_all add: overwritten_def)
    have sl: "sl_locked (slocks u (SL_inode ip))" "sl_pid (slocks u (SL_inode ip)) = p_pid (ptable u ! p)" "lg_outstanding u = 1"
      using lf(4,9) us pid by simp_all
    have uo: "ftable u ! f = (ftable s ! f)\<lparr>f_off := o1 + of_nat (length bs)\<rparr>"
      using ot(2) sd(5) by (simp add: u_def upd_file_def r o1_def)
    have "0 < r" using r bs(2) by simp
    then have eu: "(if 0 < r then upd_file f (\<lambda>q. q\<lparr>f_off := f_off q + of_int r\<rparr>) t else t) = u" by (simp add: u_def)
    show "succeeds (let s = (if 0 < r then upd_file f (\<lambda>q. q\<lparr>f_off := f_off q + of_int r\<rparr>) t else t) in
        andthen (iunlock (Some ip) s) (\<lambda>_ s. andthen (end_op s) (\<lambda>_ s. Ok r s)))
      (\<lambda>r t. r = int (length bs) \<and> file_ok p f ip t \<and> fs_same f s t \<and> f_off (ftable t ! f) = o1 + of_nat (length bs) \<and>
        patched s ip (unat o1) bs t)"
      unfolding Let_def eu
    proof (rule succeeds_mono [OF close_file [OF s tu su sl(1,2,3) cm L'(1,2) L'(3) [unfolded n_def] mu(1) [unfolded n_def] mu(2) [unfolded n_def]]],
        assumption, elim conjE)
      fix r' v
      assume v: "r' = r" "file_ok p f ip v" "fs_same f s v" "ftable v = ftable u"
        "\<forall>j < BSIZE * nblocks s ip. file_byte v ip j = file_byte u ip j"
      have "file_byte v ip j = (if unat o1 \<le> j \<and> j < unat o1 + length bs then bs ! (j - unat o1) else file_byte s ip j)"
        if "j < unat (i_size (icache s ! ip))" for j
      proof -
        have j: "j < BSIZE * n" using that nblocks_cover [of s ip] by (simp add: n_def)
        then show ?thesis using v(5) mu(3) m(3) ow by (simp add: n_def overwritten_def)
      qed
      then show "r' = int (length bs) \<and> file_ok p f ip v \<and> fs_same f s v \<and> f_off (ftable v ! f) = o1 + of_nat (length bs) \<and>
          patched s ip (unat o1) bs v"
        using v r uo by (simp add: patched_def)
    qed
  qed
qed

section \<open>Writing a page\<close>

lemma patched_comp:
  assumes "patched s ip off bs t" "patched t ip (off + length bs) cs u" "icache t = icache s"
  shows "patched s ip off (bs @ cs) u"
  using assms unfolding patched_def by (auto simp: nth_append)

lemma filewrite_loop_spec:
  assumes "file_ok p f ip s" "ureads (length bs) addr s = Some bs"
    and "unat (f_off (ftable s ! f)) + length bs \<le> unat (i_size (icache s ! ip))"
  shows "succeeds (filewrite_loop f ip addr (length bs) s)
    (\<lambda>d t. d \<and> file_ok p f ip t \<and> fs_same f s t \<and> patched s ip (unat (f_off (ftable s ! f))) bs t)"
  using assms
proof (induction "length bs" arbitrary: bs addr s rule: less_induct)
  case less
  show ?case
  proof (cases "bs = []")
    case True
    then show ?thesis using less.prems(1) by (subst filewrite_loop_op) (auto simp: fs_same_refl patched_def)
  next
    case False
    define m where "m = min (length bs) 1536"
    define o1 where "o1 = f_off (ftable s ! f)"
    have m: "0 < m" "m \<le> length bs" "m \<le> 1536" "length (take m bs) = m" "length bs - m = length (drop m bs)"
      using False by (auto simp: m_def)
    have "length bs = m + (length bs - m)" using m(2) by simp
    then have r0: "ureads (m + (length bs - m)) addr s = Some bs" using less.prems(2) by simp
    have r: "ureads m addr s = Some (take m bs)" "ureads (length bs - m) (addr + of_nat m) s = Some (drop m bs)"
      using ureads_split [OF r0] by simp_all
    have un: "unat (o1 + of_nat m) = unat o1 + m"
    proof -
      have "unat o1 + m < 2 ^ 32" using less.prems(3) m(2) unsigned_less [of "i_size (icache s ! ip)", where 'a = nat] by (simp add: o1_def)
      moreover have "unat (of_nat m :: u32) = m" by (rule unat_of_nat_small) (use calculation in simp)
      ultimately show ?thesis by (subst unat_plus_lt) simp_all
    qed
    have e: "filewrite_loop f ip addr (length bs) s = andthen (write_op f ip addr (length (take m bs)) s) (\<lambda>r s.
        if r < 0 then Ok False s else if r \<noteq> int m then Panic ''short filewrite''
        else filewrite_loop f ip (addr + of_nat m) (length (drop m bs)) s)"
      using False unfolding m(4) m(5) [symmetric] filewrite_loop_op [of f ip addr "length bs"] m_def [symmetric] by (simp add: Let_def)
    have w: "ureads (length (take m bs)) addr s = Some (take m bs)" "take m bs \<noteq> []" "length (take m bs) \<le> 1536"
      "unat (f_off (ftable s ! f)) + length (take m bs) \<le> unat (i_size (icache s ! ip))"
      using r(1) m(1-3) False less.prems(3) unfolding m(4) by simp_all
    show ?thesis unfolding e succeeds_andthen
    proof (rule succeeds_mono [OF write_op_spec [OF less.prems(1) w]], elim conjE)
      fix x t
      assume t: "x = int (length (take m bs))" "file_ok p f ip t" "fs_same f s t"
        "f_off (ftable t ! f) = f_off (ftable s ! f) + of_nat (length (take m bs))" "patched s ip (unat (f_off (ftable s ! f))) (take m bs) t"
      note st = fs_same_sel [OF t(3)]
      have x: "x = int m" and ot: "f_off (ftable t ! f) = o1 + of_nat m" using t(1,4) m(4) by (simp_all add: o1_def)
      have "ureads (length (drop m bs)) (addr + of_nat m) t = Some (drop m bs)"
        unfolding m(5) [symmetric] using r(2) ureads_cong [of t s] st(1,2) by simp
      moreover have "unat (f_off (ftable t ! f)) + length (drop m bs) \<le> unat (i_size (icache t ! ip))"
        using less.prems(3) m(2) st(4) ot un by (simp add: o1_def)
      moreover have "length (drop m bs) < length bs" using m(1) False by simp
      ultimately have "succeeds (filewrite_loop f ip (addr + of_nat m) (length (drop m bs)) t)
        (\<lambda>d u. d \<and> file_ok p f ip u \<and> fs_same f t u \<and> patched t ip (unat (f_off (ftable t ! f))) (drop m bs) u)"
        using less.hyps t(2) by blast
      then show "succeeds (if x < 0 then Ok False t else if x \<noteq> int m then Panic ''short filewrite''
          else filewrite_loop f ip (addr + of_nat m) (length (drop m bs)) t)
        (\<lambda>d t. d \<and> file_ok p f ip t \<and> fs_same f s t \<and> patched s ip (unat (f_off (ftable s ! f))) bs t)"
        using x fs_same_trans [OF t(3)] patched_comp [OF t(5) _ st(4), of "drop m bs"] ot un m(4)
        by (auto elim!: succeeds_mono simp: o1_def)
    qed
  qed
qed

text \<open>Setting the offset of the file disturbs nothing.\<close>

lemma file_ok_seek:
  assumes "file_ok p f ip s"
  shows "file_ok p f ip (upd_file f (\<lambda>q. q\<lparr>f_off := x\<rparr>) s)" "file_byte (upd_file f (\<lambda>q. q\<lparr>f_off := x\<rparr>) s) = file_byte s"
proof -
  let ?t = "upd_file f (\<lambda>q. q\<lparr>f_off := x\<rparr>) s"
  note sd = file_okD [OF assms]
  have us: "bufs ?t = bufs s" "disk ?t = disk s" "hw ?t = hw s" "slocks ?t = slocks s" "ptable ?t = ptable s" "lg_block ?t = lg_block s"
    "lg_size ?t = lg_size s" "lg_n ?t = lg_n s" "icache ?t = icache s" "disksize ?t = disksize s" "lg_outstanding ?t = lg_outstanding s"
    "lg_committing ?t = lg_committing s" "lg_start ?t = lg_start s" "lg_dev ?t = lg_dev s" by (simp_all add: upd_file_def)
  have b: "bview ?t = bview s" using bc_ext(2) [OF us(1,2,4,3,5)] .
  show "file_byte ?t = file_byte s" by (simp add: file_byte_def baddr_def b us(9) fun_eq_iff)
  have "txn p {} [] ?t = txn p {} [] s" using us by (intro txn_same) simp_all
  then have "idle p ?t" using sd(1) us by (simp add: idle_def)
  moreover have "inode_ok ip ?t" using inode_ok_cong(1) [OF sd(8) us(9,10,13)] us(4) b sd(12) by simp
  ultimately show "file_ok p f ip ?t" using file_ok_same [OF assms fs_same_simps(4) [where x = "\<lambda>_. x"]] by simp
qed

section \<open>The swap file as an array of pages\<close>

definition swap_page :: "'z ist_scheme \<Rightarrow> nat \<Rightarrow> nat \<Rightarrow> byte list" where
  "swap_page s ip k = map (file_byte s ip) [4096 * k..<4096 * k + 4096]"

text \<open>The swap file of process \<open>p\<close> is open as \<open>f\<close> on inode \<open>ip\<close>, no transaction is running, and the file has \<open>n\<close> pages.\<close>

definition swap_ok :: "nat \<Rightarrow> nat \<Rightarrow> nat \<Rightarrow> nat \<Rightarrow> 'z flst_scheme \<Rightarrow> bool" where
  "swap_ok p f ip n s \<longleftrightarrow> file_ok p f ip s \<and> p_swapFile (ptable s ! p) = Some f \<and> 4096 * n \<le> unat (i_size (icache s ! ip))"

lemma swap_ok_same:
  assumes "swap_ok p f ip n s" "file_ok p f ip t" "fs_same f (s\<lparr>mem := m\<rparr>) t"
  shows "swap_ok p f ip n t"
  using assms fs_same_sel(4) [OF assms(3)] fs_same_proc(1) [OF assms(3)] file_okD(4) [of p f ip s] by (simp add: swap_ok_def)

lemma page_offset:
  assumes "j < n" "4096 * n \<le> unat (x :: u32)"
  shows "unat (of_nat j * PGSIZE) = 4096 * j"
proof -
  have "4096 * j < 2 ^ 32" using assms unsigned_less [of x, where 'a = nat] by simp
  then have "unat (of_nat (j * 4096) :: u32) = j * 4096" by (intro unat_of_nat_small) (simp add: mult.commute)
  then show ?thesis by (simp add: mult.commute)
qed

lemma writeToSwapFile_page:
  assumes s: "swap_ok p f ip n s" and j: "j < n" and bs: "ureads 4096 va s = Some bs"
  shows "succeeds (writeToSwapFile p va (of_nat j * PGSIZE) PGSIZE s) (\<lambda>r t. r = 4096 \<and> swap_ok p f ip n t \<and> fs_same f s t \<and>
    (\<forall>k < n. swap_page t ip k = (if k = j then bs else swap_page s ip k)))"
proof -
  let ?s = "upd_file f (\<lambda>q. q\<lparr>f_off := of_nat j * PGSIZE\<rparr>) s"
  have so: "file_ok p f ip s" "p_swapFile (ptable s ! p) = Some f" and sz: "4096 * n \<le> unat (i_size (icache s ! ip))"
    using s by (simp_all add: swap_ok_def)
  note off = page_offset [OF j sz]
  have l: "length bs = 4096" using ureads_length [OF bs] .
  have s1: "file_ok p f ip ?s" "file_byte ?s = file_byte s" by (rule file_ok_seek [OF so(1)])+
  have us: "ftable ?s ! f = (ftable s ! f)\<lparr>f_off := of_nat j * PGSIZE\<rparr>" "icache ?s = icache s" "mem ?s = mem s" "hw ?s = hw s"
    using file_okD(5) [OF so(1)] by (simp_all add: upd_file_def)
  have fs: "fs_same f s ?s" by (rule fs_same_simps(4) [where x = "\<lambda>_. of_nat j * PGSIZE"])
  have rd: "ureads (length bs) va ?s = Some bs" using bs l ureads_cong [of ?s s] us by simp
  have le: "unat (f_off (ftable ?s ! f)) + length bs \<le> unat (i_size (icache ?s ! ip))" using us off l j sz by simp
  have ok: "f_writable (ftable ?s ! f) \<noteq> 0" "f_type (ftable ?s ! f) = FD_INODE" "f_ip (ftable ?s ! f) = Some ip"
    using s1(1) by (simp_all add: file_ok_def)
  have e: "writeToSwapFile p va (of_nat j * PGSIZE) PGSIZE s =
      andthen (filewrite_loop f ip va (length bs) ?s) (\<lambda>d s. Ok (if d then 4096 else - 1) s)"
    using so(2) ok l by (simp add: writeToSwapFile_def filewrite_def Let_def)
  show ?thesis unfolding e succeeds_andthen
  proof (rule succeeds_mono [OF filewrite_loop_spec [OF s1(1) rd le]], elim conjE)
    fix d t
    assume t: "d" "file_ok p f ip t" "fs_same f ?s t" "patched ?s ip (unat (f_off (ftable ?s ! f))) bs t"
    have st: "fs_same f s t" using fs_same_trans [OF fs t(3)] .
    then have so': "swap_ok p f ip n t" using swap_ok_same [OF s t(2), of "mem s"] by simp
    have fb: "file_byte t ip i = (if 4096 * j \<le> i \<and> i < 4096 * j + 4096 then bs ! (i - 4096 * j) else file_byte s ip i)"
      if "i < 4096 * n" for i using t(4) that sz us off l s1(2) by (simp add: patched_def)
    have "swap_page t ip k = (if k = j then bs else swap_page s ip k)" if "k < n" for k
    proof (rule nth_equalityI)
      fix i assume "i < length (swap_page t ip k)"
      then have i: "i < 4096" by (simp add: swap_page_def)
      moreover have "4096 * k + i < 4096 * n" using i that by linarith
      moreover have "4096 * j \<le> 4096 * k + i \<and> 4096 * k + i < 4096 * j + 4096 \<longleftrightarrow> k = j" using i by linarith
      ultimately show "swap_page t ip k ! i = (if k = j then bs else swap_page s ip k) ! i"
        by (simp add: swap_page_def fb)
    qed (simp add: swap_page_def l)
    then show "succeeds (Ok (if d then 4096 else - 1) t) (\<lambda>r t. r = 4096 \<and> swap_ok p f ip n t \<and> fs_same f s t \<and>
        (\<forall>k < n. swap_page t ip k = (if k = j then bs else swap_page s ip k)))"
      using t(1) so' st by simp
  qed
qed

section \<open>Reading a page\<close>

lemma file_ok_mem: "file_ok p f ip (s\<lparr>mem := m\<rparr>) = file_ok p f ip s"
  by (simp add: file_ok_def idle_def inode_ok_def nblocks_def)

lemma unlock_file:
  assumes s: "file_ok p f ip s" and u: "txn p {} [] u" "fs_same f s u" "sl_locked (slocks u (SL_inode ip))"
      "sl_pid (slocks u (SL_inode ip)) = p_pid (ptable u ! p)" "lg_outstanding u = 0" "\<not> lg_committing u"
    and m: "mapped u ip (nblocks s ip)" "\<And>k. k < nblocks s ip \<Longrightarrow> baddr u ip k = baddr s ip k"
  shows "\<exists>v. iunlock (Some ip) u = Ok () v \<and> file_ok p f ip v \<and> fs_same f u v \<and> file_byte v ip = file_byte u ip"
proof -
  note sd = file_okD [OF s] and su = fs_same_sel [OF u(2)]
  define v where "v = wakeup1 (Ch_sleep (SL_inode ip)) (upd_slock (SL_inode ip) (\<lambda>l. l\<lparr>sl_locked := False, sl_pid := 0\<rparr>) u)"
  have iu: "iunlock (Some ip) u = Ok () v"
    unfolding v_def by (rule iunlock_cached) (use sd su u in simp_all)
  have p: "p < length (ptable u)" using sd(4) su(13) by simp
  have vs: "bufs v = bufs u" "disk v = disk u" "hw v = hw u" "length (ptable v) = length (ptable u)" "p_pid (ptable v ! p) = p_pid (ptable u ! p)"
    "slocks v (SL_buf i) = slocks u (SL_buf i)" "lg_block v = lg_block u" "lg_size v = lg_size u" "lg_n v = lg_n u" "icache v = icache u"
    "disksize v = disksize u" "lg_start v = lg_start u" "lg_dev v = lg_dev u" "lg_outstanding v = lg_outstanding u"
    "lg_committing v = lg_committing u" "\<not> sl_locked (slocks v (SL_inode ip))" for i
    using p by (simp_all add: v_def wakeup1_def upd_slock_def)
  have bv: "bview v = bview u" using bc_same(2) [OF vs(1-6)] .
  have ba: "baddr v = baddr u" by (simp add: baddr_def bv vs(10) fun_eq_iff)
  have fb: "file_byte v ip = file_byte u ip" by (simp add: file_byte_def ba bv fun_eq_iff)
  have uv: "fs_same f u v" unfolding v_def by (rule fs_same_trans [OF fs_same_simps(2) fs_same_simps(3)])
  have "mapped v ip (nblocks s ip)" using m(1) by (simp add: mapped_def ba bv vs(10,11))
  moreover have "nblocks v ip = nblocks s ip" by (simp add: nblocks_def vs(10) su(4))
  ultimately have "inode_ok ip v"
    unfolding inode_ok_def Let_def using ba m(2) vs(10,12,16) su(4,6) sd(9-11,14,15) by simp
  moreover have "idle p v" using u(1,5,6) txn_same [OF vs(1-9)] vs(11-15) su(5-7) sd(1) by (simp add: idle_def)
  ultimately have "file_ok p f ip v" using file_ok_same [OF s fs_same_trans [OF u(2) uv]] by blast
  then show ?thesis using iu uv fb by blast
qed

text \<open>The state in which \<open>fileread\<close> calls \<open>readi\<close>: the file positioned at \<open>x\<close>, its inode locked.\<close>

definition positioned :: "nat \<Rightarrow> nat \<Rightarrow> nat \<Rightarrow> u32 \<Rightarrow> 'z flst_scheme \<Rightarrow> 'z flst_scheme" where
  "positioned p f ip x s = upd_slock (SL_inode ip) (\<lambda>l. l\<lparr>sl_locked := True, sl_pid := p_pid (ptable s ! p)\<rparr>) (upd_file f (\<lambda>q. q\<lparr>f_off := x\<rparr>) s)"

lemma positioned_sel [simp]:
  "bufs (positioned p f ip x s) = bufs s" "disk (positioned p f ip x s) = disk s" "hw (positioned p f ip x s) = hw s"
  "icache (positioned p f ip x s) = icache s" "disksize (positioned p f ip x s) = disksize s" "mem (positioned p f ip x s) = mem s"
  "ptable (positioned p f ip x s) = ptable s" "lg_outstanding (positioned p f ip x s) = lg_outstanding s"
  "lg_committing (positioned p f ip x s) = lg_committing s" "sl_locked (slocks (positioned p f ip x s) (SL_inode ip))"
  "sl_pid (slocks (positioned p f ip x s) (SL_inode ip)) = p_pid (ptable s ! p)"
  by (simp_all add: positioned_def upd_slock_def upd_file_def)

lemma positioned_view:
  "bview (positioned p f ip x s) = bview s" "baddr (positioned p f ip x s) = baddr s" "mapped (positioned p f ip x s) = mapped s"
  "file_byte (positioned p f ip x s) = file_byte s" "txn p {} L (positioned p f ip x s) = txn p {} L s" "fs_same f s (positioned p f ip x s)"
proof -
  let ?t = "positioned p f ip x s"
  show v: "bview ?t = bview s" by (rule bc_same(2) [where p = p]) (simp_all add: positioned_def upd_slock_def upd_file_def)
  show b: "baddr ?t = baddr s" by (simp add: baddr_def v fun_eq_iff)
  show "mapped ?t = mapped s" "file_byte ?t = file_byte s" by (simp_all add: mapped_def file_byte_def v b fun_eq_iff)
  show "txn p {} L ?t = txn p {} L s" by (rule txn_same) (simp_all add: positioned_def upd_slock_def upd_file_def)
  show "fs_same f s ?t" unfolding positioned_def by (rule fs_same_trans [OF fs_same_simps(4) [where x = "\<lambda>_. x"] fs_same_simps(2)])
qed

lemma readFromSwapFile_eval:
  assumes "file_ok p f ip s" and "p_swapFile (ptable s ! p) = Some f"
  shows "readFromSwapFile p kb x PGSIZE s = andthen (readi to_mem ip kb x PGSIZE (positioned p f ip x s)) (\<lambda>(r, _) s.
      let s = (if 0 < r then upd_file f (\<lambda>q. q\<lparr>f_off := f_off q + of_int r\<rparr>) s else s) in andthen (iunlock (Some ip) s) (\<lambda>_ s. Ok r s))"
proof -
  define s1 where "s1 = upd_file f (\<lambda>q. q\<lparr>f_off := x\<rparr>) s"
  note fd = file_okD [OF file_ok_seek(1) [OF assms(1), of x, folded s1_def]]
  have p1: "f_off (ftable s1 ! f) = x" "f_readable (ftable s1 ! f) \<noteq> 0"
    using file_okD(5) [OF assms(1)] assms(1) by (simp_all add: s1_def upd_file_def file_ok_def)
  have il: "ilock (Some ip) s1 = Ok () (positioned p f ip x s)"
    using ilock_cached [OF fd(3,9,10,12)] by (simp add: positioned_def s1_def upd_file_def)
  have ft: "ftable (positioned p f ip x s) = ftable s1" by (simp add: positioned_def s1_def upd_slock_def)
  show ?thesis
    unfolding readFromSwapFile_def assms(2) option.case fileread_def s1_def [symmetric] Let_def [of "ftable s1 ! f"]
    using p1 fd(6,7) ft by (simp add: il)
qed

lemma read_positioned:
  assumes s: "swap_ok p f ip n s" and j: "j < n" and kb: "KERNBASE \<le> kb" "unat kb + 4096 < 2 ^ 32"
  defines "x \<equiv> of_nat j * PGSIZE :: u32"
  shows "succeeds (readi to_mem ip kb x PGSIZE (positioned p f ip x s)) (\<lambda>(r, _) t. r = 4096 \<and> txn p {} [] t \<and>
    same_files ((positioned p f ip x s)\<lparr>mem := kstore kb (swap_page s ip j) (mem s)\<rparr>) t)"
proof -
  let ?s = "positioned p f ip x s"
  have so: "file_ok p f ip s" and sz: "4096 * n \<le> unat (i_size (icache s ! ip))" using s by (simp_all add: swap_ok_def)
  note off = page_offset [OF j sz, folded x_def] and fd = file_okD [OF so]
  have jn: "4096 * j + 4096 \<le> 4096 * n" using j by simp
  have m: "min (unat (PGSIZE :: u32)) (unat (i_size (icache ?s ! ip)) - unat x) = 4096" using off sz jn by simp
  have pg: "map (file_byte ?s ip) [unat x..<unat x + 4096] = swap_page s ip j" unfolding off swap_page_def positioned_view(4) by simp
  have mp: "mapped ?s ip ((unat (i_size (icache ?s ! ip)) + 511) div BSIZE)" using fd(13) by (simp add: positioned_view(3) nblocks_def)
  have "unat (x + PGSIZE) = unat x + 4096"
    using off jn sz unsigned_less [of "i_size (icache s ! ip)", where 'a = nat] by (subst unat_plus_lt) simp_all
  then have g: "\<not> (i_size (icache ?s ! ip) < x \<or> x + PGSIZE < x)" using off sz jn by (simp add: word_less_nat_alt)
  have tx: "txn p {} [] ?s" using fd(2) by (simp add: positioned_view(5))
  have ty: "i_type (icache ?s ! ip) \<noteq> T_DEV" using fd(11) by simp
  show ?thesis
    using kmem_sink.readi_sink [OF tx _ ty mp m [symmetric], of kb] kb unfolding if_not_P [OF g]
    by (auto simp: pg Let_def elim!: succeeds_mono)
qed

text \<open>The end of \<open>fileread\<close>: the offset moves and the inode is unlocked.\<close>

lemma read_done:
  fixes d :: u32 and s t :: "'z flst_scheme"
  assumes s: "file_ok p f ip s" and tx: "txn p {} [] t" and sf: "same_files ((positioned p f ip x s)\<lparr>mem := m\<rparr>) t"
  defines "v \<equiv> upd_file f (\<lambda>q. q\<lparr>f_off := f_off q + d\<rparr>) t"
  shows "\<exists>w. iunlock (Some ip) v = Ok () w \<and> file_ok p f ip w \<and> fs_same f (s\<lparr>mem := m\<rparr>) w \<and> file_byte w ip = file_byte s ip"
proof -
  define u where "u = (positioned p f ip x s)\<lparr>mem := m\<rparr>"
  have lo: "log_only u t" using sf by (simp add: same_files_def u_def)
  note lf = log_only_frame [OF lo] and sd = same_filesD [OF sf [folded u_def]] and pv = positioned_view [where p = p and f = f and ip = ip and x = x and s = s]
  have su: "fs_same f (s\<lparr>mem := m\<rparr>) u"
  proof -
    have "strip f (r\<lparr>mem := m\<rparr>) = (strip f r)\<lparr>mem := m\<rparr>" for r :: "'z flst_scheme" by (simp add: strip_def)
    then show ?thesis using pv(6) by (simp add: fs_same_def u_def)
  qed
  have st: "fs_same f (s\<lparr>mem := m\<rparr>) t" using fs_same_trans [OF su op_only_same(1) [OF log_only_op_only [OF lo]]] .
  have sv: "fs_same f (s\<lparr>mem := m\<rparr>) v" unfolding v_def by (rule fs_same_trans [OF st fs_same_simps(4)])
  have vs: "bufs v = bufs t" "disk v = disk t" "hw v = hw t" "slocks v = slocks t" "ptable v = ptable t" "icache v = icache t"
    "disksize v = disksize t" "lg_outstanding v = lg_outstanding t" "lg_committing v = lg_committing t" by (simp_all add: v_def upd_file_def)
  have tv: "txn p {} [] v" using tx txn_same [of v t p "{}" "[]"] by (simp add: v_def upd_file_def)
  have bv: "bview v = bview t" using bc_ext(2) [OF vs(1,2,4,3,5)] .
  have ba: "baddr v = baddr t" by (simp add: baddr_def bv vs(6) fun_eq_iff)
  have pid: "p_pid (ptable t ! p) = p_pid (ptable s ! p)" using fs_same_proc(2) [OF st] file_okD(4) [OF s] by simp
  have slk: "slocks t (SL_inode ip) = slocks (positioned p f ip x s) (SL_inode ip)" using lf(9) by (simp add: u_def)
  obtain n0 bs0 where bo: "bio_only (u\<lparr>lg_block := bs0, lg_n := n0\<rparr>) t" using lo by (auto simp: log_only_def)
  have lg: "lg_outstanding v = 0" "\<not> lg_committing v"
    using bio_only_log(3,4) [OF bo] vs(8,9) file_okD(1) [OF s] by (simp_all add: u_def idle_def)
  have u2: "mapped u = mapped s" "baddr u = baddr s" "file_byte u = file_byte s" by (simp_all add: u_def pv)
  have "mapped v = mapped t" by (simp add: mapped_def ba bv vs(6,7) fun_eq_iff)
  then have mv: "mapped v ip (nblocks s ip)" using file_okD(13) [OF s] sd(4) u2(1) by simp
  have sm: "file_ok p f ip (s\<lparr>mem := m\<rparr>)" using s by (simp add: file_ok_mem)
  have fb: "file_byte v ip = file_byte s ip" using sd(3) u2(3) by (simp add: file_byte_def ba bv fun_eq_iff)
  obtain w where w: "iunlock (Some ip) v = Ok () w" "file_ok p f ip w" "fs_same f v w" "file_byte w ip = file_byte v ip"
    using unlock_file [OF sm tv sv] slk pid vs lg mv sd(2) ba u2(2) by (auto simp: nblocks_def)
  then show ?thesis using fs_same_trans [OF sv w(3)] fb by auto
qed

lemma readFromSwapFile_page:
  assumes s: "swap_ok p f ip n s" and j: "j < n" and kb: "KERNBASE \<le> kb" "unat kb + 4096 < 2 ^ 32"
  shows "succeeds (readFromSwapFile p kb (of_nat j * PGSIZE) PGSIZE s) (\<lambda>r t. r = 4096 \<and> swap_ok p f ip n t \<and>
    fs_same f (s\<lparr>mem := kstore kb (swap_page s ip j) (mem s)\<rparr>) t \<and> (\<forall>k < n. swap_page t ip k = swap_page s ip k))"
proof -
  define x where "x = (of_nat j * PGSIZE :: u32)"
  have so: "file_ok p f ip s" "p_swapFile (ptable s ! p) = Some f" using s by (simp_all add: swap_ok_def)
  show ?thesis unfolding x_def [symmetric] readFromSwapFile_eval [OF so] succeeds_andthen
  proof (rule succeeds_mono [OF read_positioned [OF s j kb, folded x_def]], clarify)
    fix a t
    assume t: "txn p {} [] t" "same_files ((positioned p f ip x s)\<lparr>mem := kstore kb (swap_page s ip j) (mem s)\<rparr>) t"
    obtain w where w: "iunlock (Some ip) (upd_file f (\<lambda>q. q\<lparr>f_off := f_off q + 4096\<rparr>) t) = Ok () w" "file_ok p f ip w"
      "fs_same f (s\<lparr>mem := kstore kb (swap_page s ip j) (mem s)\<rparr>) w" "file_byte w ip = file_byte s ip"
      using read_done [OF so(1) t, of 4096] by blast
    then have "swap_page w ip k = swap_page s ip k" for k by (simp add: swap_page_def)
    then show "succeeds (let s = (if 0 < (4096 :: int) then upd_file f (\<lambda>q. q\<lparr>f_off := f_off q + of_int 4096\<rparr>) t else t)
         in andthen (iunlock (Some ip) s) (\<lambda>_ s. Ok 4096 s))
      (\<lambda>r t. r = 4096 \<and> swap_ok p f ip n t \<and> fs_same f (s\<lparr>mem := kstore kb (swap_page s ip j) (mem s)\<rparr>) t \<and>
        (\<forall>k < n. swap_page t ip k = swap_page s ip k))"
      using w swap_ok_same [OF s w(2,3)] by simp
  qed
qed

section \<open>Storing and loading pages\<close>

text \<open>Stores of pages, each from its address to its slot, one after the other.\<close>

primrec store_all :: "('r \<Rightarrow> nat \<Rightarrow> 's \<Rightarrow> (int, 's) out) \<Rightarrow> ('r \<times> nat) list \<Rightarrow> 's \<Rightarrow> (unit, 's) out" where
  "store_all st [] s = Ok () s"
| "store_all st (w # ws) s = andthen (st (fst w) (snd w) s) (\<lambda>_. store_all st ws)"

text \<open>What a client of the swap file relies on: a store changes one slot, a load delivers one slot and changes none.\<close>

locale page_store =
  fixes ok :: "'s \<Rightarrow> bool" and slots :: nat and slot :: "'s \<Rightarrow> nat \<Rightarrow> 'v" and source :: "'r \<Rightarrow> 's \<Rightarrow> 'v option"
    and store :: "'r \<Rightarrow> nat \<Rightarrow> 's \<Rightarrow> (int, 's) out" and load :: "nat \<Rightarrow> 's \<Rightarrow> (int, 's) out" and delivered :: "'s \<Rightarrow> 'v"
  assumes store_slot: "ok s \<Longrightarrow> j < slots \<Longrightarrow> source r s = Some v \<Longrightarrow> succeeds (store r j s) (\<lambda>_ t. ok t \<and>
      (\<forall>r. source r t = source r s) \<and> (\<forall>k < slots. slot t k = (if k = j then v else slot s k)))"
    and load_slot: "ok s \<Longrightarrow> j < slots \<Longrightarrow> succeeds (load j s) (\<lambda>n t. n = 4096 \<and> ok t \<and> delivered t = slot s j \<and>
      (\<forall>k < slots. slot t k = slot s k))"
begin

lemma store_all_slots:
  assumes "ok s" and "\<forall>w \<in> set ws. snd w < slots \<and> source (fst w) s = Some (g (fst w))"
  shows "succeeds (store_all store ws s) (\<lambda>_ t. ok t \<and>
    (\<forall>k < slots. slot t k = fold (\<lambda>w v. if snd w = k then g (fst w) else v) ws (slot s k)))"
  using assms
proof (induction ws arbitrary: s)
  case (Cons w ws)
  have w: "snd w < slots" "source (fst w) s = Some (g (fst w))" using Cons.prems(2) by simp_all
  show ?case unfolding store_all.simps succeeds_andthen
  proof (rule succeeds_mono [OF store_slot [OF Cons.prems(1) w]], elim conjE)
    fix a t
    assume t: "ok t" "\<forall>r. source r t = source r s" "\<forall>k < slots. slot t k = (if k = snd w then g (fst w) else slot s k)"
    show "succeeds (store_all store ws t) (\<lambda>_ t. ok t \<and>
        (\<forall>k < slots. slot t k = fold (\<lambda>w v. if snd w = k then g (fst w) else v) (w # ws) (slot s k)))"
      by (rule succeeds_mono [OF Cons.IH [OF t(1)]]) (use Cons.prems(2) t(2,3) in auto)
  qed
qed simp

lemma stores_then_load:
  assumes "ok s" and "\<forall>w \<in> set ws. snd w < slots \<and> source (fst w) s = Some (g (fst w))" and "j < slots"
  shows "succeeds (andthen (store_all store ws s) (\<lambda>_. load j)) (\<lambda>n t. n = 4096 \<and> ok t \<and>
    delivered t = fold (\<lambda>w v. if snd w = j then g (fst w) else v) ws (slot s j) \<and>
    (\<forall>k < slots. slot t k = fold (\<lambda>w v. if snd w = k then g (fst w) else v) ws (slot s k)))"
  unfolding succeeds_andthen
  by (rule succeeds_mono [OF store_all_slots [OF assms(1,2)]], rule succeeds_mono [OF load_slot [OF _ assms(3)]]) (use assms(3) in auto)

end

lemma kstore_read:
  assumes "unat kb + length bs < 2 ^ 32"
  shows "map (\<lambda>i. kstore kb bs m (kb + of_nat i)) [0..<length bs] = bs"
proof (rule nth_equalityI)
  fix i assume "i < length (map (\<lambda>i. kstore kb bs m (kb + of_nat i)) [0..<length bs])"
  moreover from this have "unat (of_nat i :: addr) = i" using assms by (intro unat_of_nat_small) simp
  ultimately show "map (\<lambda>i. kstore kb bs m (kb + of_nat i)) [0..<length bs] ! i = bs ! i" by (simp add: kstore_def)
qed simp

text \<open>A kernel buffer of a page.\<close>

definition kernel_page :: "addr \<Rightarrow> bool" where
  "kernel_page kb \<longleftrightarrow> KERNBASE \<le> kb \<and> unat kb + 4096 < 2 ^ 32"

interpretation swap_slots: page_store "\<lambda>s. kernel_page kb \<and> swap_ok p f ip n s" n "\<lambda>s. swap_page s ip" "ureads 4096"
  "\<lambda>va j. writeToSwapFile p va (of_nat j * PGSIZE) PGSIZE" "\<lambda>j. readFromSwapFile p kb (of_nat j * PGSIZE) PGSIZE"
  "\<lambda>s. map (\<lambda>i. mem s (kb + of_nat i)) [0..<4096]" for kb p f ip n
proof
  fix s :: "'z flst_scheme" and j va bs
  assume s: "kernel_page kb \<and> swap_ok p f ip n s" "j < n" "ureads 4096 va s = Some bs"
  show "succeeds (writeToSwapFile p va (of_nat j * PGSIZE) PGSIZE s) (\<lambda>_ t. (kernel_page kb \<and> swap_ok p f ip n t) \<and>
      (\<forall>va. ureads 4096 va t = ureads 4096 va s) \<and> (\<forall>k < n. swap_page t ip k = (if k = j then bs else swap_page s ip k)))"
    by (rule succeeds_mono [OF writeToSwapFile_page [OF conjunct2 [OF s(1)] s(2,3)]])
      (use s(1) in \<open>auto dest: fs_same_sel(1,2) intro!: ureads_cong\<close>)
next
  fix s :: "'z flst_scheme" and j
  assume s: "kernel_page kb \<and> swap_ok p f ip n s" "j < n"
  have kb: "KERNBASE \<le> kb" "unat kb + 4096 < 2 ^ 32" using s(1) by (simp_all add: kernel_page_def)
  have "map (\<lambda>i. kstore kb (swap_page s ip j) m (kb + of_nat i)) [0..<4096] = swap_page s ip j" for m
    using kstore_read [of kb "swap_page s ip j"] kb(2) by (simp add: swap_page_def)
  then show "succeeds (readFromSwapFile p kb (of_nat j * PGSIZE) PGSIZE s) (\<lambda>r t. r = 4096 \<and> (kernel_page kb \<and> swap_ok p f ip n t) \<and>
      map (\<lambda>i. mem t (kb + of_nat i)) [0..<4096] = swap_page s ip j \<and> (\<forall>k < n. swap_page t ip k = swap_page s ip k))"
    using s(1) by (intro succeeds_mono [OF readFromSwapFile_page [OF conjunct2 [OF s(1)] s(2) kb]]) (auto dest!: fs_same_sel(2))
qed

text \<open>
  C3: the swap file of a process is an array of pages. After any sequence of \<open>writeToSwapFile\<close> calls (each running its
  transactions of 1536 bytes through the log), \<open>readFromSwapFile\<close> on slot \<open>j\<close> returns 4096 and leaves in the kernel
  buffer the page last written to \<open>j\<close>, or the page the file held before if none was; every other slot holds the page
  last written to it, and the file system is idle again with the same files.
\<close>

theorem swap_file_pages:
  assumes "swap_ok p f ip n s" and "kernel_page kb" and "j < n"
    and "\<forall>w \<in> set ws. snd w < n \<and> ureads 4096 (fst w) s = Some (page (fst w))"
  shows "succeeds (andthen (store_all (\<lambda>va k. writeToSwapFile p va (of_nat k * PGSIZE) PGSIZE) ws s)
      (\<lambda>_. readFromSwapFile p kb (of_nat j * PGSIZE) PGSIZE))
    (\<lambda>r t. r = 4096 \<and> swap_ok p f ip n t \<and>
      map (\<lambda>i. mem t (kb + of_nat i)) [0..<4096] = fold (\<lambda>w v. if snd w = j then page (fst w) else v) ws (swap_page s ip j) \<and>
      (\<forall>k < n. swap_page t ip k = fold (\<lambda>w v. if snd w = k then page (fst w) else v) ws (swap_page s ip k)))"
  using swap_slots.stores_then_load [of kb p f ip n s ws page j] assms by simp

text \<open>A process with a swap file of one page on blocks 100 to 107.\<close>

definition swap_inode :: inode where
  "swap_inode = zero_inode\<lparr>i_dev := 1, i_ref := 1, i_valid := True, i_type := 2, i_size := 4096,
     i_addrs := [100, 101, 102, 103, 104, 105, 106, 107, 0, 0, 0, 0, 0]\<rparr>"

definition swap_boot :: cst where
  "swap_boot = con_boot (\<lambda>_. replicate BSIZE 5) swap_inode"

definition swap_open :: flst where
  "swap_open = pst.extend (cst.extend swap_boot
     (pst.fields (\<lambda>_. \<lparr>pi_data = [], pi_nread = 0, pi_nwrite = 0, pi_readopen = False, pi_writeopen = False\<rparr>)))
     (flst.fields [\<lparr>f_type = FD_INODE, f_ref = 1, f_readable = 1, f_writable = 1, f_pipe = 0, f_ip = Some 0, f_off = 0\<rparr>])"

definition swap_ex :: flst where
  "swap_ex = swap_open\<lparr>lg_outstanding := 0, mem := (\<lambda>a. if a < KERNBASE + 4096 then 1 else 2),
     ptable := map (p_swapFile_update (\<lambda>_. Some 0)) (ptable swap_open)\<rparr>"

lemma cst_extend_sel:
  "bufs (cst.extend s x) = bufs s" "disk (cst.extend s x) = disk s" "hw (cst.extend s x) = hw s" "slocks (cst.extend s x) = slocks s"
  "ptable (cst.extend s x) = ptable s" "lg_block (cst.extend s x) = lg_block s" "lg_size (cst.extend s x) = lg_size s"
  "lg_n (cst.extend s x) = lg_n s" "icache (cst.extend s x) = icache s" "disksize (cst.extend s x) = disksize s"
  "lg_start (cst.extend s x) = lg_start s" "lg_dev (cst.extend s x) = lg_dev s" "lg_committing (cst.extend s x) = lg_committing s"
  by (simp_all add: cst.defs)

lemma pst_extend_sel:
  "bufs (pst.extend s x) = bufs s" "disk (pst.extend s x) = disk s" "hw (pst.extend s x) = hw s" "slocks (pst.extend s x) = slocks s"
  "ptable (pst.extend s x) = ptable s" "lg_block (pst.extend s x) = lg_block s" "lg_size (pst.extend s x) = lg_size s"
  "lg_n (pst.extend s x) = lg_n s" "icache (pst.extend s x) = icache s" "disksize (pst.extend s x) = disksize s"
  "lg_start (pst.extend s x) = lg_start s" "lg_dev (pst.extend s x) = lg_dev s" "lg_committing (pst.extend s x) = lg_committing s"
  "ftable (pst.extend s (flst.fields l)) = l"
  by (simp_all add: pst.defs flst.defs)

lemmas swap_open_sel = cst_extend_sel pst_extend_sel

lemma swap_ex_sel:
  "bufs swap_ex = bufs swap_boot" "disk swap_ex = disk swap_boot" "hw swap_ex = hw swap_boot" "slocks swap_ex = slocks swap_boot"
  "ptable swap_ex = map (p_swapFile_update (\<lambda>_. Some 0)) (ptable swap_boot)"
  "lg_block swap_ex = lg_block swap_boot" "lg_size swap_ex = lg_size swap_boot" "lg_n swap_ex = lg_n swap_boot"
  by (simp_all add: swap_ex_def) (simp_all only: swap_open_def swap_open_sel)

lemma swap_ex_simps [simp]:
  "icache swap_ex = icache swap_boot" "disksize swap_ex = disksize swap_boot" "lg_start swap_ex = lg_start swap_boot"
  "lg_dev swap_ex = lg_dev swap_boot" "lg_committing swap_ex = lg_committing swap_boot" "lg_outstanding swap_ex = 0"
  "mem swap_ex = (\<lambda>a. if a < KERNBASE + 4096 then 1 else 2)"
  "ftable swap_ex = [\<lparr>f_type = FD_INODE, f_ref = 1, f_readable = 1, f_writable = 1, f_pipe = 0, f_ip = Some 0, f_off = 0\<rparr>]"
  by (simp_all add: swap_ex_def) (simp_all only: swap_open_def swap_open_sel)

lemma fs_boot_log: "lg_start (fs_boot d) = 2" "lg_dev (fs_boot d) = 1" "lg_committing (fs_boot d) = lg_committing (log_boot d)"
  by (simp_all add: fs_boot_def lst.defs ist.defs)

lemma con_boot_log:
  "lg_start (con_boot d q) = lg_start (fs_boot d)" "lg_dev (con_boot d q) = lg_dev (fs_boot d)"
  "lg_committing (con_boot d q) = lg_committing (fs_boot d)"
  by (simp_all add: con_boot_def ist.defs cst.defs)

lemma swap_boot_sel [simp]:
  "icache swap_boot = swap_inode # replicate 49 zero_inode" "disksize swap_boot = 1000" "lg_start swap_boot = 2" "lg_dev swap_boot = 1"
  "\<not> lg_committing swap_boot"
  unfolding swap_boot_def con_boot_log fs_boot_log by (simp_all add: log_boot_def bst.defs lst.defs)

lemma binit_inode_lock:
  fixes s :: "'z bst_scheme"
  shows "slocks (binit s) (SL_inode k) = slocks s (SL_inode k)"
proof -
  have "slocks (foldl (\<lambda>s b. link_first b (initsleeplock (SL_buf b) ''buffer'' s)) s bs) (SL_inode k) = slocks s (SL_inode k)" for bs and s :: "'z bst_scheme"
    by (induction bs arbitrary: s) (simp_all add: link_first_def Let_def initsleeplock_def upd_slock_def upd_buf_def)
  then show ?thesis by (simp add: binit_def Let_def upd_buf_def)
qed

lemma swap_boot_unlocked: "\<not> sl_locked (slocks swap_boot (SL_inode 0))"
  by (simp add: swap_boot_def log_boot_sel(3) binit_inode_lock bio_boot_def km0_def kst.defs kmst.defs bst.defs)

lemma swap_ex_view: "bview swap_ex = (\<lambda>_. replicate BSIZE 5)"
proof -
  have "0 < length (ptable swap_boot)" using runs_pid [OF con_boot_txn] unfolding swap_boot_def .
  then show ?thesis
    using bc_same(2) [of swap_ex swap_boot 0] con_boot_view [of "\<lambda>_. replicate BSIZE 5" swap_inode, folded swap_boot_def]
    by (simp add: swap_ex_sel)
qed

lemma swap_ex_ok: "swap_ok 0 0 0 1 swap_ex"
proof -
  have c: "txn 0 {} [] swap_boot" unfolding swap_boot_def by (rule con_boot_txn)
  have p: "0 < length (ptable swap_boot)" using runs_pid [OF c] .
  have t: "txn 0 {} [] swap_ex" using c txn_same [of swap_ex swap_boot 0 "{}" "[]"] p by (simp add: swap_ex_sel)
  have i: "icache swap_ex ! 0 = swap_inode" by simp
  have b: "baddr swap_ex 0 k = 100 + of_nat k" if "k < 8" for k
  proof -
    have "k = 0 \<or> k = 1 \<or> k = 2 \<or> k = 3 \<or> k = 4 \<or> k = 5 \<or> k = 6 \<or> k = 7" using that by linarith
    then show ?thesis unfolding baddr_def i by (elim disjE) (simp_all add: swap_inode_def)
  qed
  have u: "unat (100 + of_nat k :: u32) = 100 + k" if "k < 8" for k
  proof -
    have "unat (of_nat (100 + k) :: u32) = 100 + k" by (rule unat_of_nat_small) (use that in simp)
    then show ?thesis by simp
  qed
  have z: "100 + of_nat k \<noteq> (0 :: u32)" if "k < 8" for k using u [OF that] by (intro notI) simp
  have "inj_on (baddr swap_ex 0) {..<8}" by (rule inj_onI) (metis b u add_left_cancel lessThan_iff)
  then have m: "mapped swap_ex 0 8"
    unfolding mapped_def i using b u z by (auto simp: swap_inode_def swap_ex_view word_less_nat_alt)
  have "inode_ok 0 swap_ex" unfolding inode_ok_def nblocks_def i
    using m b u by (simp add: swap_inode_def outside_log_def word_less_nat_alt swap_ex_sel swap_boot_unlocked)
  moreover have "idle 0 swap_ex" using t by (simp add: idle_def)
  moreover have "p_swapFile (ptable swap_ex ! 0) = Some 0" using p by (simp add: swap_ex_sel)
  moreover have "unat (i_size swap_inode) = 4096" by (simp add: swap_inode_def)
  ultimately show ?thesis unfolding swap_ok_def file_ok_def i by simp
qed

theorem swap_file_pages_witness:
  "succeeds (andthen (store_all (\<lambda>va k. writeToSwapFile 0 va (of_nat k * PGSIZE) PGSIZE) [(KERNBASE, 0), (KERNBASE + 4096, 0)] swap_ex)
      (\<lambda>_. readFromSwapFile 0 (KERNBASE + 8192) (of_nat 0 * PGSIZE) PGSIZE))
    (\<lambda>r t. r = 4096 \<and> map (\<lambda>i. mem t (KERNBASE + 8192 + of_nat i)) [0..<4096] = replicate 4096 2)"
proof -
  let ?pg = "\<lambda>va :: addr. map (\<lambda>i. mem swap_ex (va + of_nat i)) [0..<4096]"
  have r: "ureads 4096 KERNBASE swap_ex = Some (?pg KERNBASE)" "ureads 4096 (KERNBASE + 4096) swap_ex = Some (?pg (KERNBASE + 4096))"
    by (rule ureads_kernel; simp)+
  have w: "\<forall>w \<in> set [(KERNBASE, 0), (KERNBASE + 4096, 0)]. snd w < (1 :: nat) \<and> ureads 4096 (fst w) swap_ex = Some (?pg (fst w))"
    unfolding list.set ball_simps fst_conv snd_conv using r by (simp only: less_one simp_thms)
  have g: "?pg (KERNBASE + 4096) = replicate 4096 2"
  proof (rule nth_equalityI)
    fix i assume "i < length (?pg (KERNBASE + 4096))"
    then have i: "i < 4096" by simp
    then have "unat (of_nat i :: addr) = i" by (intro unat_of_nat_small) simp
    then have "unat (0x80001000 + of_nat i :: addr) = 0x80001000 + i" using i by (subst unat_plus_lt) simp_all
    then show "?pg (KERNBASE + 4096) ! i = replicate 4096 2 ! i" using i by (simp add: word_less_nat_alt)
  qed simp
  have k: "kernel_page (KERNBASE + 8192)" by (simp add: kernel_page_def)
  have f: "fold (\<lambda>w v. if snd w = 0 then ?pg (fst w) else v) [(KERNBASE, 0), (KERNBASE + 4096, 0 :: nat)] (swap_page swap_ex 0 0) = replicate 4096 2"
    using g by (simp del: swap_ex_simps(7))
  show ?thesis
    by (rule succeeds_mono [OF swap_file_pages [where page = ?pg, OF swap_ex_ok k _ w]]) (simp_all only: f less_one simp_thms)
qed

end
