(* ===== verification/Cowfork.thy ===== *)
theory Cowfork
  imports Cow
begin

text \<open>
  Sharing an address space at \<open>fork\<close> (\<open>copyonwriteuvm\<close> of vm.c): the child's page table, the parent's entries and the
  reference counts after the loop over the pages of the process.
\<close>

section \<open>Entries\<close>

definition cowed :: "u32 \<Rightarrow> u32" where
  "cowed e = (e OR PTE_COW) AND NOT PTE_W"

lemma bit_flags: "bit (0x400 :: u32) n \<longleftrightarrow> n = 10" "bit (4 :: u32) n \<longleftrightarrow> n = 2" "bit (2 :: u32) n \<longleftrightarrow> n = 1"
proof -
  have f: "bit (2 ^ k :: u32) n \<longleftrightarrow> n = k" if "k < 32" for k using that by (auto simp: bit_exp_iff)
  show "bit (0x400 :: u32) n \<longleftrightarrow> n = 10" "bit (4 :: u32) n \<longleftrightarrow> n = 2" "bit (2 :: u32) n \<longleftrightarrow> n = 1"
    using f [of 10] f [of 2] f [of 1] by simp_all
qed

lemmas bit_ops = bit_push_bit_iff bit_drop_bit_eq bit_or_iff bit_and_iff bit_not_iff bit_flags bit_1_iff comp_def

lemma cowed_parts:
  "PTE_ADDR (cowed e) = PTE_ADDR e" "e AND PTE_P \<noteq> 0 \<Longrightarrow> PTE_ADDR e OR PTE_FLAGS (cowed e) OR PTE_P = cowed e"
  "cowed e AND PTE_W = 0" "cowed e AND PTE_COW \<noteq> 0" "cowed e AND PTE_P = e AND PTE_P" "cowed e AND PTE_U = e AND PTE_U"
proof -
  show a: "PTE_ADDR (cowed e) = PTE_ADDR e"
    unfolding cowed_def macro_forms by (rule bit_word_eqI) (auto simp only: bit_ops, auto simp: bit_simps)
  show p: "cowed e AND PTE_P = e AND PTE_P"
    unfolding cowed_def by (rule bit_word_eqI) (auto simp only: bit_ops, auto)
  show "cowed e AND PTE_U = e AND PTE_U"
    unfolding cowed_def by (rule bit_word_eqI) (auto simp only: bit_ops, auto)
  show "cowed e AND PTE_W = 0"
    unfolding cowed_def by (rule bit_word_eqI) (auto simp only: bit_ops bit_0_eq bot_apply bot_bool_def)
  have "cowed e AND PTE_COW = PTE_COW"
    unfolding cowed_def by (rule bit_word_eqI) (auto simp only: bit_ops, auto)
  then show "cowed e AND PTE_COW \<noteq> 0" by simp
  show "PTE_ADDR e OR PTE_FLAGS (cowed e) OR PTE_P = cowed e" if "e AND PTE_P \<noteq> 0"
  proof -
    have "bit (e AND PTE_P) 0" using that by (simp add: and_one_eq mod2_eq_if split: if_splits)
    then have "bit (cowed e) 0" unfolding p [symmetric] by (simp add: bit_and_iff)
    then have "cowed e OR PTE_P = cowed e" by (intro bit_word_eqI) (auto simp: bit_or_iff bit_1_iff)
    moreover have "PTE_ADDR e OR PTE_FLAGS (cowed e) OR PTE_P = (PTE_ADDR (cowed e) OR PTE_FLAGS (cowed e)) OR PTE_P"
      by (simp only: a or.assoc)
    ultimately show ?thesis by (simp only: PTE_parts)
  qed
qed

text \<open>An address space is not affected by changes elsewhere.\<close>

lemma pt_ok_elsewhere:
  assumes "pt_ok g s" and "km_ok t" and "km_pool t = km_pool s" and "km_avail t \<inter> pt_pages (mem s) g = {}"
    and "\<And>b. PGROUNDDOWN b \<in> pt_pages (mem s) g \<Longrightarrow> mem t b = mem s b"
  shows "pt_ok g t" "ptes (mem t) g = ptes (mem s) g" "pt_pages (mem t) g = pt_pages (mem s) g"
    "i < 1024 \<Longrightarrow> has_table (mem t) g i = has_table (mem s) g i"
proof -
  have wf: "pt_wf (mem s) g" using assms(1) by (simp add: pt_ok_def)
  note sc = space_cong [OF wf, of "mem t", OF assms(5)]
  show "ptes (mem t) g = ptes (mem s) g" "pt_pages (mem t) g = pt_pages (mem s) g"
    "i < 1024 \<Longrightarrow> has_table (mem t) g i = has_table (mem s) g i" using sc by simp_all
  show "pt_ok g t" using assms(1-4) sc(2,3) by (auto simp: pt_ok_def)
qed

section \<open>The loop\<close>

definition user_page :: "memory \<Rightarrow> addr \<Rightarrow> nat \<Rightarrow> addr" where
  "user_page m pgdir j = P2V (PTE_ADDR (ptes m pgdir (of_nat (4096 * j))))"

text \<open>
  The parent's pages below \<open>sz\<close> are present, none is swapped out, and they are neither page tables nor free.
\<close>

definition forkable :: "'z kmst_scheme \<Rightarrow> addr \<Rightarrow> u32 \<Rightarrow> bool" where
  "forkable s pgdir sz \<longleftrightarrow> pt_ok pgdir s \<and> sz \<le> KERNBASE \<and>
     (\<forall>va < sz. ptes (mem s) pgdir va AND PTE_P \<noteq> 0 \<and> ptes (mem s) pgdir va AND PTE_PG = 0 \<and>
       P2V (PTE_ADDR (ptes (mem s) pgdir va)) \<in> km_pool s - km_avail s - pt_pages (mem s) pgdir)"

definition npages :: "u32 \<Rightarrow> nat" where
  "npages sz = (unat sz + 4095) div 4096"

text \<open>
  After \<open>k\<close> of the parent's pages are marked and \<open>j\<close> are mapped in the child; \<open>s\<close> is the state when the loop starts and
  \<open>U\<close> what was free before the child's directory was built.
\<close>

definition sharing :: "'z kmst_scheme \<Rightarrow> addr \<Rightarrow> addr \<Rightarrow> addr set \<Rightarrow> nat \<Rightarrow> nat \<Rightarrow> 'z kmst_scheme \<Rightarrow> bool" where
  "sharing s pgdir d U k j t \<longleftrightarrow> pt_ok pgdir t \<and> pt_ok d t \<and> kmem_only s t \<and>
     pt_pages (mem t) pgdir = pt_pages (mem s) pgdir \<and> km_avail t \<union> pt_pages (mem t) d = U \<and>
     (\<forall>i < 1024. has_table (mem t) d i \<longrightarrow> kvm_dir i \<or> i < 512) \<and>
     (\<forall>b. ptes (mem t) pgdir b = (if unat b < 4096 * k then cowed (ptes (mem s) pgdir b) else ptes (mem s) pgdir b)) \<and>
     (\<forall>b. ptes (mem t) d b = (if unat b < 4096 * j then cowed (ptes (mem s) pgdir b) else kvm_pte (kdata s) b)) \<and>
     (\<forall>b. PGROUNDDOWN b \<notin> U \<union> pt_pages (mem s) pgdir \<longrightarrow> mem t b = mem s b) \<and>
     (\<forall>x \<in> km_pool s - U. km_references_count t (frame (V2P x)) =
        km_references_count s (frame (V2P x)) + of_nat (card {j. j < k \<and> user_page (mem s) pgdir j = x}))"

lemma sharingD:
  assumes "sharing s pgdir d U k j t"
  shows "pt_ok pgdir t" "pt_ok d t" "kmem_only s t" "pt_pages (mem t) pgdir = pt_pages (mem s) pgdir"
    "km_avail t \<union> pt_pages (mem t) d = U" "\<forall>i < 1024. has_table (mem t) d i \<longrightarrow> kvm_dir i \<or> i < 512"
    "ptes (mem t) pgdir b = (if unat b < 4096 * k then cowed (ptes (mem s) pgdir b) else ptes (mem s) pgdir b)"
    "ptes (mem t) d b = (if unat b < 4096 * j then cowed (ptes (mem s) pgdir b) else kvm_pte (kdata s) b)"
    "PGROUNDDOWN b \<notin> U \<union> pt_pages (mem s) pgdir \<Longrightarrow> mem t b = mem s b"
    "x \<in> km_pool s - U \<Longrightarrow> km_references_count t (frame (V2P x)) =
        km_references_count s (frame (V2P x)) + of_nat (card {j. j < k \<and> user_page (mem s) pgdir j = x})"
    "km_pool t = km_pool s" "pt_pages (mem t) d \<subseteq> U" "km_avail t \<subseteq> U"
  using assms km_pool_only [of s t] unfolding sharing_def by (blast+)

lemma page_start:
  assumes "4096 * k < 2 ^ 31"
  shows "unat (of_nat (4096 * k) :: u32) = 4096 * k" "page_aligned (of_nat (4096 * k) :: u32)"
    "unat b < 4096 * Suc k \<longleftrightarrow> unat b < 4096 * k \<or> pgno b = pgno (of_nat (4096 * k))"
    "unat (b - of_nat (4096 * k)) < 4096 \<longleftrightarrow> pgno b = pgno (of_nat (4096 * k))" "\<not> unat b < 4096 * k \<or> pgno b \<noteq> pgno (of_nat (4096 * k))"
proof -
  show u: "unat (of_nat (4096 * k) :: u32) = 4096 * k" using assms by (intro unat_of_nat_small) simp
  show al: "page_aligned (of_nat (4096 * k) :: u32)" unfolding page_aligned_iff u by simp
  have n: "unat (pgno x) = unat x div 4096" for x :: u32 by (rule unat_pgno)
  show "unat (b - of_nat (4096 * k)) < 4096 \<longleftrightarrow> pgno b = pgno (of_nat (4096 * k))" using pgno_near [OF al, of b] by simp
  have "pgno b = pgno (of_nat (4096 * k)) \<longleftrightarrow> unat b div 4096 = k" unfolding word_unat_eq_iff n u by simp
  then show "unat b < 4096 * Suc k \<longleftrightarrow> unat b < 4096 * k \<or> pgno b = pgno (of_nat (4096 * k))"
    "\<not> unat b < 4096 * k \<or> pgno b \<noteq> pgno (of_nat (4096 * k))" by auto
qed

lemma sharing_enough:
  assumes "km_avail t \<union> pt_pages (mem t) d = U" and "\<forall>i < 1024. has_table (mem t) d i \<longrightarrow> kvm_dir i \<or> i < 512" and "577 < card U"
  shows "km_avail t \<noteq> {}"
proof
  let ?D = "{i. kvm_dir i} \<union> {i. i < (512 :: u32)}"
  assume "km_avail t = {}"
  then have "U = pt_pages (mem t) d" using assms(1) by simp
  moreover have "pt_pages (mem t) d \<subseteq> insert d (table (mem t) d ` ?D)"
    using assms(2) by (auto simp: pt_pages_def)
  then have "card (pt_pages (mem t) d) \<le> card (insert d (table (mem t) d ` ?D))"
    by (intro card_mono) (simp_all add: finite_kvm_dir)
  moreover have "card (insert d (table (mem t) d ` ?D)) \<le> Suc (card ?D)"
    using card_image_le [of ?D "table (mem t) d"] by (simp add: card_insert_if finite_kvm_dir)
  moreover have "{i. i < (512 :: u32)} \<subseteq> of_nat ` {..<512}"
  proof
    fix i :: u32
    assume "i \<in> {i. i < 512}"
    then have "unat i \<in> {..<512}" by (simp add: word_less_nat_alt)
    then show "i \<in> of_nat ` {..<512}" using imageI [of "unat i" _ "of_nat :: nat \<Rightarrow> u32"] by simp
  qed
  then have "card {i. i < (512 :: u32)} \<le> 512"
    using card_mono [of "of_nat ` {..<512}" "{i. i < (512 :: u32)}"] card_image_le [of "{..<512 :: nat}" "of_nat :: nat \<Rightarrow> u32"] by simp
  then have "card ?D \<le> 576" using card_kvm_dir card_Un_le [of "{i. kvm_dir i}" "{i. i < (512 :: u32)}"] by linarith
  ultimately show False using assms(3) by simp
qed

lemma ptes_page: "pgno a = pgno b \<Longrightarrow> ptes m g a = ptes m g b"
  by (simp add: pgno_fields ptes_def)

lemma PDX_low: "unat a < 2 ^ 31 \<Longrightarrow> PDX a < 512"
proof -
  assume a: "unat a < 2 ^ 31"
  have "unat (PDX a) = unat a div 2 ^ 22 mod 2 ^ 10" by (simp add: macro_forms take_bit_eq_mod unat_mod unat_div drop_bit_eq_div)
  also have "\<dots> \<le> unat a div 2 ^ 22" by simp
  finally show ?thesis using a by (simp add: word_less_nat_alt)
qed

lemma kvm_pte_low: "unat b < 2 ^ 31 \<Longrightarrow> kvm_pte dat b = 0"
  by (simp add: kvm_pte_def word_le_nat_alt)

lemma count_Suc:
  "card {j. j < Suc k \<and> f j = x} = card {j. j < k \<and> f j = x} + (if f k = x then 1 else 0)"
proof -
  have "{j. j < Suc k \<and> f j = x} = (if f k = x then insert k {j. j < k \<and> f j = x} else {j. j < k \<and> f j = x})"
    by (auto simp: less_Suc_eq)
  then show ?thesis by simp
qed

lemma upd_pte_ld: "ld32 (mem (upd_pte a f s)) a = f (ld32 (mem s) a)"
  by (simp add: upd_pte_def ld32_st32_same)

text \<open>Marking a page in the parent and counting the new reference.\<close>

lemma mark_page:
  fixes s t :: "'z kmst_scheme"
  assumes sh: "sharing s pgdir d U k j t" and k: "4096 * k < 2 ^ 31" and dis: "U \<inter> pt_pages (mem s) pgdir = {}"
    and e: "e = ptes (mem s) pgdir (of_nat (4096 * k))" "e AND PTE_P \<noteq> 0" "P2V (PTE_ADDR e) \<in> km_pool s - U"
  defines "slot \<equiv> pte_slot (mem t) pgdir (of_nat (4096 * k))"
  shows "slot \<noteq> 0" "ld32 (mem t) slot = e"
    "\<exists>u. inc_counter (PTE_ADDR e) (upd_pte slot cowed t) = Ok () u \<and> sharing s pgdir d U (Suc k) j u"
proof -
  define i where "i = (of_nat (4096 * k) :: u32)"
  note ps = page_start [OF k, folded i_def] and t = sharingD [OF sh]
  define x where "x = P2V (PTE_ADDR e)"
  have x: "x \<in> km_pool s" "x \<notin> U" "V2P x = PTE_ADDR e" "user_page (mem s) pgdir k = x"
    using e by (auto simp: x_def user_page_def)
  have te: "ptes (mem t) pgdir i = e" using t(7) [of i] ps(1) e(1) by (simp add: i_def)
  then have nz: "ptes (mem t) pgdir i \<noteq> 0" using e(2) by auto
  show sl: "slot \<noteq> 0" unfolding slot_def i_def [symmetric] by (rule ptes_nonzero_slot [OF t(1) nz])
  then have h: "has_table (mem t) pgdir (PDX i)" using pte_slot_zero [OF t(1)] by (simp add: slot_def i_def)
  show ld: "ld32 (mem t) slot = e" using ptes_slot [OF h] te by (simp add: slot_def i_def)
  define t1 where "t1 = upd_pte slot cowed t"
  note sp = upd_pte_spec [OF t(1) h, where f = cowed, folded slot_def [folded i_def] t1_def]
  have t1: "pt_ok pgdir t1" "kmem_only t t1" "km_ok t1" "km_pool t1 = km_pool s"
    using sp(1) t(11) km_pool_only [of t t1] by (simp_all add: grows_def pt_ok_def)
  have tab: "table (mem t) pgdir (PDX i) \<in> pt_pages (mem s) pgdir" using table_in_pages [OF fields_less(1) h] t(4) by simp
  have out: "mem t1 b = mem t b" if "PGROUNDDOWN b \<notin> pt_pages (mem s) pgdir" for b
    by (rule sp(6)) (use that tab in metis)
  have a: "km_avail t1 \<inter> pt_pages (mem t) d = {}" using t(2) sp(4) by (auto simp: pt_ok_def)
  have "mem t1 b = mem t b" if "PGROUNDDOWN b \<in> pt_pages (mem t) d" for b using that out t(12) dis by blast
  note d1 = pt_ok_elsewhere [OF t(2) t1(3) km_pool_only [OF t1(2)] a this]
  define u where "u = set_ref (V2P x) (km_references_count t1 (frame (V2P x)) + 1) t1"
  have xp: "x \<in> km_pool t1 - km_avail t1" using x(1,2) t(13) sp(4) t1(4) by auto
  note u = pt_ok_set_ref [OF t1(1) xp] pt_ok_set_ref [OF d1(1) xp] set_ref_ok(2) [OF t1(3) xp]
  have "frame (V2P x) < NFRAMES" "kmem_ready t1" using x(1) pa.pool_page [of x s] V2P_page(2) t1(3) by (auto simp: km_ok_def)
  then have inc: "inc_counter (PTE_ADDR e) t1 = Ok () u" unfolding x(3) [symmetric] u_def by (intro counter_eval(3))
  have "kmem_only t1 u" unfolding u_def by (rule kmem_onlyI) simp_all
  then have only: "kmem_only s u" using t(3) t1(2) kmem_only_trans by blast
  have "ptes (mem u) pgdir b = (if unat b < 4096 * Suc k then cowed (ptes (mem s) pgdir b) else ptes (mem s) pgdir b)" for b
    using fun_cong [OF sp(2), of b] ps(3) [of b] t(7) [of b] te ptes_page [of b i "mem s" pgdir] e(1) by (simp add: u_def i_def)
  moreover have "km_references_count u (frame (V2P y)) =
      km_references_count s (frame (V2P y)) + of_nat (card {j. j < Suc k \<and> user_page (mem s) pgdir j = y})"
    if y: "y \<in> km_pool s - U" for y
  proof -
    have "frame (V2P y) = frame (V2P x) \<longleftrightarrow> y = x" using y x(1) frame_V2P_inj [of s y x] by (simp add: km_pool_def)
    then show ?thesis using t(10) [OF y] sp(7) x(4) unfolding count_Suc by (auto simp: u_def)
  qed
  moreover have "mem u b = mem s b" if "PGROUNDDOWN b \<notin> U \<union> pt_pages (mem s) pgdir" for b
    using that out t(9) [OF that] by (simp add: u_def)
  ultimately have "sharing s pgdir d U (Suc k) j u"
    using u only sp(3,4) t(4-6,8) d1(2-4) unfolding sharing_def u_def by (intro conjI allI impI ballI) simp_all
  then show "\<exists>u. inc_counter (PTE_ADDR e) (upd_pte slot cowed t) = Ok () u \<and> sharing s pgdir d U (Suc k) j u"
    using inc t1_def by blast
qed

text \<open>Mapping it in the child.\<close>

lemma map_shared:
  fixes s t :: "'z kmst_scheme"
  assumes sh: "sharing s pgdir d U j k t" and k: "4096 * k < 2 ^ 31" and U: "577 < card U" "U \<inter> pt_pages (mem s) pgdir = {}"
    and e: "e = ptes (mem s) pgdir (of_nat (4096 * k))" "e AND PTE_P \<noteq> 0"
  shows "succeeds (mappages d (of_nat (4096 * k)) PGSIZE (PTE_ADDR e) (PTE_FLAGS (cowed e)) t)
    (\<lambda>r u. r = 0 \<and> sharing s pgdir d U j (Suc k) u)"
proof -
  define i where "i = (of_nat (4096 * k) :: u32)"
  note ps = page_start [OF k, folded i_def] and t = sharingD [OF sh]
  have i31: "unat i < 2 ^ 31" using ps(1) k by simp
  have np: "ptes (mem t) d b AND PTE_P = 0" if "unat (b - i) < unat PGSIZE" for b
  proof -
    have "ptes (mem t) d b = ptes (mem t) d i" using that ps(4) ptes_page [of b i] by simp
    then show ?thesis using t(8) [of i] ps(1) kvm_pte_low [OF i31] by simp
  qed
  have m: "succeeds (mappages d i PGSIZE (PTE_ADDR e) (PTE_FLAGS (cowed e)) t)
      (maps d i (unat PGSIZE) (PTE_ADDR e) (PTE_FLAGS (cowed e)) t)"
    by (rule mappages_spec [OF t(2) ps(2)]) (use np i31 in simp_all)
  have "r = 0 \<and> sharing s pgdir d U j (Suc k) u" if mp: "maps d i 4096 (PTE_ADDR e) (PTE_FLAGS (cowed e)) t r u" for r u
  proof -
    have g: "grows d t u" using mp by (simp add: maps_def)
    then have u: "pt_ok d u" "kmem_only t u" "km_ok u" "km_avail u \<union> pt_pages (mem u) d = U"
      using t(5) by (simp_all add: grows_def pt_ok_def)
    have far: "mem u b = mem t b" if "PGROUNDDOWN b \<notin> U" for b using that g u(4) by (auto simp: grows_def)
    have a: "km_avail u \<inter> pt_pages (mem t) pgdir = {}" using u(4) t(4) U(2) by auto
    have "mem u b = mem t b" if "PGROUNDDOWN b \<in> pt_pages (mem t) pgdir" for b using that far t(4) U(2) by blast
    note p = pt_ok_elsewhere [OF t(1) u(3) km_pool_only [OF u(2)] a this]
    have tabs: "kvm_dir i' \<or> i' < 512" if i: "i' < 1024" "has_table (mem u) d i'" for i'
    proof -
      have "has_table (mem t) d i' \<or> (\<exists>b. unat (b - i) < 4096 \<and> i' = PDX b)" using mp i by (auto simp: maps_def)
      then show ?thesis using t(6) i(1) ps(4) pgno_fields PDX_low [OF i31] by auto
    qed
    have r: "r = 0" using mp sharing_enough [OF u(4) _ U(1)] tabs by (auto simp: maps_def split: if_splits)
    moreover have "ptes (mem u) d b = (if unat b < 4096 * Suc k then cowed (ptes (mem s) pgdir b) else kvm_pte (kdata s) b)" for b
    proof (cases "pgno b = pgno i")
      case True
      then have n: "unat (b - i) < 4096" using ps(4) by simp
      then have "ptes (mem u) d b = PTE_ADDR e OR PTE_FLAGS (cowed e) OR PTE_P"
        using mp r off_first_page(2) [OF n] by (auto simp: maps_def)
      then show ?thesis using True ps(3) [of b] ptes_page [OF True, of "mem s" pgdir] cowed_parts(2) [OF e(2)] e(1) by (simp add: i_def)
    next
      case False
      then have "4096 \<le> unat (b - i)" using ps(4) [of b] by simp
      then have "ptes (mem u) d b = ptes (mem t) d b" using mp by (auto simp: maps_def)
      then show ?thesis using False ps(3) [of b] t(8) [of b] by simp
    qed
    moreover have "km_references_count u (frame (V2P y)) = km_references_count t (frame (V2P y))" if "y \<in> km_pool s - U" for y
    proof -
      have "y \<in> km_pool t - km_avail t" using that t(11,13) by auto
      then show ?thesis using g by (simp add: grows_def)
    qed
    moreover have "kmem_only s u" using t(3) u(2) kmem_only_trans by blast
    ultimately show ?thesis
      using p(1-3) u(1,4) tabs far t(4,7,9,10) unfolding sharing_def by (intro conjI allI impI ballI) simp_all
  qed
  then show ?thesis unfolding i_def [symmetric] by (intro succeeds_mono [OF m]) simp
qed

lemma cow_page_shares:
  fixes s t :: "'z kmst_scheme"
  assumes sh: "sharing s pgdir d U k k t" and k: "4096 * k < 2 ^ 31" and U: "577 < card U" "U \<inter> pt_pages (mem s) pgdir = {}"
    and e: "e = ptes (mem s) pgdir (of_nat (4096 * k))" "e AND PTE_P \<noteq> 0" "e AND PTE_PG = 0" "P2V (PTE_ADDR e) \<in> km_pool s - U"
  shows "succeeds (cow_page pgdir d p (of_nat (4096 * k)) t) (\<lambda>_. sharing s pgdir d U (Suc k) (Suc k))"
proof -
  define slot where "slot = pte_slot (mem t) pgdir (of_nat (4096 * k))"
  note mk = mark_page [OF sh k U(2) e(1,2,4), folded slot_def]
  obtain u where u: "inc_counter (PTE_ADDR e) (upd_pte slot cowed t) = Ok () u" "sharing s pgdir d U (Suc k) k u"
    using mk(3) by blast
  have c: "(\<lambda>e. (e OR PTE_COW) AND NOT PTE_W) = cowed" by (simp add: cowed_def fun_eq_iff)
  have run: "cow_page pgdir d p (of_nat (4096 * k)) t =
      andthen (mappages d (of_nat (4096 * k)) PGSIZE (PTE_ADDR e) (PTE_FLAGS (cowed e)) u) (\<lambda>r s.
       if r < 0 then Panic ''copyonwriteuvm: should not happen'' else Ok () s)"
    unfolding cow_page_def walk_lookup c slot_def [symmetric]
    using mk(1) e(2,3) u(1) by (simp add: mk(2) Let_def upd_pte_ld cowed_parts(1) cong: if_cong)
  show ?thesis unfolding run succeeds_andthen
    by (rule succeeds_mono [OF map_shared [OF u(2) k U e(1,2)]]) simp
qed

section \<open>Correctness\<close>

lemma pt_ok_lcr3: "pt_ok g (s\<lparr>hw := lcr3 v (hw s)\<rparr>) = pt_ok g s"
proof -
  have "free lk (lcr3 v h) = free lk h" for lk h
    by (simp add: free_def lcr3_def cpu_ok_def depth_def this_cpu_def readeflags_def)
  then have "kmem_ready (s\<lparr>hw := lcr3 v (hw s)\<rparr>) = kmem_ready s" "kmem_inv (s\<lparr>hw := lcr3 v (hw s)\<rparr>) = kmem_inv s"
    by (simp_all add: kmem_ready_def kmem_inv_def kpage_def fun_eq_iff)
  then show ?thesis by (simp add: pt_ok_def km_ok_def km_avail_def km_pool_def kpage_def)
qed

lemma npages_below: "k < npages sz \<Longrightarrow> 4096 * k < unat sz"
  by (auto simp: npages_def less_eq_div_iff_mult_less_eq Suc_le_eq [symmetric])

text \<open>The state in which the loop starts: the child's directory is fresh.\<close>

definition child_dir :: "'z kmst_scheme \<Rightarrow> addr \<Rightarrow> 'z kmst_scheme \<Rightarrow> bool" where
  "child_dir s d t \<longleftrightarrow> d \<in> km_avail s \<and> pt_ok d t \<and> ptes (mem t) d = kvm_pte (kdata s) \<and>
    (\<forall>i < 1024. has_table (mem t) d i \<longrightarrow> kvm_dir i) \<and>
    kmem_only s t \<and> km_avail t = km_avail s - pt_pages (mem t) d \<and> pt_pages (mem t) d \<subseteq> km_avail s \<and>
    (\<forall>b. PGROUNDDOWN b \<notin> pt_pages (mem t) d \<longrightarrow> mem t b = mem s b) \<and>
    (\<forall>x. x \<in> km_pool s - km_avail s \<longrightarrow>
      km_references_count t (frame (V2P x)) = km_references_count s (frame (V2P x)))"

lemma sharing_start:
  assumes f: "pt_ok pgdir s" and d: "child_dir s d t"
  shows "sharing t pgdir d (km_avail s) 0 0 t" "ptes (mem t) pgdir = ptes (mem s) pgdir"
    "pt_pages (mem t) pgdir = pt_pages (mem s) pgdir" "km_pool t = km_pool s"
proof -
  have only: "kmem_only s t" and av: "km_avail s \<inter> pt_pages (mem s) pgdir = {}" "km_ok t"
    using f d by (auto simp: pt_ok_def child_dir_def)
  show "km_pool t = km_pool s" by (rule km_pool_only [OF only])
  have "km_avail t \<inter> pt_pages (mem s) pgdir = {}" using av(1) d by (auto simp: child_dir_def)
  moreover have "mem t b = mem s b" if "PGROUNDDOWN b \<in> pt_pages (mem s) pgdir" for b
    using that d av(1) unfolding child_dir_def by blast
  ultimately have p: "pt_ok pgdir t" "ptes (mem t) pgdir = ptes (mem s) pgdir" "pt_pages (mem t) pgdir = pt_pages (mem s) pgdir"
    using pt_ok_elsewhere [OF f av(2) km_pool_only [OF only]] by blast+
  then show "ptes (mem t) pgdir = ptes (mem s) pgdir" "pt_pages (mem t) pgdir = pt_pages (mem s) pgdir" by simp_all
  show "sharing t pgdir d (km_avail s) 0 0 t"
    using p(1) d kmem_onlyD(5) [OF only] by (auto simp: sharing_def child_dir_def)
qed

lemma cow_pages_share:
  assumes f: "forkable s pgdir sz" and U: "577 < card (km_avail s)" and d: "child_dir s d t"
  shows "succeeds (foreach (cow_page pgdir d p) (page_starts sz) t) (\<lambda>_. sharing t pgdir d (km_avail s) (npages sz) (npages sz))"
proof -
  have pt: "pt_ok pgdir s" "sz \<le> KERNBASE" and dis: "km_avail s \<inter> pt_pages (mem s) pgdir = {}"
    using f by (auto simp: forkable_def pt_ok_def)
  note s0 = sharing_start [OF pt(1) d]
  have n: "npages sz = length (page_starts sz)" by (simp add: page_starts_def npages_def)
  show ?thesis unfolding n
  proof (rule foreach_run [where P = "\<lambda>k. sharing t pgdir d (km_avail s) k k"])
    fix k u
    assume k: "k < length (page_starts sz)" and sh: "sharing t pgdir d (km_avail s) k k u"
    then have ks: "4096 * k < unat sz" "page_starts sz ! k = of_nat (4096 * k)"
      using npages_below [of k sz] by (simp_all add: page_starts_def npages_def)
    have k31: "4096 * k < 2 ^ 31" using ks(1) pt(2) by (simp add: word_le_nat_alt)
    have "of_nat (4096 * k) < sz" unfolding word_less_nat_alt page_start(1) [OF k31] by (rule ks(1))
    then have e: "ptes (mem t) pgdir (of_nat (4096 * k)) AND PTE_P \<noteq> 0" "ptes (mem t) pgdir (of_nat (4096 * k)) AND PTE_PG = 0"
      "P2V (PTE_ADDR (ptes (mem t) pgdir (of_nat (4096 * k)))) \<in> km_pool t - km_avail s"
      using f unfolding s0(2,4) forkable_def by blast+
    show "succeeds (cow_page pgdir d p (page_starts sz ! k) u) (\<lambda>_. sharing t pgdir d (km_avail s) (Suc k) (Suc k))"
      unfolding ks(2) using dis s0(3) by (intro cow_page_shares [OF sh k31 U _ refl e]) simp
  qed (rule s0(1))
qed

text \<open>
  C6: \<open>fork\<close> shares the parent's memory with the child page by page. After \<open>copyonwriteuvm\<close> on a process all of whose pages are
  in memory, parent and child have the same entry for every page of the process: the old one with the copy-on-write mark
  and without write permission, so that the first write of either ends in \<open>handle_cow\<close>. The child sees nothing else below KERNBASE, the
  kernel part of its directory is that of \<open>setupkvm\<close>, the parent's other entries are unchanged, every user page keeps its
  content and is counted once more per mapping, and the child's page tables are made of pages that were free.
\<close>

theorem copyonwriteuvm_shares:
  assumes "runs (hw s) p" and "forkable s pgdir sz" and "page_aligned (kdata s)" and "0x80100000 < kdata s"
    and "kdata s < 0x8E000000" and "577 < card (km_avail s)"
  shows "succeeds (copyonwriteuvm pgdir sz s) (\<lambda>d t. pt_ok pgdir t \<and> pt_ok d t \<and> pt_pages (mem t) d \<subseteq> km_avail s \<and>
    (\<forall>va. if unat va < 4096 * npages sz
       then ptes (mem t) pgdir va = cowed (ptes (mem s) pgdir va) \<and> ptes (mem t) d va = cowed (ptes (mem s) pgdir va) \<and>
         ptes (mem t) d va AND PTE_W = 0 \<and> ptes (mem t) d va AND PTE_COW \<noteq> 0
       else ptes (mem t) pgdir va = ptes (mem s) pgdir va \<and> ptes (mem t) d va = kvm_pte (kdata s) va) \<and>
    (\<forall>b. PGROUNDDOWN b \<notin> km_avail s \<union> pt_pages (mem s) pgdir \<longrightarrow> mem t b = mem s b) \<and>
    (\<forall>x \<in> km_pool s - km_avail s. km_references_count t (frame (V2P x)) =
       km_references_count s (frame (V2P x)) + of_nat (card {j. j < npages sz \<and> user_page (mem s) pgdir j = x})))"
    (is "succeeds _ ?Q")
proof -
  have f: "pt_ok pgdir s" "km_ok s" using assms(2) by (auto simp: forkable_def pt_ok_def)
  have my: "kmyproc s = Ok (Some p) s" using assms(1) by (simp add: lock_simps runs_def)
  have post: "?Q d u" if d: "child_dir s d t" and sh: "sharing t pgdir d (km_avail s) (npages sz) (npages sz) u" for d t u
  proof -
    note s0 = sharing_start [OF f(1) d]
    note u = sharingD [OF sh, unfolded s0(2-4)]
    have kd: "kdata t = kdata s" using d kmem_onlyD(5) by (auto simp: child_dir_def)
    have up: "user_page (mem t) pgdir j = user_page (mem s) pgdir j" for j by (simp add: user_page_def s0(2))
    have "mem u b = mem s b" if b: "PGROUNDDOWN b \<notin> km_avail s \<union> pt_pages (mem s) pgdir" for b
      using u(9) [OF b] d b unfolding child_dir_def by (metis UnCI subsetD)
    moreover have "km_references_count u (frame (V2P x)) = km_references_count s (frame (V2P x)) +
        of_nat (card {j. j < npages sz \<and> user_page (mem s) pgdir j = x})" if "x \<in> km_pool s - km_avail s" for x
      using u(10) [OF that] d that unfolding up child_dir_def by simp
    moreover have "pt_pages (mem u) d \<subseteq> km_avail s" by (rule u(12))
    ultimately show ?thesis
      using u(1,2) u(7,8) [unfolded kd] cowed_parts(3,4) by (intro conjI allI ballI impI) simp_all
  qed
  have loop: "succeeds (andthen (foreach (cow_page pgdir d (Some p)) (page_starts sz) t) (\<lambda>_ s. andthen (klcr3 (Some p) s) (\<lambda>_ s. Ok d s))) ?Q"
    if "child_dir s d t" for d t
    unfolding succeeds_andthen [of "foreach (cow_page pgdir d (Some p)) (page_starts sz) t"]
    by (rule succeeds_mono [OF cow_pages_share [OF assms(2,6) that]]) (use post [OF that] in \<open>simp add: klcr3_def pt_ok_lcr3 cowed_parts(3,4)\<close>)
  have card: "65 < card (km_avail s)" using assms(6) by simp
  have nz: "d \<noteq> 0" if "child_dir s d t" for d t
    using that pa.avail_pool [OF f(2)] pa.pool_page [of d s] by (auto simp: child_dir_def)
  show ?thesis
    unfolding copyonwriteuvm_def my andthen.simps succeeds_andthen [of "setupkvm s"]
    by (rule succeeds_mono [OF setupkvm_spec [OF f(2) assms(3-5) card, folded child_dir_def]]) (use loop nz in simp)
qed

text \<open>An example: a process of one page, at 0x80302000, with the page tables at 0x80300000 and 0x80301000, after boot.\<close>

definition fork_ex :: kmst where
  "fork_ex = km_boot\<lparr>mem := (\<lambda>a. if a < 0x80303000 then vm_mem 7 a else mem km_boot a)\<rparr>"

lemma in_page_bounds:
  assumes "PGROUNDDOWN b = x"
  shows "unat x \<le> unat b" "unat b < unat x + 4096"
  using unat_PGROUNDDOWN [of b] unfolding assms by linarith+

lemma fork_ex_ok:
  "km_ok fork_ex" "km_avail fork_ex = km_avail km_boot" "km_pool fork_ex = km_pool km_boot"
  "pt_pages (mem fork_ex) 0x80300000 = {0x80300000, 0x80301000}" "pt_ok 0x80300000 fork_ex"
  "ptes (mem fork_ex) 0x80300000 0x123 = 0x302007" "0x80302000 \<in> km_pool fork_ex - km_avail fork_ex"
proof -
  have m: "mem fork_ex = (\<lambda>a. if a < 0x80303000 then vm_mem 7 a else mem km_boot a)" by (simp add: fork_ex_def)
  have "mem fork_ex b = mem km_boot b" if "PGROUNDDOWN b \<in> km_avail km_boot" for b
    using that in_page_bounds [of b] unfolding km_boot_ok(6) m by (auto simp: word_le_nat_alt word_less_nat_alt)
  note k = km_ok_mem_cong [OF km_boot_ok(1), of "mem fork_ex", OF this]
  have f: "fork_ex = km_boot\<lparr>mem := mem fork_ex\<rparr>" by (simp add: fork_ex_def)
  show ok: "km_ok fork_ex" and av: "km_avail fork_ex = km_avail km_boot" and po: "km_pool fork_ex = km_pool km_boot"
    using k by (subst f, simp)+
  have v: "mem (vm_ex 7 1) = vm_mem 7" by (simp add: vm_ex_def)
  have wf: "pt_wf (vm_mem 7) 0x80300000" and pp: "pt_pages (vm_mem 7) 0x80300000 = {0x80300000, 0x80301000}"
    using vm_ex_ok(1,3) [of 7 1] unfolding v pt_ok_def by simp_all
  have "mem fork_ex b = vm_mem 7 b" if "PGROUNDDOWN b \<in> pt_pages (vm_mem 7) 0x80300000" for b
    using that in_page_bounds [of b] unfolding pp m by (auto simp: word_less_nat_alt)
  note sc = space_cong [OF wf this]
  show pf: "pt_pages (mem fork_ex) 0x80300000 = {0x80300000, 0x80301000}" using sc(3) pp by simp
  have kp: "kpage km_boot x \<longleftrightarrow> page_aligned x \<and> 0x80120000 \<le> x \<and> V2P x < PHYSTOP" for x by (simp add: kpage_def km_boot_ok(5))
  have "{0x80300000, 0x80301000, 0x80302000} \<subseteq> km_pool km_boot - km_avail km_boot"
    unfolding km_boot_ok(6) by (simp add: km_pool_def kp page_aligned_def V2P_def)
  then show "pt_ok 0x80300000 fork_ex" "0x80302000 \<in> km_pool fork_ex - km_avail fork_ex"
    using ok sc(2) by (simp_all add: pt_ok_def pf av po)
  show "ptes (mem fork_ex) 0x80300000 0x123 = 0x302007"
    using fun_cong [OF sc(1), of "0x123"] vm_ex_ok(5) [of 7 1] unfolding v by simp
qed

theorem copyonwriteuvm_shares_witness:
  "succeeds (copyonwriteuvm 0x80300000 0x1000 fork_ex) (\<lambda>d t. ptes (mem t) d 0x123 = 0x302405 \<and> ptes (mem t) 0x80300000 0x123 = 0x302405)"
proof -
  have "ptes (mem fork_ex) 0x80300000 va = 0x302007" if "va < 0x1000" for va
  proof -
    have "pgno va = pgno 0x123" using that by (simp add: word_unat_eq_iff unat_pgno word_less_nat_alt)
    then show ?thesis using ptes_page fork_ex_ok(6) by metis
  qed
  then have f: "forkable fork_ex 0x80300000 0x1000"
    using fork_ex_ok by (simp add: forkable_def P2V_def PTE_ADDR_def)
  have r: "runs (hw fork_ex) 0" using cpu0_quiet cpu0_cur by (simp add: runs_def fork_ex_def km_boot_ok(3))
  have k: "kdata fork_ex = 0x80109000" "577 < card (km_avail fork_ex)"
    using km_boot_card fork_ex_ok(2) by (simp_all add: fork_ex_def km_boot_ok(2))
  have n: "unat (0x123 :: u32) < 4096 * npages 0x1000" and c: "cowed 0x302007 = 0x302405" by (simp_all add: npages_def cowed_def)
  have "page_aligned (kdata fork_ex)" "0x80100000 < kdata fork_ex" "kdata fork_ex < 0x8E000000"
    by (simp_all add: k(1) page_aligned_def)
  from copyonwriteuvm_shares [OF r f this k(2)] show ?thesis
  proof (rule succeeds_mono, elim conjE)
    fix d t
    assume "\<forall>va. if unat va < 4096 * npages 0x1000
       then ptes (mem t) 0x80300000 va = cowed (ptes (mem fork_ex) 0x80300000 va) \<and> ptes (mem t) d va = cowed (ptes (mem fork_ex) 0x80300000 va) \<and>
         ptes (mem t) d va AND PTE_W = 0 \<and> ptes (mem t) d va AND PTE_COW \<noteq> 0
       else ptes (mem t) 0x80300000 va = ptes (mem fork_ex) 0x80300000 va \<and> ptes (mem t) d va = kvm_pte (kdata fork_ex) va"
    from spec [OF this, of "0x123"] show "ptes (mem t) d 0x123 = 0x302405 \<and> ptes (mem t) 0x80300000 0x123 = 0x302405"
      unfolding if_P [OF n] fork_ex_ok(6) c by simp
  qed
qed

end
