(* ===== verification/Pagein.thy ===== *)
theory Pagein
  imports Swapspace Cowfork
begin

text \<open>
  Bringing a page back: \<open>handle_pf\<close> (vm.c) maps a fresh frame at the faulting page, reads the page from the swap file into
  the static buffer of the kernel and copies it through the new mapping.
\<close>

section \<open>Access to a mapped page\<close>

text \<open>In every memory that agrees with \<open>s\<close> outside the frame \<open>x\<close>, the page at \<open>va\<close> is translated to \<open>x\<close>.\<close>

lemma page_low_bits:
  fixes va :: addr
  assumes "page_aligned va" and "k < 4096"
  shows "(va + of_nat k) AND 0xFFF = of_nat k" "pgno (va + of_nat k) = pgno va"
proof -
  have k: "unat (of_nat k :: addr) = k" using assms(2) by (intro unat_of_nat_small) simp
  show "pgno (va + of_nat k) = pgno va" unfolding pgno_near [OF assms(1)] using assms(2) k by simp
  have "(0xFFF :: addr) = mask 12" by (simp add: mask_eq_exp_minus_1)
  then have "unat ((va + of_nat k) AND 0xFFF) = unat (va + of_nat k) mod 4096"
    by (simp only: take_bit_eq_mask [symmetric] take_bit_eq_mod unat_mod) simp
  also have "\<dots> = k" using unat_page_plus [OF assms] assms by (simp add: page_aligned_iff) (auto elim!: dvdE)
  finally show "(va + of_nat k) AND 0xFFF = of_nat k" by (simp add: word_unat_eq_iff k)
qed

definition maps_page :: "addr \<Rightarrow> addr \<Rightarrow> addr \<Rightarrow> 'z kmst_scheme \<Rightarrow> bool" where
  "maps_page pgdir va x s \<longleftrightarrow> page_aligned va \<and> va < KERNBASE \<and> P2V (cr3 (hw s) (lapic (hw s))) = pgdir \<and> page_aligned x \<and>
     unat x + 4096 < 2 ^ 32 \<and> pt_wf (mem s) pgdir \<and> x \<notin> pt_pages (mem s) pgdir \<and>
     (let e = ptes (mem s) pgdir va in e AND PTE_P \<noteq> 0 \<and> e AND PTE_W \<noteq> 0 \<and> P2V (PTE_ADDR e) = x)"

lemma maps_page_trans:
  assumes "maps_page pgdir va x s" and "k < 4096"
  shows "vtrans w (va + of_nat k) s = Some (x + of_nat k)"
proof -
  have va: "page_aligned va" "va < KERNBASE" using assms(1) by (simp_all add: maps_page_def)
  have "unat (va + of_nat k) < 0x80000000"
    unfolding unat_page_plus [OF va(1) assms(2)] using va assms(2) by (auto simp: page_aligned_iff word_less_nat_alt elim!: dvdE)
  then have "\<not> KERNBASE \<le> va + of_nat k" by (simp add: word_le_nat_alt)
  then show ?thesis
    using assms page_low_bits [OF va(1) assms(2)] ptes_page [of "va + of_nat k" va "mem s" pgdir]
    by (simp add: vtrans_def maps_page_def Let_def)
qed

lemma maps_page_mem:
  assumes "maps_page pgdir va x s" and "\<And>b. PGROUNDDOWN b \<noteq> x \<Longrightarrow> m b = mem s b"
  shows "maps_page pgdir va x (s\<lparr>mem := m\<rparr>)"
proof -
  have w: "pt_wf (mem s) pgdir" "x \<notin> pt_pages (mem s) pgdir" using assms(1) by (simp_all add: maps_page_def)
  have "m b = mem s b" if "PGROUNDDOWN b \<in> pt_pages (mem s) pgdir" for b using assms(2) that w(2) by metis
  from space_cong [OF w(1) this] show ?thesis using assms(1) by (simp add: maps_page_def)
qed

lemma ureads_page:
  assumes "maps_page pgdir va x s" and "k + n \<le> 4096"
  shows "ureads n (va + of_nat k) s = Some (map (\<lambda>i. mem s (x + of_nat (k + i))) [0..<n])"
  using assms(2)
proof (induction n arbitrary: k)
  case (Suc n)
  have e: "va + of_nat k + 1 = va + of_nat (Suc k)" by simp
  have "map (\<lambda>i. mem s (x + of_nat (k + i))) [0..<Suc n] = mem s (x + of_nat k) # map (\<lambda>i. mem s (x + of_nat (Suc k + i))) [0..<n]"
    by (simp only: upt_conv_Cons [OF zero_less_Suc] map_Suc_upt [symmetric] list.map map_map) (simp add: comp_def algebra_simps)
  then show ?case
    using Suc.prems Suc.IH [of "Suc k"] maps_page_trans [OF assms(1), of k False] unfolding ureads.simps e by simp
qed simp

lemma uwrites_page:
  assumes "maps_page pgdir va x s" and "k + length bs \<le> 4096"
  shows "uwrites bs (va + of_nat k) s = Some (s\<lparr>mem := kstore (x + of_nat k) bs (mem s)\<rparr>)"
  using assms
proof (induction bs arbitrary: k s)
  case (Cons b bs)
  have al: "page_aligned x" "unat x + 4096 < 2 ^ 32" using Cons.prems(1) by (simp_all add: maps_page_def)
  have k: "k < 4096" using Cons.prems(2) by simp
  let ?s = "s\<lparr>mem := (mem s)(x + of_nat k := b)\<rparr>"
  have m: "maps_page pgdir va x ?s"
    by (rule maps_page_mem [OF Cons.prems(1)]) (use PGROUNDDOWN_plus [OF al(1) k] in auto)
  have e: "va + of_nat k + 1 = va + of_nat (Suc k)" by simp
  have u: "(mem s)(x + of_nat k := b) = kstore (x + of_nat k) [b] (mem s)" by (auto simp: kstore_def fun_eq_iff unat_eq_0)
  have "unat (x + of_nat k) + length [b] + length bs < 2 ^ 32"
    using Cons.prems(2) unat_page_plus [OF al(1) k] al(2) by simp
  then have "kstore (x + of_nat k + of_nat (length [b])) bs (kstore (x + of_nat k) [b] (mem s)) = kstore (x + of_nat k) ([b] @ bs) (mem s)"
    by (rule kstore_append)
  then have ks: "kstore (x + of_nat (Suc k)) bs ((mem s)(x + of_nat k := b)) = kstore (x + of_nat k) (b # bs) (mem s)"
    unfolding u by (simp add: algebra_simps)
  have "uwrites bs (va + of_nat (Suc k)) ?s = Some (?s\<lparr>mem := kstore (x + of_nat (Suc k)) bs (mem ?s)\<rparr>)"
    by (rule Cons.IH [OF m]) (use Cons.prems(2) in simp)
  then show ?case using maps_page_trans [OF Cons.prems(1) k, of True] ks unfolding uwrites.simps e by simp
qed simp

section \<open>What the swap file depends on\<close>

lemma swap_ok_cong:
  fixes s t :: "'z flst_scheme"
  assumes "bufs t = bufs s" "disk t = disk s" "hw t = hw s" "length (ptable t) = length (ptable s)"
    and "p_pid (ptable t ! p) = p_pid (ptable s ! p)" "p_swapFile (ptable t ! p) = p_swapFile (ptable s ! p)"
    and "slocks t = slocks s" "icache t = icache s" "disksize t = disksize s" "ftable t = ftable s"
    and "lg_block t = lg_block s" "lg_size t = lg_size s" "lg_n t = lg_n s" "lg_start t = lg_start s" "lg_dev t = lg_dev s"
    and "lg_outstanding t = lg_outstanding s" "lg_committing t = lg_committing s"
  shows "swap_ok p f ip n t = swap_ok p f ip n s" "swap_page t = swap_page s"
proof -
  have v: "bview t = bview s" using bc_same(2) [OF assms(1-5)] assms(7) by simp
  have b: "baddr t = baddr s" by (simp add: baddr_def v assms(8) fun_eq_iff)
  show "swap_page t = swap_page s" by (simp add: swap_page_def file_byte_def v b fun_eq_iff)
  have "txn p {} [] t = txn p {} [] s" using txn_same [OF assms(1-5)] assms by simp
  moreover have "inode_ok ip t = inode_ok ip s" by (simp add: inode_ok_def nblocks_def mapped_def v b assms(7-9,14))
  ultimately show "swap_ok p f ip n t = swap_ok p f ip n s" by (simp add: swap_ok_def file_ok_def idle_def assms)
qed

lemma swap_ok_proc:
  fixes s :: "'z flst_scheme"
  assumes "\<And>q. p_pid (g q) = p_pid q" "\<And>q. p_swapFile (g q) = p_swapFile q"
  shows "swap_ok p f ip n (upd_proc i g s) = swap_ok p f ip n s" "swap_page (upd_proc i g s) = swap_page s"
proof -
  have "p_pid ((ptable s)[i := g (ptable s ! i)] ! p) = p_pid (ptable s ! p) \<and>
      p_swapFile ((ptable s)[i := g (ptable s ! i)] ! p) = p_swapFile (ptable s ! p)"
    using assms by (cases "i < length (ptable s)"; cases "i = p") (simp_all add: list_update_beyond not_less)
  then show "swap_ok p f ip n (upd_proc i g s) = swap_ok p f ip n s" "swap_page (upd_proc i g s) = swap_page s"
    using swap_ok_cong(1) [of "upd_proc i g s" s p f ip n] swap_ok_cong(2) [of "upd_proc i g s" s p] by (simp_all add: upd_proc_def)
qed

lemma kmem_only_eq: "kmem_only s t \<Longrightarrow> t = s\<lparr>mem := mem t, km_freelist := km_freelist t, km_references_count := km_references_count t,
    km_free_pages := km_free_pages t\<rparr>"
  by (simp add: kmem_only_def)

lemma swap_ok_kmem:
  fixes s t :: "'z flst_scheme"
  assumes "kmem_only s t"
  shows "swap_ok p f ip n t = swap_ok p f ip n s" "swap_page t = swap_page s"
proof -
  define m l c k where "m = mem t" and "l = km_freelist t" and "c = km_references_count t" and "k = km_free_pages t"
  have e: "t = s\<lparr>mem := m, km_freelist := l, km_references_count := c, km_free_pages := k\<rparr>"
    using kmem_only_eq [OF assms] by (simp add: m_def l_def c_def k_def)
  show "swap_ok p f ip n t = swap_ok p f ip n s" "swap_page t = swap_page s"
    using swap_ok_cong(1) [of t s p f ip n] swap_ok_cong(2) [of t s p] by (simp_all add: e)
qed

lemma pt_ok_same:
  assumes "hw t = hw s" "mem t = mem s" "kend t = kend s" "km_use_lock t = km_use_lock s" "km_freelist t = km_freelist s"
    and "km_references_count t = km_references_count s" "km_free_pages t = km_free_pages s"
  shows "pt_ok g t = pt_ok g s" "km_avail t = km_avail s" "km_pool t = km_pool s"
proof -
  have k: "kpage t = kpage s" by (simp add: kpage_def assms fun_eq_iff)
  have i: "kmem_inv t = kmem_inv s" by (simp add: kmem_inv_def k assms fun_eq_iff)
  show a: "km_avail t = km_avail s" "km_pool t = km_pool s" by (simp_all add: km_avail_def km_pool_def i k)
  show "pt_ok g t = pt_ok g s" by (simp add: pt_ok_def km_ok_def i a kmem_ready_def assms)
qed

lemma fs_same_kmem:
  assumes "fs_same f s t"
  shows "kend t = kend s" "km_use_lock t = km_use_lock s" "km_freelist t = km_freelist s"
    "km_references_count t = km_references_count s" "km_free_pages t = km_free_pages s"
proof -
  have e: "strip f t = strip f s" using assms by (simp add: fs_same_def)
  show "kend t = kend s" "km_use_lock t = km_use_lock s" "km_freelist t = km_freelist s"
    "km_references_count t = km_references_count s" "km_free_pages t = km_free_pages s"
    using arg_cong [OF e, of kend] arg_cong [OF e, of km_use_lock] arg_cong [OF e, of km_freelist]
      arg_cong [OF e, of km_references_count] arg_cong [OF e, of km_free_pages] by (simp_all add: strip_def)
qed

lemma fs_same_paging:
  assumes "fs_same f s t" and "p < length (ptable s)"
  shows "p_memory_pages (ptable t ! p) = p_memory_pages (ptable s ! p)" "p_file_pages (ptable t ! p) = p_file_pages (ptable s ! p)"
    "p_pgdir (ptable t ! p) = p_pgdir (ptable s ! p)"
proof -
  have "map (p_state_update (\<lambda>_. UNUSED)) (ptable t) ! p = map (p_state_update (\<lambda>_. UNUSED)) (ptable s) ! p"
    using fs_same_sel(12) [OF assms(1)] by simp
  then have e: "(ptable t ! p)\<lparr>p_state := UNUSED\<rparr> = (ptable s ! p)\<lparr>p_state := UNUSED\<rparr>"
    using fs_same_sel(13) [OF assms(1)] assms(2) by simp
  show "p_memory_pages (ptable t ! p) = p_memory_pages (ptable s ! p)" "p_file_pages (ptable t ! p) = p_file_pages (ptable s ! p)"
    "p_pgdir (ptable t ! p) = p_pgdir (ptable s ! p)"
    using arg_cong [OF e, of p_memory_pages] arg_cong [OF e, of p_file_pages] arg_cong [OF e, of p_pgdir] by simp_all
qed

section \<open>The new mapping\<close>

text \<open>The entry \<open>set_page_flags_in_mem\<close> stores.\<close>

definition present :: "u32 \<Rightarrow> u32 \<Rightarrow> u32" where
  "present pa e = ((e OR PTE_P OR PTE_W OR PTE_U) AND NOT PTE_PG) OR pa"

lemma present_parts:
  assumes "PTE_ADDR e = 0" and "page_aligned pa"
  shows "PTE_ADDR (present pa e) = pa" "present pa e AND PTE_P \<noteq> 0" "present pa e AND PTE_W \<noteq> 0"
proof -
  define F where "F = (e OR PTE_P OR PTE_W OR PTE_U) AND NOT PTE_PG"
  have "take_bit 12 e = e" using assms(1) PTE_parts [of e] by (simp add: macro_forms(3))
  then have o: "take_bit 12 (e OR PTE_P OR PTE_W OR PTE_U) = e OR PTE_P OR PTE_W OR PTE_U" by (simp only: take_bit_or) simp
  have "take_bit n (x AND y) = x AND y" if "take_bit n x = x" for n and x y :: u32
    using that by (metis and.assoc and.commute take_bit_eq_mask)
  then have "PTE_FLAGS F = F" unfolding macro_forms F_def using o by blast
  then have "PTE_ADDR (pa OR F) = pa" by (rule PTE_ADDR_or_flags(1) [OF assms(2)])
  then show "PTE_ADDR (present pa e) = pa" unfolding present_def F_def [symmetric] by (simp only: or.commute [of F])
  have p: "bit (0x200 :: u32) n \<longleftrightarrow> n = 9" for n using bit_exp_iff [of 9 n, where 'a = u32] by auto
  have "bit (present pa e AND PTE_P) 0" "bit (present pa e AND PTE_W) 1" by (simp_all add: present_def bit_ops p)
  then show "present pa e AND PTE_P \<noteq> 0" "present pa e AND PTE_W \<noteq> 0" by force+
qed

lemma kalloc_page:
  assumes "km_ok s" and "km_avail s \<noteq> {}"
  obtains q t where "kalloc s = Ok q t" "q \<in> km_avail s" "km_ok t" "mem t = mem s" "km_pool t = km_pool s"
    "km_avail t = km_avail s - {q}" "kmem_only s t"
  using succeedsE [OF succeeds_conj [OF kalloc_law [OF assms(1)] kalloc_frame [OF assms(1)]]] assms(2) by metis

section \<open>A page fault on a page in the swap file\<close>

text \<open>
  Process \<open>p\<close> runs on its page directory \<open>pgdir\<close> and faults at \<open>va\<close>, whose page is in slot \<open>j\<close> of its swap file; slot \<open>i\<close> of
  \<open>memory_pages\<close> is free. The static buffer lies in the kernel's data, below the pages of the allocator.
\<close>

definition page_fault :: "nat \<Rightarrow> nat \<Rightarrow> nat \<Rightarrow> nat \<Rightarrow> addr \<Rightarrow> u32 \<Rightarrow> nat \<Rightarrow> nat \<Rightarrow> 'z flst_scheme \<Rightarrow> bool" where
  "page_fault p f ip n pgdir va i j s \<longleftrightarrow> swap_ok p f ip n s \<and> p_pgdir (ptable s ! p) = pgdir \<and>
     cr3 (hw s) (lapic (hw s)) = V2P pgdir \<and> pt_ok pgdir s \<and> va < KERNBASE \<and>
     (let e = ptes (mem s) pgdir va in e AND PTE_P = 0 \<and> e AND PTE_PG \<noteq> 0 \<and> PTE_ADDR e = 0) \<and>
     next_free_i_in_mem (ptable s ! p) = int i \<and> get_i_of_va_in_file (ptable s ! p) (PGROUNDDOWN va) = int j \<and> j < n \<and>
     pg_is_used (p_file_pages (ptable s ! p) ! j) \<and> kernel_page (kbuffer s) \<and> unat (kbuffer s) + 4096 \<le> unat (kend s)"

text \<open>The state after the new frame \<open>q\<close> has been mapped at \<open>va\<close>.\<close>

definition mapped_in :: "nat \<Rightarrow> nat \<Rightarrow> nat \<Rightarrow> nat \<Rightarrow> addr \<Rightarrow> u32 \<Rightarrow> 'z flst_scheme \<Rightarrow> addr \<Rightarrow> 'z flst_scheme \<Rightarrow> bool" where
  "mapped_in p f ip n pgdir va s q t \<longleftrightarrow> q \<in> km_avail s \<and> pt_ok pgdir t \<and> km_pool t = km_pool s \<and> km_avail t = km_avail s - {q} \<and>
     pt_pages (mem t) pgdir = pt_pages (mem s) pgdir \<and>
     ptes (mem t) pgdir = (\<lambda>b. if pgno b = pgno va then present (V2P q) (ptes (mem s) pgdir va) else ptes (mem s) pgdir b) \<and>
     (\<forall>b. PGROUNDDOWN b \<notin> pt_pages (mem s) pgdir \<longrightarrow> mem t b = mem s b) \<and>
     swap_ok p f ip n t \<and> swap_page t = swap_page s \<and> hw t = hw s \<and> kbuffer t = kbuffer s \<and> kend t = kend s \<and>
     p_memory_pages (ptable t ! p) = p_memory_pages (ptable s ! p) \<and> p_file_pages (ptable t ! p) = p_file_pages (ptable s ! p)"

lemma pf_map:
  assumes pf: "page_fault p f ip n pgdir va i j s" and ne: "km_avail s \<noteq> {}"
  obtains q t where "mapped_in p f ip n pgdir va s q t" "handle_pf va s =
    andthen (readFromSwapFile p (kbuffer t) (of_nat j * PGSIZE) PGSIZE t) (\<lambda>r s.
      if r \<noteq> 4096 then Panic ''handle PF: readFromSwapFile failed''
      else andthen (umem_read 4096 (kbuffer (pf_load p i j s)) (pf_load p i j s)) (\<lambda>bs s.
        andthen (umem_write bs (PGROUNDDOWN va) s) (\<lambda>_ s. Ok True s)))"
proof -
  let ?r = "PGROUNDDOWN va" and ?e = "ptes (mem s) pgdir va"
  define s1 where "s1 = upd_proc p (\<lambda>q. q\<lparr>p_page_faults := p_page_faults q + 1\<rparr>) s"
  have so: "swap_ok p f ip n s" and ok: "pt_ok pgdir s" and pd: "p_pgdir (ptable s ! p) = pgdir" "cr3 (hw s) (lapic (hw s)) = V2P pgdir"
    and e: "?e AND PTE_P = 0" "?e AND PTE_PG \<noteq> 0" using pf by (simp_all add: page_fault_def Let_def)
  have fo: "file_ok p f ip s" using so by (simp add: swap_ok_def)
  have p: "p < length (ptable s)" and rn: "runs (hw s) p" using file_okD(3,4) [OF fo] by simp_all
  have tp: "thisproc s = Ok p s" using rn by (simp add: runs_def lock_simps)
  have pg: "pgno ?r = pgno va" using PGROUNDDOWN_pgno [of ?r va] PGROUNDDOWN_self [of ?r] by simp
  note er = ptes_page [OF pg, of "mem s" pgdir]
  have nz: "?e \<noteq> 0" using e(2) by (intro notI) simp
  have sl: "pte_slot (mem s) pgdir ?r \<noteq> 0" using ptes_nonzero_slot [OF ok, of ?r] nz er by simp
  then have ht: "has_table (mem s) pgdir (PDX ?r)" by (simp add: pte_slot_zero [OF ok])
  have ld: "ld32 (mem s) (pte_slot (mem s) pgdir ?r) = ?e" using ptes_slot [OF ht] er by simp
  have s1: "km_ok s1" "km_avail s1 = km_avail s" "mem s1 = mem s" "pt_ok pgdir s1" "km_pool s1 = km_pool s"
    using ok pt_ok_same(1) [of s1 s pgdir] pt_ok_same(2,3) [of s1 s] by (simp_all add: s1_def upd_proc_def pt_ok_def)
  obtain q s2 where k: "kalloc s1 = Ok q s2" "q \<in> km_avail s" "km_ok s2" "mem s2 = mem s" "km_pool s2 = km_pool s"
    "km_avail s2 = km_avail s - {q}" "kmem_only s1 s2"
    using kalloc_page [of s1] s1 ne by metis
  have o2: "pt_ok pgdir s2"
    by (rule pt_ok_elsewhere(1) [OF ok k(3,5)]) (use k(4,6) ok in \<open>auto simp: pt_ok_def\<close>)
  define t where "t = upd_pte (pte_slot (mem s) pgdir ?r) (present (V2P q)) s2"
  have h2: "has_table (mem s2) pgdir (PDX ?r)" using ht k(4) by simp
  note u = upd_pte_spec [OF o2 h2, where f = "present (V2P q)", unfolded k(4), folded t_def]
  note d = kmem_onlyD [OF k(7)]
  have pt2: "ptable s2 = (ptable s)[p := (ptable s ! p)\<lparr>p_page_faults := p_page_faults (ptable s ! p) + 1\<rparr>]"
    using d(2) by (simp add: s1_def)
  have t: "hw t = hw s" "ptable t = ptable s2" "kbuffer t = kbuffer s" "kend t = kend s"
    using d by (simp_all add: t_def upd_pte_def s1_def upd_proc_def)
  have lc: "t\<lparr>hw := lcr3 (V2P pgdir) (hw t)\<rparr> = t" using pd(2) by (simp add: lcr3_def t(1) fun_upd_idem)
  have ps: "p_pgdir (ptable s2 ! p) = pgdir" "next_free_i_in_mem (ptable s2 ! p) = int i" "get_i_of_va_in_file (ptable s2 ! p) ?r = int j"
    using pf p pt2 by (simp_all add: page_fault_def next_free_i_in_mem_def get_i_of_va_in_file_def)
  have fl: "set_page_flags_in_mem pgdir ?r (V2P q) s2 = Ok () t"
    unfolding set_page_flags_in_mem_def walk_lookup k(4) t_def present_def [abs_def] using sl by simp
  have kl: "klcr3 (Some p) t = Ok () t" unfolding klcr3_def using lc ps(1) t(2) by simp
  have "handle_pf va s =
    andthen (readFromSwapFile p (kbuffer t) (of_nat j * PGSIZE) PGSIZE t) (\<lambda>r s.
      if r \<noteq> 4096 then Panic ''handle PF: readFromSwapFile failed''
      else andthen (umem_read 4096 (kbuffer (pf_load p i j s)) (pf_load p i j s)) (\<lambda>bs s.
        andthen (umem_write bs ?r s) (\<lambda>_ s. Ok True s)))"
    unfolding handle_pf_def tp andthen.simps Let_def walk_lookup pd(1) ld s1_def [symmetric] k(1)
    using sl e by (simp add: ps fl kl t(2) cong: if_cong)
  moreover have "mapped_in p f ip n pgdir va s q t"
  proof -
    have ko: "kmem_only s2 t" "pt_ok pgdir t" using u(1) by (simp_all add: grows_def)
    have "swap_ok p f ip n t = swap_ok p f ip n s" "swap_page t = swap_page s"
      using swap_ok_kmem [OF ko(1)] swap_ok_kmem [OF k(7)] by (simp_all add: s1_def swap_ok_proc)
    moreover have "km_pool t = km_pool s" using km_pool_only [OF ko(1)] k(5) by simp
    moreover have "mem t b = mem s b" if "PGROUNDDOWN b \<notin> pt_pages (mem s) pgdir" for b
      using u(1) that by (simp add: grows_def u(3) k(4))
    ultimately show ?thesis unfolding mapped_in_def using k(2) ko(2) u(2) [unfolded er pg] u(3,4) t pt2 p so by (simp add: k(6))
  qed
  ultimately show ?thesis using that by blast
qed

text \<open>Memory below the allocator's pages is in no page table and no free page.\<close>

lemma below_pool:
  assumes "unat b < unat (kend s)" and "x \<in> km_pool s"
  shows "PGROUNDDOWN b \<noteq> x"
  using assms in_page_bounds(1) [of b x] by (auto simp: km_pool_def kpage_def word_le_nat_alt)

lemma kstore_outside: "\<not> unat (b - a) < length bs \<Longrightarrow> kstore a bs m b = m b"
  by (simp add: kstore_def)

lemma kbuffer_outside:
  assumes "kernel_page kb" "unat kb + 4096 \<le> unat (kend s)" "x \<in> km_pool s" "PGROUNDDOWN b = x" "length bs = 4096"
  shows "kstore kb bs m b = m b"
proof (rule kstore_outside)
  have b: "unat (kend s) \<le> unat b" using assms(3,4) in_page_bounds(1) [of b x] by (auto simp: km_pool_def kpage_def word_le_nat_alt)
  then have "unat (b - kb) = unat b - unat kb" using assms(2) by (intro unat_sub) (simp add: word_le_nat_alt)
  then show "\<not> unat (b - kb) < length bs" using b assms(2,5) by simp
qed

lemma upd_proc_twice: "upd_proc p f (upd_proc p g s) = upd_proc p (\<lambda>q. f (g q)) s"
  by (cases "p < length (ptable s)") (simp_all add: upd_proc_def list_update_beyond not_less)

lemma pf_load_proc:
  fixes s :: "'z kmst_scheme"
  obtains g where "pf_load p i j s = upd_proc p g s" "\<And>q. p_pid (g q) = p_pid q" "\<And>q. p_swapFile (g q) = p_swapFile q"
    "\<And>q. p_pgdir (g q) = p_pgdir q"
    "i < length (p_memory_pages (ptable s ! p)) \<Longrightarrow> pg_va (p_memory_pages (g (ptable s ! p)) ! i) = pg_va (p_file_pages (ptable s ! p) ! j)"
    "i < length (p_memory_pages (ptable s ! p)) \<Longrightarrow>
       pg_is_used (p_memory_pages (g (ptable s ! p)) ! i) = pg_is_used (p_file_pages (ptable s ! p) ! j)"
    "j < length (p_file_pages (ptable s ! p)) \<Longrightarrow> \<not> pg_is_used (p_file_pages (g (ptable s ! p)) ! j)"
    "\<And>k. k \<noteq> i \<Longrightarrow> p_memory_pages (g (ptable s ! p)) ! k = p_memory_pages (ptable s ! p) ! k"
    "\<And>k. k \<noteq> j \<Longrightarrow> p_file_pages (g (ptable s ! p)) ! k = p_file_pages (ptable s ! p) ! k"
proof -
  define m1 where "m1 = (\<lambda>q :: proc. q\<lparr>p_memory_pages := (p_memory_pages q)[i := p_file_pages (ptable s ! p) ! j]\<rparr>)"
  define m2 where "m2 = (\<lambda>q :: proc. q\<lparr>p_file_pages := (p_file_pages q)[j := (p_file_pages q ! j)\<lparr>pg_is_used := False, pg_age := 0\<rparr>]\<rparr>)"
  define m3 where "m3 = (\<lambda>q :: proc. if selection s = LAPA then q\<lparr>p_memory_pages := (p_memory_pages q)[i := (p_memory_pages q ! i)\<lparr>pg_age := 0xFFFFFFFF\<rparr>]\<rparr> else q)"
  define x where "x = p_timestamp (ptable (upd_proc p m3 (upd_proc p m2 (upd_proc p m1 s))) ! p)"
  define m4 where "m4 = (\<lambda>q :: proc. q\<lparr>p_memory_pages := (p_memory_pages q)[i := (p_memory_pages q ! i)\<lparr>pg_time_loaded := x\<rparr>], p_timestamp := p_timestamp q + 1\<rparr>)"
  let ?g = "\<lambda>q. m4 (m3 (m2 (m1 q)))"
  have id: "upd_proc p (\<lambda>q. q) s = s" for s :: "'z kmst_scheme" by (simp add: upd_proc_def)
  have sel: "selection (upd_proc p f s) = selection s" for f and s :: "'z kmst_scheme" by (simp add: upd_proc_def)
  have "pf_load p i j s = upd_proc p ?g s"
    unfolding pf_load_def Let_def upd_mempage_def upd_filepage_def
    by (simp add: upd_proc_twice m1_def m2_def m3_def m4_def x_def id sel)
  then show ?thesis
    by (rule that) (simp_all add: m1_def m2_def m3_def m4_def)
qed

lemma find_page_found:
  assumes "find_page P k xs = int m" and "0 \<le> k"
  shows "k \<le> int m \<and> m - nat k < length xs \<and> P (xs ! (m - nat k))"
  using assms
proof (induction xs arbitrary: k)
  case (Cons x xs)
  show ?case
  proof (cases "P x")
    case False
    then have "k + 1 \<le> int m \<and> m - nat (k + 1) < length xs \<and> P (xs ! (m - nat (k + 1)))" using Cons by simp
    moreover from this Cons.prems(2) have "m - nat k = Suc (m - nat (k + 1))" by linarith
    ultimately show ?thesis by simp
  qed (use Cons.prems in auto)
qed simp

lemma page_fault_slots:
  assumes "page_fault p f ip n pgdir va i j s"
  shows "i < length (p_memory_pages (ptable s ! p))" "j < length (p_file_pages (ptable s ! p))"
    "pg_va (p_file_pages (ptable s ! p) ! j) = PGROUNDDOWN va"
  using assms find_page_found [of _ 0] unfolding page_fault_def next_free_i_in_mem_def get_i_of_va_in_file_def by fastforce+

text \<open>Reading the page into the buffer and copying it through the new mapping.\<close>

lemma pf_fill:
  assumes m: "mapped_in p f ip n pgdir va s q t" and pf: "page_fault p f ip n pgdir va i j s"
    and u: "swap_ok p f ip n u" "fs_same f (t\<lparr>mem := kstore (kbuffer t) bs (mem t)\<rparr>) u" "length bs = 4096"
  defines "v \<equiv> pf_load p i j u"
  shows "umem_read 4096 (kbuffer v) v = Ok bs v" "umem_write bs (PGROUNDDOWN va) v = Ok () (v\<lparr>mem := kstore q bs (mem v)\<rparr>)"
    "pt_ok pgdir (v\<lparr>mem := kstore q bs (mem v)\<rparr>)" "km_avail (v\<lparr>mem := kstore q bs (mem v)\<rparr>) = km_avail s - {q}"
    "ptes (kstore q bs (mem v)) pgdir = ptes (mem t) pgdir" "ureads 4096 (PGROUNDDOWN va) (v\<lparr>mem := kstore q bs (mem v)\<rparr>) = Some bs"
    "PGROUNDDOWN b \<in> km_pool s - {q} \<Longrightarrow> kstore q bs (mem v) b = mem t b"
proof -
  obtain g where g: "v = upd_proc p g u" unfolding v_def by (rule pf_load_proc [of p i j u]) blast
  note su = fs_same_sel [OF u(2)] and sk = fs_same_kmem [OF u(2)]
  have kb: "kernel_page (kbuffer t)" "unat (kbuffer t) + 4096 \<le> unat (kend t)" using pf m by (simp_all add: page_fault_def mapped_in_def)
  have okt: "pt_ok pgdir t" and q: "q \<in> km_avail s" "km_pool t = km_pool s" "km_avail t = km_avail s - {q}" and ht: "hw t = hw s"
    using m by (simp_all add: mapped_in_def)
  have pt: "ptes (mem t) pgdir = (\<lambda>b. if pgno b = pgno va then present (V2P q) (ptes (mem s) pgdir va) else ptes (mem s) pgdir b)"
    using m by (simp add: mapped_in_def)
  have pool: "pt_pages (mem t) pgdir \<union> km_avail t \<subseteq> km_pool t" "q \<in> km_pool t" "q \<notin> pt_pages (mem t) pgdir"
    using okt q pa.avail_pool [of s] pf m by (auto simp: pt_ok_def mapped_in_def page_fault_def)
  have kt: "kstore (kbuffer t) bs (mem t) b = mem t b" if "PGROUNDDOWN b \<in> km_pool t" for b
    using kbuffer_outside [OF kb that refl u(3)] .
  let ?m = "kstore (kbuffer t) bs (mem t)"
  have agree: "?m b = mem t b" if "PGROUNDDOWN b \<in> pt_pages (mem t) pgdir \<union> km_avail t" for b using kt that pool(1) by blast
  have o1: "pt_ok pgdir (t\<lparr>mem := ?m\<rparr>)" "ptes ?m pgdir = ptes (mem t) pgdir" "pt_pages ?m pgdir = pt_pages (mem t) pgdir"
    "km_avail (t\<lparr>mem := ?m\<rparr>) = km_avail t" "km_pool (t\<lparr>mem := ?m\<rparr>) = km_pool t"
    by (rule pt_ok_mem [OF okt], erule agree)+
  have vm: "mem v = ?m" "hw v = hw s" "kbuffer v = kbuffer t" using su ht by (simp_all add: g upd_proc_def)
  have ov: "pt_ok pgdir v" "km_avail v = km_avail t" "km_pool v = km_pool t"
    using pt_ok_same(1) [of v "t\<lparr>mem := ?m\<rparr>" pgdir] pt_ok_same(2,3) [of v "t\<lparr>mem := ?m\<rparr>"] su sk o1 by (simp_all add: g upd_proc_def)
  show "umem_read 4096 (kbuffer v) v = Ok bs v"
    using ureads_kernel [of "kbuffer t" 4096 v] kstore_read [of "kbuffer t" bs "mem t"] kb u(3)
    by (simp add: umem_read_def kernel_page_def vm)
  have al: "page_aligned q" "unat q + 4096 < 2 ^ 32" "V2P q < PHYSTOP" using pa.pool_page [OF pool(2)] pool_no_wrap [OF pool(2)] by auto
  have pr: "ptes (mem v) pgdir (PGROUNDDOWN va) = present (V2P q) (ptes (mem s) pgdir va)"
    using PGROUNDDOWN_pgno [of "PGROUNDDOWN va" va] PGROUNDDOWN_self [of "PGROUNDDOWN va"] by (simp add: vm(1) o1(2) pt)
  have lo: "PGROUNDDOWN va < KERNBASE" "PTE_ADDR (ptes (mem s) pgdir va) = 0" "cr3 (hw s) (lapic (hw s)) = V2P pgdir"
    using pf in_page_bounds(1) [OF refl, of va] by (auto simp: page_fault_def Let_def word_less_nat_alt)
  have mp: "maps_page pgdir (PGROUNDDOWN va) q v"
    unfolding maps_page_def Let_def pr vm(2) lo(3)
    using ov(1) pool(3) o1(3) al lo(1) present_parts [OF lo(2) V2P_page(1) [OF al(1,3)]] by (simp add: pt_ok_def vm(1))
  then show "umem_write bs (PGROUNDDOWN va) v = Ok () (v\<lparr>mem := kstore q bs (mem v)\<rparr>)"
    using uwrites_page [of pgdir "PGROUNDDOWN va" q v 0 bs] u(3) by (simp add: umem_write_def)
  have kq: "kstore q bs m b = m b" if "PGROUNDDOWN b \<noteq> q" for b m
    using that in_page_iff [OF al(1), of b] u(3) by (intro kstore_outside) simp
  have aq: "kstore q bs (mem v) b = mem v b" if "PGROUNDDOWN b \<in> pt_pages (mem v) pgdir \<union> km_avail v" for b
    using that pool(3) o1(3) ov(2) q(3) by (intro kq) (auto simp: vm(1))
  have o2: "pt_ok pgdir (v\<lparr>mem := kstore q bs (mem v)\<rparr>)" "ptes (kstore q bs (mem v)) pgdir = ptes (mem v) pgdir"
    "km_avail (v\<lparr>mem := kstore q bs (mem v)\<rparr>) = km_avail v"
    by (rule pt_ok_mem [OF ov(1)], erule aq)+
  show "pt_ok pgdir (v\<lparr>mem := kstore q bs (mem v)\<rparr>)" by (rule o2(1))
  show "km_avail (v\<lparr>mem := kstore q bs (mem v)\<rparr>) = km_avail s - {q}" using o2(3) ov(2) q(3) by simp
  show "ptes (kstore q bs (mem v)) pgdir = ptes (mem t) pgdir" using o2(2) o1(2) vm(1) by simp
  have "maps_page pgdir (PGROUNDDOWN va) q (v\<lparr>mem := kstore q bs (mem v)\<rparr>)" by (rule maps_page_mem [OF mp], erule kq)
  then show "ureads 4096 (PGROUNDDOWN va) (v\<lparr>mem := kstore q bs (mem v)\<rparr>) = Some bs"
    using ureads_page [of pgdir "PGROUNDDOWN va" q "v\<lparr>mem := kstore q bs (mem v)\<rparr>" 0 4096] kstore_read [of q bs "mem v"] al(2) u(3) by simp
  show "kstore q bs (mem v) b = mem t b" if "PGROUNDDOWN b \<in> km_pool s - {q}" using that kq kt q(2) vm(1) by simp
qed


section \<open>An example\<close>

text \<open>
  The process of \<open>swap_ex\<close> with page tables at 0x80300000 and 0x80301000; its only page, at address 0, is in the swap file, and
  the page at 0x80303000 is free.
\<close>

definition pf_tables :: kmst where
  "pf_tables = upd_pte (pte_slot (vm_mem 7) 0x80300000 0x123) (\<lambda>_. PTE_PG OR PTE_U OR PTE_W) (vm_ex 7 1)"

definition pf_ex :: flst where
  "pf_ex = swap_ex\<lparr>hw := lcr3 0x300000 (hw swap_ex), mem := mem pf_tables, kend := 0x80120000, kbuffer := 0x80110000,
     km_use_lock := True, km_freelist := km_freelist pf_tables, km_references_count := km_references_count pf_tables,
     km_free_pages := km_free_pages pf_tables,
     ptable := map (\<lambda>q. q\<lparr>p_pgdir := 0x80300000, p_memory_pages := [zero_page],
       p_file_pages := [zero_page\<lparr>pg_is_used := True, pg_va := 0, pg_pgdir := 0x80300000\<rparr>]\<rparr>) (ptable swap_ex)\<rparr>"

lemma swap_ok_lcr3: "swap_ok p f ip n (s\<lparr>hw := lcr3 v (hw s)\<rparr>) = swap_ok p f ip n s" "swap_page (s\<lparr>hw := lcr3 v (hw s)\<rparr>) = swap_page s"
proof -
  let ?t = "s\<lparr>hw := lcr3 v (hw s)\<rparr>"
  have r: "runs (lcr3 v h) p = runs h p" for h p
    by (simp add: runs_def quiet_def lcr3_def cpu_ok_def depth_def this_cpu_def readeflags_def cur_def)
  have f: "bufs ?t = bufs s" "disk ?t = disk s" by simp_all
  have "bcached ?t = bcached s" unfolding bcached_def f by (rule refl)
  then have v: "bview ?t = bview s" unfolding bview_def f by simp
  have b: "baddr ?t = baddr s" by (simp add: baddr_def v fun_eq_iff)
  have "buf_ok p H ?t = buf_ok p H s" "dirties ?t = dirties s" for p H by (simp_all add: buf_ok_def dirties_def fun_eq_iff)
  then have "txn p {} [] ?t = txn p {} [] s" by (simp add: txn_def bc_ok_def r v)
  moreover have "inode_ok ip ?t = inode_ok ip s" by (simp add: inode_ok_def nblocks_def mapped_def v b)
  ultimately show "swap_ok p f ip n ?t = swap_ok p f ip n s" by (simp add: swap_ok_def file_ok_def idle_def)
  show "swap_page ?t = swap_page s" by (simp add: swap_page_def file_byte_def v b fun_eq_iff)
qed

lemma pt_ok_transfer:
  assumes "kmem_ready t" "mem t = mem s" "kend t = kend s" "km_freelist t = km_freelist s"
    and "km_references_count t = km_references_count s"
  shows "pt_ok g s \<Longrightarrow> pt_ok g t" "km_avail t = km_avail s"
proof -
  have k: "kpage t = kpage s" by (simp add: kpage_def assms fun_eq_iff)
  have i: "kmem_inv t = kmem_inv s" by (simp add: kmem_inv_def k assms fun_eq_iff)
  show a: "km_avail t = km_avail s" by (simp add: km_avail_def i)
  show "pt_ok g t" if "pt_ok g s" using that assms by (simp add: pt_ok_def km_ok_def i a km_pool_def k)
qed

lemma pf_tables_ok:
  "pt_ok 0x80300000 pf_tables" "km_avail pf_tables = {0x80303000}" "ptes (mem pf_tables) 0x80300000 0x123 = 0x206" "kend pf_tables = 0x80120000"
proof -
  have m: "mem (vm_ex 7 1) = vm_mem 7" by (simp add: vm_ex_def)
  have h: "has_table (mem (vm_ex 7 1)) 0x80300000 (PDX 0x123)" unfolding m using vm_ex_tables(1) [of "PDX 0x123" 7] by (simp add: PDX_def)
  note u = upd_pte_spec [OF vm_ex_ok(1) h, where f = "\<lambda>_. PTE_PG OR PTE_U OR PTE_W", unfolded m, folded pf_tables_def]
  show "pt_ok 0x80300000 pf_tables" using u(1) by (simp add: grows_def)
  show "km_avail pf_tables = {0x80303000}" using u(4) vm_ex_ok(2) by simp
  show "ptes (mem pf_tables) 0x80300000 0x123 = 0x206" using fun_cong [OF u(2), of "0x123"] by simp
  show "kend pf_tables = 0x80120000" by (simp add: pf_tables_def upd_pte_def vm_ex_def)
qed

lemma pf_ex_sel:
  "hw pf_ex = lcr3 0x300000 (hw swap_ex)" "mem pf_ex = mem pf_tables" "kend pf_ex = 0x80120000" "kbuffer pf_ex = 0x80110000"
  "km_freelist pf_ex = km_freelist pf_tables" "km_references_count pf_ex = km_references_count pf_tables"
  "ptable pf_ex = map (\<lambda>q. q\<lparr>p_pgdir := 0x80300000, p_memory_pages := [zero_page],
     p_file_pages := [zero_page\<lparr>pg_is_used := True, pg_va := 0, pg_pgdir := 0x80300000\<rparr>]\<rparr>) (ptable swap_ex)"
  by (simp_all add: pf_ex_def)

lemma pf_ex_swap: "swap_ok 0 0 0 1 pf_ex" "swap_page pf_ex = swap_page swap_ex"
proof -
  let ?s = "swap_ex\<lparr>hw := lcr3 0x300000 (hw swap_ex)\<rparr>"
  have p: "0 < length (ptable swap_ex)" using swap_ex_ok file_okD(4) [of 0 0 0 swap_ex] by (simp add: swap_ok_def)
  show "swap_ok 0 0 0 1 pf_ex"
    using swap_ok_cong(1) [of pf_ex ?s 0 0 0 1] swap_ok_lcr3(1) [where s = swap_ex and v = "0x300000"] swap_ex_ok p by (simp add: pf_ex_def)
  show "swap_page pf_ex = swap_page swap_ex"
    using swap_ok_cong(2) [of pf_ex ?s 0] swap_ok_lcr3(2) [where s = swap_ex and v = "0x300000"] p by (simp add: pf_ex_def)
qed

lemma pf_ex_fault: "page_fault 0 0 0 1 0x80300000 0x123 0 0 pf_ex" "km_avail pf_ex = {0x80303000}"
proof -
  have p: "0 < length (ptable swap_ex)" and r: "runs (hw pf_ex) 0"
    using file_okD(4) [of 0 0 0 swap_ex] file_okD(3) [of 0 0 0 pf_ex] pf_ex_swap(1) swap_ex_ok by (simp_all add: swap_ok_def)
  have k: "kmem_ready pf_ex" using r quiet_simps(2) by (simp add: kmem_ready_def runs_def)
  note t = pt_ok_transfer [OF k, of pf_tables, unfolded pf_ex_sel pf_tables_ok(4)]
  show "km_avail pf_ex = {0x80303000}" using t(2) pf_tables_ok(2) by simp
  have q: "p_pgdir (ptable pf_ex ! 0) = 0x80300000" "p_memory_pages (ptable pf_ex ! 0) = [zero_page]"
    "p_file_pages (ptable pf_ex ! 0) = [zero_page\<lparr>pg_is_used := True, pg_va := 0, pg_pgdir := 0x80300000\<rparr>]"
    using p by (simp_all add: pf_ex_sel)
  have c: "cr3 (hw pf_ex) (lapic (hw pf_ex)) = V2P 0x80300000" by (simp add: pf_ex_sel lcr3_def V2P_def)
  have e: "ptes (mem pf_ex) 0x80300000 0x123 = 0x206" by (simp add: pf_ex_sel pf_tables_ok(3))
  show "page_fault 0 0 0 1 0x80300000 0x123 0 0 pf_ex"
    unfolding page_fault_def Let_def e q(1) next_free_i_in_mem_def get_i_of_va_in_file_def q(2,3)
    using pf_ex_swap(1) c t(1) [of "0x80300000"] pf_tables_ok(1)
    by (simp add: pf_ex_sel kernel_page_def PTE_ADDR_def PGROUNDDOWN_def zero_page_def)
qed


end
