(* ===== verification/Ulib.thy ===== *)
theory Ulib
  imports Prelude
begin

text \<open>
  Routines of the user library (ulib.c) that the user programs rely on. A C string is the list of its characters
  without the final NUL; where a buffer may hold NULs the routines stop at the first one, as the code does. \<open>gets\<close> reads
  its characters from the list of those still to come on the standard input.
\<close>

section \<open>Definitions\<close>

abbreviation NUL :: char where
  "NUL \<equiv> CHR 0x00"

abbreviation NL :: char where
  "NL \<equiv> CHR 0x0A"

abbreviation CR :: char where
  "CR \<equiv> CHR 0x0D"

primrec strchr :: "string \<Rightarrow> char \<Rightarrow> nat option" where
  "strchr [] c = None"
| "strchr (x # s) c = (if x = NUL then None else if x = c then Some 0 else map_option Suc (strchr s c))"

primrec strcmp :: "string \<Rightarrow> string \<Rightarrow> int" where
  "strcmp [] q = - of_char (case q of [] \<Rightarrow> NUL | d # _ \<Rightarrow> d)"
| "strcmp (c # p) q =
     (if c \<noteq> NUL \<and> q \<noteq> [] \<and> c = hd q then strcmp p (tl q)
      else of_char c - of_char (case q of [] \<Rightarrow> NUL | d # _ \<Rightarrow> d))"

fun gets_loop :: "nat \<Rightarrow> string \<Rightarrow> string \<times> string" where
  "gets_loop 0 inp = ([], inp)"
| "gets_loop (Suc n) [] = ([], [])"
| "gets_loop (Suc n) (c # inp) =
     (if c = NL \<or> c = CR then ([c], inp) else let (b, r) = gets_loop n inp in (c # b, r))"

definition gets :: "nat \<Rightarrow> string \<Rightarrow> string \<times> string" where
  "gets mx inp = gets_loop (mx - 1) inp"

section \<open>Properties\<close>

lemma strchr_less: "strchr s c = Some k \<Longrightarrow> k < length s"
  by (induction s arbitrary: k) (auto split: if_splits)

lemma strchr_iff: "NUL \<notin> set s \<Longrightarrow> strchr s c \<noteq> None \<longleftrightarrow> c \<in> set s"
  by (induction s) auto

lemma of_char_zero: "(of_char c :: int) = 0 \<longleftrightarrow> c = NUL"
  using of_char_eq_iff [of c NUL] by (simp add: of_char_def)

lemma strcmp_eq_iff:
  assumes "NUL \<notin> set p" "NUL \<notin> set q"
  shows "strcmp p q = 0 \<longleftrightarrow> p = q"
  using assms by (induction p arbitrary: q) (auto split: list.splits simp: of_char_zero)

lemma gets_prefix: "gets mx inp = (b, r) \<Longrightarrow> inp = b @ r \<and> length b \<le> mx - 1"
proof -
  have "gets_loop n inp = (b, r) \<Longrightarrow> inp = b @ r \<and> length b \<le> n" for n
    by (induction n inp arbitrary: b rule: gets_loop.induct) (auto split: if_splits prod.splits)
  then show "gets mx inp = (b, r) \<Longrightarrow> inp = b @ r \<and> length b \<le> mx - 1" by (simp add: gets_def)
qed

end
