(* ===== verification/Grep.thy ===== *)
theory Grep
  imports Ulib
begin

text \<open>
  The search program (grep.c): the backtracking matcher for patterns with the operators
  \<open>^ . * $\<close> and the loop that reads the input through a buffer of 1024 bytes and prints the matching lines. A C string
  is the list of its characters without the final NUL, so \<open>*text == 0\<close> is \<open>text = []\<close>. What the descriptor delivers is
  the input; a read returns as much of it as fits into the buffer, or less where \<open>szs\<close> says so.
\<close>

section \<open>Definitions\<close>

fun matchhere :: "string \<Rightarrow> string \<Rightarrow> bool" and matchstar :: "char \<Rightarrow> string \<Rightarrow> string \<Rightarrow> bool" where
  "matchhere [] str = True"
| "matchhere (c # re) str =
     (if re \<noteq> [] \<and> hd re = CHR ''*'' then matchstar c (tl re) str
      else if c = CHR ''$'' \<and> re = [] then str = []
      else if str \<noteq> [] \<and> (c = CHR ''.'' \<or> c = hd str) then matchhere re (tl str)
      else False)"
| "matchstar c re str =
     (if matchhere re str then True
      else if str \<noteq> [] \<and> (hd str = c \<or> c = CHR ''.'') then matchstar c re (tl str)
      else False)"

fun match_any :: "string \<Rightarrow> string \<Rightarrow> bool" where
  "match_any re str =
     (if matchhere re str then True else if str \<noteq> [] then match_any re (tl str) else False)"

definition re_match :: "string \<Rightarrow> string \<Rightarrow> bool" where
  "re_match re str =
     (if re \<noteq> [] \<and> hd re = CHR ''^'' then matchhere (tl re) str else match_any re str)"

text \<open>The inner loop on the filled part of the buffer: what it writes and where it stops.\<close>

function grep_lines :: "string \<Rightarrow> string \<Rightarrow> string \<times> string" where
  "grep_lines pattern p =
     (case strchr p NL of
        None \<Rightarrow> ([], p)
      | Some k \<Rightarrow>
          let (w, r) = grep_lines pattern (drop (Suc k) p)
          in ((if re_match pattern (take k p) then take (Suc k) p else []) @ w, r))"
  by pat_completeness auto
termination
  by (relation "measure (\<lambda>(_, p). length p)") (use strchr_less in fastforce)+

definition read_size :: "nat list \<Rightarrow> nat \<Rightarrow> nat" where
  "read_size szs m = (case szs of [] \<Rightarrow> 1024 - m - 1 | k # _ \<Rightarrow> min (Suc k) (1024 - m - 1))"

function grep_loop :: "string \<Rightarrow> nat list \<Rightarrow> string \<Rightarrow> string \<Rightarrow> string" where
  "grep_loop pattern szs buf inp =
     (let n = read_size szs (length buf); got = take n inp; dat = buf @ got
      in if got = [] then []
         else let (w, p) = grep_lines pattern dat
              in w @ grep_loop pattern (tl szs) (if length p = length dat then [] else p) (drop n inp))"
  by pat_completeness auto
termination
  by (relation "measure (\<lambda>(_, _, _, inp). length inp)") auto

definition grep :: "string \<Rightarrow> nat list \<Rightarrow> string \<Rightarrow> string" where
  "grep pattern szs inp = grep_loop pattern szs [] inp"

declare matchhere.simps(2) [simp del] matchstar.simps [simp del] match_any.simps [simp del]
  grep_lines.simps [simp del] grep_loop.simps [simp del]

section \<open>What a pattern means\<close>

text \<open>
  A pattern is a sequence of items, one character or any number of them, with the dot standing for every character;
  a \<open>$\<close> at its end ties it to the end of the str.
\<close>

datatype item = One char | Many char

fun items :: "string \<Rightarrow> item list" where
  "items [] = []"
| "items (c # re) =
     (if re \<noteq> [] \<and> hd re = CHR ''*'' then Many c # items (tl re)
      else if c = CHR ''$'' \<and> re = [] then [] else One c # items re)"

fun at_end :: "string \<Rightarrow> bool" where
  "at_end [] = False"
| "at_end (c # re) =
     (if re \<noteq> [] \<and> hd re = CHR ''*'' then at_end (tl re) else if c = CHR ''$'' \<and> re = [] then True else at_end re)"

definition fits :: "char \<Rightarrow> char \<Rightarrow> bool" where
  "fits c t \<longleftrightarrow> c = CHR ''.'' \<or> c = t"

inductive denotes :: "item list \<Rightarrow> string \<Rightarrow> bool" where
  none: "denotes [] []"
| one: "fits c t \<Longrightarrow> denotes is w \<Longrightarrow> denotes (One c # is) (t # w)"
| skip: "denotes is w \<Longrightarrow> denotes (Many c # is) w"
| more: "fits c t \<Longrightarrow> denotes (Many c # is) w \<Longrightarrow> denotes (Many c # is) (t # w)"

inductive_simps denotes_simps: "denotes [] w" "denotes (One c # is) w"
inductive_cases denotes_ManyE: "denotes (Many c # is) w"

text \<open>A prefix of the text has the form of the pattern; with \<open>$\<close> this prefix is the whole text.\<close>

definition matches_at :: "string \<Rightarrow> string \<Rightarrow> bool" where
  "matches_at re str \<longleftrightarrow> (\<exists>u v. str = u @ v \<and> denotes (items re) u \<and> (at_end re \<longrightarrow> v = []))"

definition selects :: "string \<Rightarrow> string \<Rightarrow> bool" where
  "selects re str \<longleftrightarrow>
     (if re \<noteq> [] \<and> hd re = CHR ''^'' then matches_at (tl re) str
      else \<exists>a b. str = a @ b \<and> matches_at re b)"

lemma matches_at_Many:
  assumes "re \<noteq> []" "hd re = CHR ''*''"
  shows "matches_at (c # re) str \<longleftrightarrow>
    matches_at (tl re) str \<or> (str \<noteq> [] \<and> fits c (hd str) \<and> matches_at (c # re) (tl str))"
proof
  assume "matches_at (c # re) str"
  then obtain u v where u: "str = u @ v" "denotes (Many c # items (tl re)) u" "at_end (tl re) \<longrightarrow> v = []"
    using assms by (auto simp: matches_at_def)
  from u(2) show "matches_at (tl re) str \<or> (str \<noteq> [] \<and> fits c (hd str) \<and> matches_at (c # re) (tl str))"
    by (rule denotes_ManyE) (use u assms in \<open>auto simp: matches_at_def\<close>)
next
  assume "matches_at (tl re) str \<or> (str \<noteq> [] \<and> fits c (hd str) \<and> matches_at (c # re) (tl str))"
  then show "matches_at (c # re) str"
  proof
    assume "matches_at (tl re) str"
    then show ?thesis using assms by (auto simp: matches_at_def intro: denotes.skip)
  next
    assume a: "str \<noteq> [] \<and> fits c (hd str) \<and> matches_at (c # re) (tl str)"
    then obtain u v where u: "tl str = u @ v" "denotes (Many c # items (tl re)) u" "at_end (tl re) \<longrightarrow> v = []"
      using assms by (auto simp: matches_at_def)
    have "str = hd str # tl str" using a by simp
    then have "str = (hd str # u) @ v" "denotes (Many c # items (tl re)) (hd str # u)"
      using a u by (simp, blast intro: denotes.more)
    moreover have "items (c # re) = Many c # items (tl re)" "at_end (c # re) = at_end (tl re)" using assms by simp_all
    ultimately show ?thesis using u(3) unfolding matches_at_def by metis
  qed
qed

lemma matches_at_One:
  assumes "\<not> (re \<noteq> [] \<and> hd re = CHR ''*'')" "\<not> (c = CHR ''$'' \<and> re = [])"
  shows "matches_at (c # re) str \<longleftrightarrow> str \<noteq> [] \<and> fits c (hd str) \<and> matches_at re (tl str)"
proof -
  have i: "items (c # re) = One c # items re" "at_end (c # re) = at_end re" using assms by auto
  show ?thesis unfolding matches_at_def i denotes_simps(2) by (cases str) (auto simp: append_eq_Cons_conv Cons_eq_append_conv)
qed

lemma matcher_correct:
  "matchhere re str \<longleftrightarrow> matches_at re str"
  "matchstar c re' str' \<longleftrightarrow> matches_at (c # CHR ''*'' # re') str'"
proof (induction re str and c re' str' rule: matchhere_matchstar.induct)
  case (1 str)
  then show ?case by (auto simp: matches_at_def intro: denotes.intros)
next
  case (2 c re str)
  consider (star) "re \<noteq> [] \<and> hd re = CHR ''*''" | (dollar) "c = CHR ''$'' \<and> re = []"
    | (char) "\<not> (re \<noteq> [] \<and> hd re = CHR ''*'')" "\<not> (c = CHR ''$'' \<and> re = [])" by blast
  then show ?case
  proof cases
    case star
    then have "c # CHR ''*'' # tl re = c # re" by (metis hd_Cons_tl)
    then show ?thesis using 2(1) [OF star] star by (simp add: matchhere.simps(2))
  next
    case dollar
    then show ?thesis by (auto simp: matchhere.simps(2) matches_at_def denotes_simps)
  next
    case char
    then show ?thesis
      using 2(2) [OF char] by (auto simp: matchhere.simps(2) matches_at_One [OF char] fits_def)
  qed
next
  case (3 c re str)
  then show ?case
    by (subst matchstar.simps, subst matches_at_Many) (auto simp: fits_def)
qed

lemma match_any_correct: "match_any re str \<longleftrightarrow> (\<exists>a b. str = a @ b \<and> matches_at re b)"
proof (induction str)
  case Nil
  then show ?case by (subst match_any.simps) (simp add: matcher_correct)
next
  case (Cons t str)
  have "(\<exists>a b. t # str = a @ b \<and> matches_at re b) \<longleftrightarrow> matches_at re (t # str) \<or> (\<exists>a b. str = a @ b \<and> matches_at re b)"
    by (auto simp: Cons_eq_append_conv)
  then show ?case using Cons by (subst match_any.simps) (simp add: matcher_correct)
qed

lemma re_match_selects: "re_match re str \<longleftrightarrow> selects re str"
  by (simp add: re_match_def selects_def matcher_correct match_any_correct)

section \<open>Lines\<close>

text \<open>The complete lines of a text and what follows the last newline, with \<open>acc\<close> the line read so far.\<close>

primrec split_lines :: "string \<Rightarrow> string \<Rightarrow> string list \<times> string" where
  "split_lines acc [] = ([], acc)"
| "split_lines acc (c # s) =
     (if c = NL then (acc # fst (split_lines [] s), snd (split_lines [] s)) else split_lines (acc @ [c]) s)"

definition lines :: "string \<Rightarrow> string list" where
  "lines s = fst (split_lines [] s)"

text \<open>What \<open>grep\<close> has to print of a list of lines.\<close>

definition shown :: "string \<Rightarrow> string list \<Rightarrow> string" where
  "shown re ls = concat (map (\<lambda>l. l @ [NL]) (filter (selects re) ls))"

lemma shown_simps [simp]:
  "shown re [] = []" "shown re (l # ls) = (if selects re l then l @ [NL] else []) @ shown re ls"
  "shown re (ls @ ls') = shown re ls @ shown re ls'"
  by (simp_all add: shown_def)

lemma split_no_newline: "NL \<notin> set s \<Longrightarrow> split_lines acc s = ([], acc @ s)"
  by (induction s arbitrary: acc) auto

lemma split_lines_append:
  "split_lines acc (s @ t) =
     (fst (split_lines acc s) @ fst (split_lines (snd (split_lines acc s)) t), snd (split_lines (snd (split_lines acc s)) t))"
  by (induction s arbitrary: acc) auto

lemma split_rest: "NL \<notin> set acc \<Longrightarrow> NL \<notin> set (snd (split_lines acc s))"
  by (induction s arbitrary: acc) auto

lemma split_newline: "NL \<notin> set s \<Longrightarrow> split_lines [] (s @ NL # t) = (s # lines t, snd (split_lines [] t))"
  by (simp add: split_lines_append split_no_newline lines_def)

lemma split_length: "length (snd (split_lines acc s)) \<le> length acc + length s"
proof (induction s arbitrary: acc)
  case (Cons c s)
  then show ?case using Cons [of "[]"] Cons [of "acc @ [c]"] by simp
qed simp

lemma split_reset: "split_lines acc s = ([], acc @ s) \<or> length (snd (split_lines acc s)) < length s"
proof (induction s arbitrary: acc)
  case (Cons c s)
  then show ?case using split_length [of "[]" s] Cons [of "acc @ [c]"] by auto
qed simp

lemma strchr_newline:
  assumes "NUL \<notin> set p"
  shows "strchr p NL = None \<Longrightarrow> NL \<notin> set p"
    and "strchr p NL = Some k \<Longrightarrow> NL \<notin> set (take k p) \<and> p = take k p @ NL # drop (Suc k) p"
  using assms by (induction p arbitrary: k) (auto split: if_splits)

lemma grep_lines_shows:
  "NUL \<notin> set p \<Longrightarrow> grep_lines re p = (shown re (lines p), snd (split_lines [] p))"
proof (induction re p rule: grep_lines.induct)
  case (1 re p)
  show ?case
  proof (cases "strchr p NL")
    case None
    then have "split_lines [] p = ([], p)" using strchr_newline(1) [OF 1(2)] by (simp add: split_no_newline)
    then show ?thesis using None by (subst grep_lines.simps) (simp add: lines_def)
  next
    case (Some k)
    note k = strchr_newline(2) [OF 1(2) Some]
    have s: "split_lines [] p = (take k p # lines (drop (Suc k) p), snd (split_lines [] (drop (Suc k) p)))"
      using split_newline k by metis
    have t: "take (Suc k) p = take k p @ [NL]"
      using k strchr_less [OF Some] by (metis append_take_drop_id take_Suc_conv_app_nth nth_append_length length_take min.absorb2 less_imp_le)
    have "NUL \<notin> set (drop (Suc k) p)" using 1(2) by (meson in_set_dropD)
    then show ?thesis
      using 1(1) [OF Some] Some s t by (subst grep_lines.simps) (simp add: lines_def re_match_selects)
  qed
qed

lemma split_set: "set (snd (split_lines acc s)) \<subseteq> set acc \<union> set s"
  by (induction s arbitrary: acc) (auto, fastforce+)

text \<open>Lines read through the buffer: the unfinished line is kept, and given up if it fills the buffer.\<close>

lemma lines_refill:
  assumes "\<forall>l \<in> set (lines (dat @ more)). length l < 1023" and "length dat = 1023 \<or> more = []"
    and "rest = (if length (snd (split_lines [] dat)) = length dat then [] else snd (split_lines [] dat))"
  shows "lines (dat @ more) = lines dat @ lines (rest @ more)"
proof (cases "length (snd (split_lines [] dat)) = length dat")
  case False
  have "NL \<notin> set rest" using split_rest [of "[]" dat] assms(3) by auto
  then have "split_lines [] (rest @ more) = split_lines rest more" by (simp add: split_lines_append split_no_newline)
  then show ?thesis using False assms(3) by (simp add: lines_def split_lines_append)
next
  case True
  then have d: "split_lines [] dat = ([], dat)" using split_reset [of "[]" dat] by auto
  then have "lines (dat @ more) = fst (split_lines dat more)" by (simp add: lines_def split_lines_append)
  moreover have "NL \<notin> set more"
  proof
    assume "NL \<in> set more"
    then obtain a b where m: "more = a @ NL # b" "NL \<notin> set a" by (meson split_list_first)
    then have "lines (dat @ more) = (dat @ a) # lines b"
      using d by (simp add: lines_def split_lines_append split_no_newline)
    moreover have "length dat = 1023" using assms(2) m(1) by simp
    ultimately show False using assms(1) by simp
  qed
  ultimately show ?thesis using True assms(3) d by (simp add: lines_def split_no_newline)
qed

text \<open>A line longer than the buffer is the only reason to lose one: with \<open>m\<close> bytes kept, the rest of the buffer is filled.\<close>

lemma grep_loop_shows:
  assumes "NUL \<notin> set buf" "NUL \<notin> set inp" "NL \<notin> set buf" "length buf < 1023" "\<forall>l \<in> set (lines (buf @ inp)). length l < 1023"
  shows "grep_loop re [] buf inp = shown re (lines (buf @ inp))"
  using assms
proof (induction "length inp" arbitrary: buf inp rule: less_induct)
  case less
  define n where "n = 1023 - length buf"
  define dat where "dat = buf @ take n inp"
  define rest where "rest = (if length (snd (split_lines [] dat)) = length dat then [] else snd (split_lines [] dat))"
  have r: "read_size [] (length buf) = n" by (simp add: read_size_def n_def)
  show ?case
  proof (cases "inp = []")
    case True
    then have "lines (buf @ inp) = []" using less.prems(3) by (simp add: lines_def split_no_newline)
    then show ?thesis using True by (subst grep_loop.simps) (simp add: Let_def)
  next
    case False
    have n: "0 < n" using less.prems(4) by (simp add: n_def)
    have z: "NUL \<notin> set dat" using less.prems(1,2) by (auto simp: dat_def dest: in_set_takeD)
    have e: "grep_loop re [] buf inp = shown re (lines dat) @ grep_loop re [] rest (drop n inp)"
      using False n by (subst grep_loop.simps)
        (simp add: Let_def r dat_def [symmetric] grep_lines_shows [OF z] rest_def del: if_split_asm)
    have w: "buf @ inp = dat @ drop n inp" by (simp add: dat_def)
    have l: "lines (buf @ inp) = lines dat @ lines (rest @ drop n inp)"
      using less.prems(4,5) unfolding w by (intro lines_refill) (auto simp: dat_def rest_def n_def)
    have rest: "NL \<notin> set rest" "length rest < 1023" "NUL \<notin> set rest"
      using split_rest [of "[]" dat] split_reset [of "[]" dat] z split_set [of "[]" dat] less.prems(4)
      by (auto simp: rest_def dat_def n_def)
    have "grep_loop re [] rest (drop n inp) = shown re (lines (rest @ drop n inp))"
      using False n less.prems(2,5) rest l by (intro less.hyps) (auto dest: in_set_dropD)
    then show ?thesis unfolding e l by simp
  qed
qed

section \<open>The program\<close>


definition grep_ex :: string where
  "grep_ex = ''abc'' @ [NL] @ ''xac'' @ [NL] @ ''ac'' @ [NL] @ ''acd'' @ [NL] @ ''a.c''"

lemma grep_ex_lines: "lines grep_ex = [''abc'', ''xac'', ''ac'', ''acd'']"
  by code_simp


text \<open>
  With reads that return less than there is room for, as from a pipe, a line is lost in part: a piece without a newline
  at the start of the buffer is dropped (\<open>if(p == buf) m = 0\<close>) although the buffer is not full.
\<close>

lemma grep_short_read_drops: "grep ''ab'' [0] (''ab'' @ [NL]) = []" "grep ''b'' [0] (''ab'' @ [NL]) = ''b'' @ [NL]"
  by code_simp+

end
