(* ===== verification/Shell.thy ===== *)
theory Shell
  imports Ulib
begin

text \<open>
  The parser of the shell (sh.c). The command line is a buffer of characters; a position in it is an index, and the
  terminating NUL is what is read from its end on. A parsing function takes the buffer, the end \<open>es\<close> and the position
  \<open>*ps\<close>; its outcome carries the new position as state. Words of the command are pairs of positions (\<open>q\<close>, \<open>eq\<close>) that
  \<open>nulterminate\<close> turns into C strings in the buffer. The recursive functions and loops count down a number \<open>n\<close>, which
  \<open>parsecmd\<close> chooses large enough for every input (\<open>parsecmd_returns\<close>). Not modelled: \<open>runcmd\<close>, which only issues
  system calls, and the message about leftovers.
\<close>

section \<open>Definitions\<close>

subsection \<open>Commands\<close>

abbreviation O_RDONLY :: nat where
  "O_RDONLY \<equiv> 0"

abbreviation O_WRONLY_CREATE :: nat where
  "O_WRONLY_CREATE \<equiv> 0x201"

abbreviation MAXARGS :: nat where
  "MAXARGS \<equiv> 10"

datatype 'a cmd =
  EXEC "'a list"
| REDIR "'a cmd" 'a nat nat
| PIPE "'a cmd" "'a cmd"
| LIST "'a cmd" "'a cmd"
| BACK "'a cmd"

type_synonym pcmd = "(nat \<times> nat) cmd"

definition execcmd :: pcmd where
  "execcmd = EXEC []"

definition redircmd :: "pcmd \<Rightarrow> nat \<Rightarrow> nat \<Rightarrow> nat \<Rightarrow> nat \<Rightarrow> pcmd" where
  "redircmd subcmd file efile mode fd = REDIR subcmd (file, efile) mode fd"

definition pipecmd :: "pcmd \<Rightarrow> pcmd \<Rightarrow> pcmd" where
  "pipecmd left right = PIPE left right"

definition listcmd :: "pcmd \<Rightarrow> pcmd \<Rightarrow> pcmd" where
  "listcmd left right = LIST left right"

definition backcmd :: "pcmd \<Rightarrow> pcmd" where
  "backcmd subcmd = BACK subcmd"

subsection \<open>Tokens\<close>

definition whitespace :: string where
  "whitespace = [CHR '' '', CHR 0x09, CR, NL, CHR 0x0B]"

definition symbols :: string where
  "symbols = ''<|>&;()''"

definition is_ws :: "char \<Rightarrow> bool" where
  "is_ws c = (strchr whitespace c \<noteq> None)"

definition is_sym :: "char \<Rightarrow> bool" where
  "is_sym c = (strchr symbols c \<noteq> None)"

definition char_at :: "string \<Rightarrow> nat \<Rightarrow> char" where
  "char_at buf s = (if s < length buf then buf ! s else NUL)"

function skip_while :: "(char \<Rightarrow> bool) \<Rightarrow> string \<Rightarrow> nat \<Rightarrow> nat \<Rightarrow> nat" where
  "skip_while P buf es s = (if s < es \<and> P (char_at buf s) then skip_while P buf es (Suc s) else s)"
  by pat_completeness auto
termination
  by (relation "measure (\<lambda>(_, _, es, s). es - s)") auto

declare skip_while.simps [simp del]

definition gettoken :: "string \<Rightarrow> nat \<Rightarrow> nat \<Rightarrow> char \<times> nat \<times> nat \<times> nat" where
  "gettoken buf es ps =
     (let s = skip_while is_ws buf es ps;
          q = s;
          c = char_at buf s;
          (ret, s) =
            (if c = NUL then (c, s)
             else if c = CHR ''|'' \<or> c = CHR ''('' \<or> c = CHR '')'' \<or> c = CHR '';'' \<or> c = CHR ''&'' \<or> c = CHR ''<''
             then (c, Suc s)
             else if c = CHR ''>''
             then if char_at buf (Suc s) = CHR ''>'' then (CHR ''+'', Suc (Suc s)) else (c, Suc s)
             else (CHR ''a'', skip_while (\<lambda>c. \<not> is_ws c \<and> \<not> is_sym c) buf es s))
      in (ret, q, s, skip_while is_ws buf es s))"

definition peek :: "string \<Rightarrow> nat \<Rightarrow> string \<Rightarrow> nat \<Rightarrow> bool \<times> nat" where
  "peek buf es toks ps =
     (let s = skip_while is_ws buf es ps in (char_at buf s \<noteq> NUL \<and> strchr toks (char_at buf s) \<noteq> None, s))"

subsection \<open>Parsing\<close>

primrec parseredirs :: "nat \<Rightarrow> string \<Rightarrow> nat \<Rightarrow> pcmd \<Rightarrow> nat \<Rightarrow> (pcmd, nat) out" where
  "parseredirs 0 buf es cmd ps = Hang ''parseredirs''"
| "parseredirs (Suc n) buf es cmd ps =
     (let (b, ps) = peek buf es ''<>'' ps
      in if b
         then let (tok, _, _, ps) = gettoken buf es ps;
                  (tok', q, eq, ps) = gettoken buf es ps
              in if tok' \<noteq> CHR ''a'' then Panic ''missing file for redirection''
                 else parseredirs n buf es
                   (if tok = CHR ''<'' then redircmd cmd q eq O_RDONLY 0
                    else if tok = CHR ''>'' then redircmd cmd q eq O_WRONLY_CREATE 1
                    else if tok = CHR ''+'' then redircmd cmd q eq O_WRONLY_CREATE 1 else cmd) ps
         else Ok cmd ps)"

text \<open>\<open>cmd->argv[argc] = q\<close>: the struct of the program to run is inside the redirections wrapped around it so far.\<close>

primrec add_arg :: "nat \<times> nat \<Rightarrow> pcmd \<Rightarrow> pcmd" where
  "add_arg a (EXEC as) = EXEC (as @ [a])"
| "add_arg a (REDIR c f mode fd) = REDIR (add_arg a c) f mode fd"
| "add_arg a (PIPE c d) = PIPE c d"
| "add_arg a (LIST c d) = LIST c d"
| "add_arg a (BACK c) = BACK c"

primrec parseargs :: "nat \<Rightarrow> string \<Rightarrow> nat \<Rightarrow> nat \<Rightarrow> pcmd \<Rightarrow> nat \<Rightarrow> (pcmd, nat) out" where
  "parseargs 0 buf es argc ret ps = Hang ''parseexec''"
| "parseargs (Suc n) buf es argc ret ps =
     (let (b, ps) = peek buf es ''|)&;'' ps
      in if b then Ok ret ps
         else let (tok, q, eq, ps) = gettoken buf es ps
              in if tok = NUL then Ok ret ps
                 else if tok \<noteq> CHR ''a'' then Panic ''syntax''
                 else if MAXARGS \<le> Suc argc then Panic ''too many args''
                 else andthen (parseredirs n buf es (add_arg (q, eq) ret) ps) (\<lambda>ret ps.
                   parseargs n buf es (Suc argc) ret ps))"

primrec parsebacks :: "nat \<Rightarrow> string \<Rightarrow> nat \<Rightarrow> pcmd \<Rightarrow> nat \<Rightarrow> (pcmd, nat) out" where
  "parsebacks 0 buf es cmd ps = Hang ''parseline''"
| "parsebacks (Suc n) buf es cmd ps =
     (let (b, ps) = peek buf es ''&'' ps
      in if b then let (_, _, _, ps) = gettoken buf es ps in parsebacks n buf es (backcmd cmd) ps else Ok cmd ps)"

text \<open>
  \<open>parseline\<close> calls \<open>parsepipe\<close>, which calls \<open>parseexec\<close>, which calls \<open>parseblock\<close>, which calls \<open>parseline\<close> again on what is
  inside the parentheses; this last call is the parameter \<open>line\<close>.
\<close>

definition parseblock ::
  "(nat \<Rightarrow> (pcmd, nat) out) \<Rightarrow> nat \<Rightarrow> string \<Rightarrow> nat \<Rightarrow> nat \<Rightarrow> (pcmd, nat) out" where
  "parseblock line n buf es ps =
     (let (b, ps) = peek buf es ''('' ps
      in if \<not> b then Panic ''parseblock''
         else let (_, _, _, ps) = gettoken buf es ps
              in andthen (line ps) (\<lambda>cmd ps.
                 let (b, ps) = peek buf es '')'' ps
                 in if \<not> b then Panic ''syntax - missing )''
                    else let (_, _, _, ps) = gettoken buf es ps in parseredirs n buf es cmd ps))"

definition parseexec ::
  "(nat \<Rightarrow> (pcmd, nat) out) \<Rightarrow> nat \<Rightarrow> string \<Rightarrow> nat \<Rightarrow> nat \<Rightarrow> (pcmd, nat) out" where
  "parseexec line n buf es ps =
     (let (b, ps) = peek buf es ''('' ps
      in if b then parseblock line n buf es ps
         else andthen (parseredirs n buf es execcmd ps) (\<lambda>ret ps. parseargs n buf es 0 ret ps))"

primrec parsepipe ::
  "(nat \<Rightarrow> (pcmd, nat) out) \<Rightarrow> nat \<Rightarrow> string \<Rightarrow> nat \<Rightarrow> nat \<Rightarrow> (pcmd, nat) out" where
  "parsepipe line 0 buf es ps = Hang ''parsepipe''"
| "parsepipe line (Suc n) buf es ps =
     andthen (parseexec line n buf es ps) (\<lambda>cmd ps.
     let (b, ps) = peek buf es ''|'' ps
     in if b
        then let (_, _, _, ps) = gettoken buf es ps
             in andthen (parsepipe line n buf es ps) (\<lambda>right ps. Ok (pipecmd cmd right) ps)
        else Ok cmd ps)"

primrec parseline :: "nat \<Rightarrow> string \<Rightarrow> nat \<Rightarrow> nat \<Rightarrow> (pcmd, nat) out" where
  "parseline 0 buf es ps = Hang ''parseline''"
| "parseline (Suc n) buf es ps =
     andthen (parsepipe (parseline n buf es) n buf es ps) (\<lambda>cmd ps.
     andthen (parsebacks n buf es cmd ps) (\<lambda>cmd ps.
     let (b, ps) = peek buf es '';'' ps
     in if b
        then let (_, _, _, ps) = gettoken buf es ps
             in andthen (parseline n buf es ps) (\<lambda>right ps. Ok (listcmd cmd right) ps)
        else Ok cmd ps))"

subsection \<open>Terminating the words\<close>

primrec nulterminate :: "pcmd \<Rightarrow> string \<Rightarrow> string" where
  "nulterminate (EXEC as) buf = foldl (\<lambda>buf (q, eq). buf[eq := NUL]) buf as"
| "nulterminate (REDIR c f mode fd) buf = (nulterminate c buf)[snd f := NUL]"
| "nulterminate (PIPE c d) buf = nulterminate d (nulterminate c buf)"
| "nulterminate (LIST c d) buf = nulterminate d (nulterminate c buf)"
| "nulterminate (BACK c) buf = nulterminate c buf"

definition parsecmd :: "string \<Rightarrow> (pcmd \<times> string, nat) out" where
  "parsecmd buf =
     (let es = length (takeWhile ((\<noteq>) NUL) buf)
      in andthen (parseline (es + 4) buf es 0) (\<lambda>cmd ps.
         let (_, s) = peek buf es [] ps
         in if s \<noteq> es then Panic ''syntax'' else Ok (cmd, nulterminate cmd buf) s))"

text \<open>Reading and dispatching command lines: \<open>cd\<close> is done by the shell, every other line is parsed and run by a child.\<close>

definition getcmd :: "nat \<Rightarrow> string \<Rightarrow> (string \<times> string) option" where
  "getcmd nbuf inp = (let (buf, r) = gets nbuf inp in if buf = [] \<or> hd buf = NUL then None else Some (buf, r))"

datatype action = Chdir string | Run "(pcmd \<times> string, nat) out"

lemma getcmd_shorter: "getcmd nbuf inp = Some (buf, r) \<Longrightarrow> length r < length inp"
  using gets_prefix [of nbuf inp] by (auto simp: getcmd_def split: prod.splits if_splits)

function sh_loop :: "string \<Rightarrow> action list" where
  "sh_loop inp =
     (case getcmd 100 inp of
        None \<Rightarrow> []
      | Some (buf, r) \<Rightarrow>
          (if take 3 buf = ''cd ''
           then Chdir (drop 3 (butlast (takeWhile ((\<noteq>) NUL) buf)))
           else Run (parsecmd buf)) # sh_loop r)"
  by pat_completeness auto
termination
  by (relation "measure length") (auto dest: getcmd_shorter)

declare sh_loop.simps [simp del]

section \<open>The parser always returns\<close>

definition line_end :: "string \<Rightarrow> nat \<Rightarrow> bool" where
  "line_end buf es \<longleftrightarrow> es = length (takeWhile ((\<noteq>) NUL) buf)"

lemma line_endD:
  assumes "line_end buf es"
  shows "s < es \<Longrightarrow> char_at buf s \<noteq> NUL" "char_at buf es = NUL" "es \<le> length buf"
proof -
  have e: "es = length (takeWhile ((\<noteq>) NUL) buf)" using assms by (simp add: line_end_def)
  show l: "es \<le> length buf" unfolding e by (rule length_takeWhile_le)
  show "char_at buf s \<noteq> NUL" if "s < es"
    using that l nth_mem [of s "takeWhile ((\<noteq>) NUL) buf"] takeWhile_nth [of s "(\<noteq>) NUL" buf] set_takeWhileD
    unfolding e char_at_def by fastforce
  show "char_at buf es = NUL" using nth_length_takeWhile [of "(\<noteq>) NUL" buf] unfolding e char_at_def by auto
qed

lemma skip_while_props:
  "s \<le> skip_while P buf es s \<and> (s \<le> es \<longrightarrow> skip_while P buf es s \<le> es) \<and>
   (skip_while P buf es s < es \<longrightarrow> \<not> P (char_at buf (skip_while P buf es s)))"
proof (induction P buf es s rule: skip_while.induct)
  case (1 P buf es s)
  then show ?case by (cases "s < es \<and> P (char_at buf s)") (auto simp: skip_while.simps [of P buf es s])
qed

lemmas skip_while_mono = skip_while_props [THEN conjunct1]
lemmas skip_while_le = skip_while_props [THEN conjunct2, THEN conjunct1, rule_format]
lemmas skip_while_stop = skip_while_props [THEN conjunct2, THEN conjunct2, rule_format]

lemma skip_while_step: "s < es \<Longrightarrow> P (char_at buf s) \<Longrightarrow> s < skip_while P buf es s"
  using skip_while_mono [of "Suc s" P buf es] by (subst skip_while.simps) simp

lemma is_ws_iff: "is_ws c \<longleftrightarrow> c \<in> {CHR '' '', CHR 0x09, CR, NL, CHR 0x0B}"
  unfolding is_ws_def by (subst strchr_iff) (auto simp: whitespace_def)

lemma is_sym_iff: "is_sym c \<longleftrightarrow> c \<in> set ''<|>&;()''"
  unfolding is_sym_def by (subst strchr_iff) (auto simp: symbols_def)

lemma peek_progress:
  assumes "line_end buf es" "ps \<le> es" "peek buf es toks ps = (b, p)"
  shows "ps \<le> p" "p \<le> es" "b \<Longrightarrow> p < es"
  using assms skip_while_mono [of ps is_ws buf es] skip_while_le [of ps es is_ws buf] line_endD(2) [OF assms(1)]
  by (auto simp: peek_def Let_def le_less)

lemma gettoken_progress:
  assumes "line_end buf es" "ps \<le> es" "gettoken buf es ps = (tok, q, eq, p)"
  shows "ps \<le> p" "p \<le> es" "tok \<noteq> NUL \<Longrightarrow> ps < p" "tok = NUL \<longleftrightarrow> skip_while is_ws buf es ps = es"
proof -
  define s where "s = skip_while is_ws buf es ps"
  have s: "ps \<le> s" "s \<le> es" "s < es \<Longrightarrow> \<not> is_ws (char_at buf s)" "s < es \<longleftrightarrow> char_at buf s \<noteq> NUL"
    using skip_while_props [of ps is_ws buf es] assms(2) line_endD(1,2) [OF assms(1)] by (auto simp: s_def le_less)
  define t where "t = (if char_at buf s = NUL then s
             else if char_at buf s \<in> set ''|();&<'' then Suc s
             else if char_at buf s = CHR ''>'' then if char_at buf (Suc s) = CHR ''>'' then Suc (Suc s) else Suc s
             else skip_while (\<lambda>c. \<not> is_ws c \<and> \<not> is_sym c) buf es s)"
  have p: "p = skip_while is_ws buf es t" and tok: "tok = NUL \<longleftrightarrow> char_at buf s = NUL"
    using assms(3) by (auto simp: gettoken_def Let_def s_def [symmetric] t_def split: if_splits)
  have t: "s \<le> t \<and> t \<le> es \<and> (s < es \<longrightarrow> s < t)"
  proof (cases "s < es")
    case False
    then show ?thesis using s(2,4) by (simp add: t_def)
  next
    case True
    let ?P = "\<lambda>c. \<not> is_ws c \<and> \<not> is_sym c"
    have g: "char_at buf (Suc s) = CHR ''>'' \<longrightarrow> Suc s < es"
      using True line_endD(2) [OF assms(1)] by (cases "Suc s = es") auto
    have w: "\<not> is_sym (char_at buf s) \<longrightarrow> s < skip_while ?P buf es s" using True s(3) by (simp add: skip_while_step)
    have l: "skip_while ?P buf es s \<le> es" using skip_while_le [of s es ?P buf] s(2) by simp
    show ?thesis
    proof (cases "is_sym (char_at buf s)")
      case True
      then show ?thesis using \<open>s < es\<close> g s(4) by (auto simp: t_def is_sym_iff)
    next
      case False
      then have "t = skip_while ?P buf es s" using \<open>s < es\<close> s(4) by (auto simp: t_def is_sym_iff)
      then show ?thesis using w l False by auto
    qed
  qed
  show "ps \<le> p" "p \<le> es" "tok \<noteq> NUL \<Longrightarrow> ps < p" "tok = NUL \<longleftrightarrow> skip_while is_ws buf es ps = es"
    using s t tok skip_while_mono [of t is_ws buf es] skip_while_le [of t es is_ws buf] unfolding p s_def [symmetric] by auto
qed

text \<open>An outcome of the parser from position \<open>ps\<close>: a command and a later position, or a reported syntax error.\<close>

definition ends :: "nat \<Rightarrow> nat \<Rightarrow> ('a, nat) out \<Rightarrow> bool" where
  "ends ps es r \<longleftrightarrow> (\<exists>x p. r = Ok x p \<and> ps \<le> p \<and> p \<le> es) \<or> (\<exists>m. r = Panic m)"

lemma ends_simps [simp]: "ends ps es (Ok x p) \<longleftrightarrow> ps \<le> p \<and> p \<le> es" "ends ps es (Panic m)"
  by (auto simp: ends_def)

lemma ends_andthen:
  assumes "ends ps es r" "\<And>x p. r = Ok x p \<Longrightarrow> ps \<le> p \<Longrightarrow> p \<le> es \<Longrightarrow> ends p es (f x p)"
  shows "ends ps es (andthen r f)"
  using assms by (auto simp: ends_def)

lemma ends_mono: "ends p es r \<Longrightarrow> ps \<le> p \<Longrightarrow> ends ps es r"
  by (auto simp: ends_def)

text \<open>A token that \<open>peek\<close> has seen is taken by \<open>gettoken\<close>.\<close>

lemma skip_while_idem: "skip_while P buf es (skip_while P buf es s) = skip_while P buf es s"
  using skip_while_stop [of P buf es s] by (subst skip_while.simps) auto

lemma peek_then_token:
  assumes "line_end buf es" "ps \<le> es" "peek buf es toks ps = (b, p)" "b" "gettoken buf es p = (tok, q, eq, p')"
  shows "p < p' \<and> p' \<le> es"
proof -
  note pp = peek_progress [OF assms(1-3)]
  have "skip_while is_ws buf es p = p" using assms(3) by (auto simp: peek_def Let_def skip_while_idem)
  then show ?thesis using gettoken_progress [OF assms(1) pp(2) assms(5)] pp(3) [OF assms(4)] by auto
qed

lemma parseredirs_ends:
  assumes "line_end buf es"
  shows "ps \<le> es \<Longrightarrow> es - ps < n \<Longrightarrow> ends ps es (parseredirs n buf es cmd ps)"
proof (induction n arbitrary: cmd ps)
  case (Suc n)
  obtain b p where p: "peek buf es ''<>'' ps = (b, p)" by force
  note pp = peek_progress [OF assms Suc.prems(1) p]
  obtain tok q eq p1 where t1: "gettoken buf es p = (tok, q, eq, p1)" by (metis prod_cases4)
  note g1 = gettoken_progress [OF assms pp(2) t1]
  obtain tok' q' eq' p2 where t2: "gettoken buf es p1 = (tok', q', eq', p2)" by (metis prod_cases4)
  note g2 = gettoken_progress [OF assms g1(2) t2]
  have "ends ps es (parseredirs n buf es c p2)" if "tok' = CHR ''a''" for c
    using Suc.IH [of p2 c] Suc.prems pp(1) g1(1) g2(1-3) that by (intro ends_mono [OF Suc.IH [of p2 c]]) auto
  then show ?case using p t1 t2 pp by simp
qed simp

lemma parseargs_ends:
  assumes "line_end buf es"
  shows "ps \<le> es \<Longrightarrow> es - ps < n \<Longrightarrow> ends ps es (parseargs n buf es argc ret ps)"
proof (induction n arbitrary: argc ret ps)
  case (Suc n)
  obtain b p where p: "peek buf es ''|)&;'' ps = (b, p)" by force
  note pp = peek_progress [OF assms Suc.prems(1) p]
  obtain tok q eq p1 where t1: "gettoken buf es p = (tok, q, eq, p1)" by (metis prod_cases4)
  note g1 = gettoken_progress [OF assms pp(2) t1]
  have "ends ps es (andthen (parseredirs n buf es (add_arg (q, eq) ret) p1) (\<lambda>ret ps. parseargs n buf es (Suc argc) ret ps))"
    if "tok \<noteq> NUL"
    using Suc.prems pp(1) g1(1-3) that
    by (intro ends_mono [OF ends_andthen [of p1]] parseredirs_ends [OF assms] Suc.IH) auto
  then show ?case using p t1 pp(1,2) g1(1,2) by (auto simp: Let_def)
qed simp

lemma parsebacks_ends:
  assumes "line_end buf es"
  shows "ps \<le> es \<Longrightarrow> es - ps < n \<Longrightarrow> ends ps es (parsebacks n buf es cmd ps)"
proof (induction n arbitrary: cmd ps)
  case (Suc n)
  obtain b p where p: "peek buf es ''&'' ps = (b, p)" by force
  note pp = peek_progress [OF assms Suc.prems(1) p]
  obtain tok q eq p1 where t1: "gettoken buf es p = (tok, q, eq, p1)" by (metis prod_cases4)
  note g1 = gettoken_progress [OF assms pp(2) t1]
  have "b \<Longrightarrow> ends ps es (parsebacks n buf es (backcmd cmd) p1)"
    using Suc.prems pp peek_then_token [OF assms Suc.prems(1) p _ t1]
    by (intro ends_mono [OF Suc.IH [of p1 "backcmd cmd"]]) auto
  then show ?case using p t1 pp by simp
qed simp

lemma parseblock_ends:
  assumes "line_end buf es" and "ps \<le> es" and "es - ps < n" and "\<And>p. ps < p \<Longrightarrow> p \<le> es \<Longrightarrow> ends p es (line p)"
  shows "ends ps es (parseblock line n buf es ps)"
proof -
  obtain b p where p: "peek buf es ''('' ps = (b, p)" by force
  note pp = peek_progress [OF assms(1,2) p]
  obtain tok q eq p1 where t1: "gettoken buf es p = (tok, q, eq, p1)" by (metis prod_cases4)
  define close where "close = (\<lambda>cmd ps. let (b, ps) = peek buf es '')'' ps
                 in if \<not> b then Panic ''syntax - missing )''
                    else let (_, _, _, ps) = gettoken buf es ps in parseredirs n buf es cmd ps)"
  have c: "ends r es (close cmd r)" if r: "ps \<le> r" "r \<le> es" for cmd r
  proof -
    obtain b p where p: "peek buf es '')'' r = (b, p)" by force
    note pp = peek_progress [OF assms(1) r(2) p]
    obtain tok q eq p1 where t1: "gettoken buf es p = (tok, q, eq, p1)" by (metis prod_cases4)
    have "b \<Longrightarrow> ends r es (parseredirs n buf es cmd p1)"
      using assms(3) r pp peek_then_token [OF assms(1) r(2) p _ t1]
      by (intro ends_mono [OF parseredirs_ends [OF assms(1)]]) auto
    then show ?thesis using p t1 by (simp add: close_def)
  qed
  have "b \<Longrightarrow> ends ps es (andthen (line p1) close)"
    using assms(4) pp peek_then_token [OF assms(1,2) p _ t1] c by (intro ends_mono [OF ends_andthen [of p1]]) auto
  then show ?thesis using p t1 by (cases b) (simp_all add: parseblock_def close_def)
qed

lemma parseexec_ends:
  assumes "line_end buf es" and "ps \<le> es" and "es - ps < n" and "\<And>p. ps < p \<Longrightarrow> p \<le> es \<Longrightarrow> ends p es (line p)"
  shows "ends ps es (parseexec line n buf es ps)"
proof -
  obtain b p where p: "peek buf es ''('' ps = (b, p)" by force
  note pp = peek_progress [OF assms(1,2) p]
  have "ends p es (parseblock line n buf es p)"
    using assms pp by (intro parseblock_ends) auto
  moreover have "ends p es (andthen (parseredirs n buf es execcmd p) (\<lambda>ret ps. parseargs n buf es 0 ret ps))"
    using assms(1-3) pp by (intro ends_andthen parseredirs_ends parseargs_ends) auto
  ultimately show ?thesis using p pp(1) by (simp add: parseexec_def ends_mono)
qed

lemma parsepipe_ends:
  assumes "line_end buf es"
  shows "ps \<le> es \<Longrightarrow> Suc (es - ps) < n \<Longrightarrow> (\<And>p. ps < p \<Longrightarrow> p \<le> es \<Longrightarrow> ends p es (line p)) \<Longrightarrow>
    ends ps es (parsepipe line n buf es ps)"
proof (induction n arbitrary: ps)
  case (Suc n)
  define cont where "cont = (\<lambda>cmd ps. let (b, ps) = peek buf es ''|'' ps
     in if b
        then let (_, _, _, ps) = gettoken buf es ps
             in andthen (parsepipe line n buf es ps) (\<lambda>right ps. Ok (pipecmd cmd right) ps)
        else Ok cmd ps)"
  have "ends r es (cont cmd r)" if r: "ps \<le> r" "r \<le> es" for cmd r
  proof -
    obtain b p where p: "peek buf es ''|'' r = (b, p)" by force
    note pp = peek_progress [OF assms(1) r(2) p]
    obtain tok q eq p1 where t1: "gettoken buf es p = (tok, q, eq, p1)" by (metis prod_cases4)
    have "b \<Longrightarrow> ends r es (andthen (parsepipe line n buf es p1) (\<lambda>right ps. Ok (pipecmd cmd right) ps))"
      using Suc.prems r pp peek_then_token [OF assms(1) r(2) p _ t1]
      by (intro ends_mono [OF ends_andthen [OF Suc.IH [of p1]]]) auto
    then show ?thesis using p t1 pp by (simp add: cont_def)
  qed
  moreover have "ends ps es (parseexec line n buf es ps)" using Suc.prems assms by (intro parseexec_ends) auto
  ultimately have "ends ps es (andthen (parseexec line n buf es ps) cont)" by (intro ends_andthen) auto
  then show ?case by (simp add: cont_def)
qed simp

lemma parseline_ends:
  assumes "line_end buf es"
  shows "ps \<le> es \<Longrightarrow> Suc (Suc (es - ps)) < n \<Longrightarrow> ends ps es (parseline n buf es ps)"
proof (induction n arbitrary: ps)
  case (Suc n)
  define cont where "cont = (\<lambda>cmd ps. let (b, ps) = peek buf es '';'' ps
     in if b
        then let (_, _, _, ps) = gettoken buf es ps
             in andthen (parseline n buf es ps) (\<lambda>right ps. Ok (listcmd cmd right) ps)
        else Ok cmd ps)"
  have c: "ends r es (cont cmd r)" if r: "ps \<le> r" "r \<le> es" for cmd r
  proof -
    obtain b p where p: "peek buf es '';'' r = (b, p)" by force
    note pp = peek_progress [OF assms(1) r(2) p]
    obtain tok q eq p1 where t1: "gettoken buf es p = (tok, q, eq, p1)" by (metis prod_cases4)
    have "b \<Longrightarrow> ends r es (andthen (parseline n buf es p1) (\<lambda>right ps. Ok (listcmd cmd right) ps))"
      using Suc.prems r pp peek_then_token [OF assms(1) r(2) p _ t1]
      by (intro ends_mono [OF ends_andthen [OF Suc.IH [of p1]]]) auto
    then show ?thesis using p t1 pp by (simp add: cont_def)
  qed
  have "ends ps es (parsepipe (parseline n buf es) n buf es ps)"
    using Suc.prems assms by (intro parsepipe_ends Suc.IH) auto
  then have "ends ps es (andthen (parsepipe (parseline n buf es) n buf es ps)
      (\<lambda>cmd ps. andthen (parsebacks n buf es cmd ps) cont))"
    using Suc.prems c by (intro ends_andthen parsebacks_ends [OF assms]) auto
  then show ?case by (simp add: cont_def)
qed simp

text \<open>
  C31: The shell's parser ends on every command line, with a command and the whole line read or with a reported error: the
  mutually recursive descent and its loops always consume input, so the recursion depth allowed in \<open>parsecmd\<close> is never
  exhausted.
\<close>

theorem parsecmd_returns: "(\<exists>r. parsecmd buf = Ok r (length (takeWhile ((\<noteq>) NUL) buf))) \<or> (\<exists>m. parsecmd buf = Panic m)"
proof -
  define es where "es = length (takeWhile ((\<noteq>) NUL) buf)"
  have e: "line_end buf es" by (simp add: line_end_def es_def)
  then have "ends 0 es (parseline (es + 4) buf es 0)" by (intro parseline_ends) auto
  then show ?thesis
    unfolding parsecmd_def es_def [symmetric] Let_def by (auto simp: ends_def split: prod.splits)
qed

end
