(* ===== verification/Shellsyntax.thy ===== *)
theory Shellsyntax
  imports Shell "HOL-Library.Sublist"
begin

text \<open>
  What the shell's parser accepts: a printer for commands, with parentheses where the grammar needs them, and the
  proof that the parser inverts it, including the termination of the words inside the buffer.
\<close>

section \<open>Printing commands\<close>

definition word_char :: "char \<Rightarrow> bool" where
  "word_char c \<longleftrightarrow> c \<noteq> NUL \<and> \<not> is_ws c \<and> \<not> is_sym c"

definition word :: "string \<Rightarrow> bool" where
  "word w \<longleftrightarrow> w \<noteq> [] \<and> (\<forall>c \<in> set w. word_char c)"

primrec wf_cmd :: "string cmd \<Rightarrow> bool" where
  "wf_cmd (EXEC as) \<longleftrightarrow> length as < MAXARGS \<and> (\<forall>w \<in> set as. word w)"
| "wf_cmd (REDIR c f mode fd) \<longleftrightarrow> wf_cmd c \<and> word f \<and> (mode = O_RDONLY \<and> fd = 0 \<or> mode = O_WRONLY_CREATE \<and> fd = 1)"
| "wf_cmd (PIPE c d) \<longleftrightarrow> wf_cmd c \<and> wf_cmd d"
| "wf_cmd (LIST c d) \<longleftrightarrow> wf_cmd c \<and> wf_cmd d"
| "wf_cmd (BACK c) \<longleftrightarrow> wf_cmd c"

definition redir_text :: "string \<times> nat \<times> nat \<Rightarrow> string" where
  "redir_text r = (case r of (f, mode, fd) \<Rightarrow> (if fd = 0 then CHR ''<'' else CHR ''>'') # f)"

text \<open>The number is the level of the grammar: 0 for lists, 1 for background commands, 2 for pipelines, 3 for single commands.\<close>

definition paren :: "bool \<Rightarrow> string \<Rightarrow> string" where
  "paren b s = (if b then ''('' @ s @ '')'' else s)"

definition words_text :: "string list \<Rightarrow> string" where
  "words_text as = concat (map (\<lambda>w. CHR '' '' # w) as)"

primrec print_cmd :: "string cmd \<Rightarrow> nat \<Rightarrow> string" where
  "print_cmd (EXEC as) l = words_text as"
| "print_cmd (REDIR c f mode fd) l = print_cmd c 3 @ redir_text (f, mode, fd)"
| "print_cmd (PIPE c d) l = paren (2 < l) (print_cmd c 3 @ ''|'' @ print_cmd d 2)"
| "print_cmd (LIST c d) l = paren (0 < l) (print_cmd c 1 @ '';'' @ print_cmd d 0)"
| "print_cmd (BACK c) l = paren (1 < l) (print_cmd c 1 @ ''&'')"

section \<open>Reading the buffer\<close>

definition trim :: "string \<Rightarrow> string" where
  "trim s = dropWhile is_ws s"

definition sees :: "string \<Rightarrow> nat \<Rightarrow> string \<Rightarrow> bool" where
  "sees buf ps s \<longleftrightarrow> ps \<le> length buf \<and> trim (drop ps buf) = trim s"

definition endpos :: "string \<Rightarrow> string \<Rightarrow> nat" where
  "endpos buf s = length buf - length (trim s)"

text \<open>The word \<open>w\<close> stands between the positions, and no character of a word follows it.\<close>

definition span :: "string \<Rightarrow> string \<Rightarrow> nat \<times> nat \<Rightarrow> bool" where
  "span buf w p \<longleftrightarrow> word w \<and> snd p = fst p + length w \<and> snd p \<le> length buf \<and> take (length w) (drop (fst p) buf) = w \<and>
     \<not> word_char (char_at buf (snd p))"

lemma trim_trim [simp]: "trim (trim s) = trim s"
  by (simp add: trim_def)

lemma trim_suffix: "suffix (trim s) s"
  by (simp add: trim_def suffix_dropWhile)

lemma drop_suffix: "suffix r buf \<Longrightarrow> drop (length buf - length r) buf = r"
  by (auto simp: suffix_def)

lemma sees_suffix: "sees buf ps s \<Longrightarrow> suffix (trim s) buf"
  using suffix_order.trans [OF trim_suffix [of "drop ps buf"], of buf] by (auto simp: sees_def suffix_drop)

lemma suffix_sees: "suffix r buf \<Longrightarrow> sees buf (endpos buf r) r"
  using drop_suffix [of "trim r" buf] trim_suffix [of r] suffix_order.trans [of "trim r" r buf] by (simp add: sees_def endpos_def)

lemma sees_end: "sees buf ps s \<Longrightarrow> sees buf (endpos buf s) s"
  using suffix_sees [OF sees_suffix] by (simp add: endpos_def sees_def)

lemma sees_after: "sees buf ps s \<Longrightarrow> trim s = u @ r \<Longrightarrow> sees buf (endpos buf r) r"
  using sees_suffix [of buf ps s] suffix_sees [of r buf] by (auto simp: suffix_def)

lemma skip_while_drop:
  "ps \<le> length buf \<Longrightarrow> skip_while P buf (length buf) ps = length buf - length (dropWhile P (drop ps buf))"
proof (induction P buf "length buf" ps rule: skip_while.induct)
  case (1 P buf s)
  show ?case
  proof (cases "s < length buf \<and> P (char_at buf s)")
    case True
    then have "drop s buf = char_at buf s # drop (Suc s) buf" by (simp add: char_at_def Cons_nth_drop_Suc)
    then show ?thesis using True 1 by (subst skip_while.simps) simp
  next
    case False
    then have "dropWhile P (drop s buf) = drop s buf"
      using 1(2) by (cases "s < length buf") (auto simp: char_at_def Cons_nth_drop_Suc [symmetric])
    then show ?thesis using False 1(2) by (subst skip_while.simps) auto
  qed
qed

lemma char_at_end:
  assumes "suffix r buf"
  shows "char_at buf (length buf - length r) = (if r = [] then NUL else hd r)"
  using assms by (cases r) (auto simp: char_at_def suffix_def nth_append)

lemma skip_ws_sees: "sees buf ps s \<Longrightarrow> skip_while is_ws buf (length buf) ps = endpos buf s"
  by (simp add: sees_def skip_while_drop endpos_def trim_def)

lemma char_at_sees: "sees buf ps s \<Longrightarrow> char_at buf (endpos buf s) = (if trim s = [] then NUL else hd (trim s))"
  using char_at_end [OF sees_suffix] by (simp add: endpos_def)

lemma trim_ok:
  assumes "sees buf ps s" "NUL \<notin> set buf" "trim s \<noteq> []"
  shows "hd (trim s) \<noteq> NUL \<and> \<not> is_ws (hd (trim s))"
proof -
  have "set (trim s) \<subseteq> set buf" using sees_suffix [OF assms(1)] by (auto simp: suffix_def)
  then have "hd (trim s) \<noteq> NUL" using assms(2) hd_in_set [OF assms(3)] by auto
  then show ?thesis using assms(3) hd_dropWhile [of is_ws s] unfolding trim_def by blast
qed

lemma peek_sees:
  assumes "sees buf ps s" "NUL \<notin> set buf" "NUL \<notin> set toks"
  shows "peek buf (length buf) toks ps = (trim s \<noteq> [] \<and> hd (trim s) \<in> set toks, endpos buf s)"
  using trim_ok [OF assms(1,2)] strchr_iff [OF assms(3)]
  by (simp add: peek_def skip_ws_sees [OF assms(1)] char_at_sees [OF assms(1)])

text \<open>A symbol is one token; \<open>>\<close> is, if not doubled; a word ends before the next blank, symbol or the end.\<close>

lemma gettoken_symbol:
  assumes "sees buf ps s" "NUL \<notin> set buf" "trim s = c # r" "c \<in> set ''|();&<''  \<or> c = CHR ''>'' \<and> (r = [] \<or> hd r \<noteq> CHR ''>'')"
  shows "\<exists>q eq. gettoken buf (length buf) ps = (c, q, eq, endpos buf r)"
proof -
  have suf: "suffix (c # r) buf" using sees_suffix [OF assms(1)] assms(3) by simp
  have e: "Suc (endpos buf s) = length buf - length r" "length buf - length r \<le> length buf"
    using suf assms(3) by (auto simp: endpos_def suffix_def)
  have r: "suffix r buf" using suf by (auto simp: suffix_def)
  have c: "char_at buf (endpos buf s) = c" using char_at_sees [OF assms(1)] assms(3) by simp
  have n: "c \<noteq> NUL" using assms(4) by auto
  have d: "char_at buf (length buf - length r) = (if r = [] then NUL else hd r)" using char_at_end [OF r] .
  have k: "skip_while is_ws buf (length buf) (length buf - length r) = endpos buf r"
    using drop_suffix [OF r] by (intro skip_ws_sees) (simp add: sees_def)
  have "gettoken buf (length buf) ps = (c, endpos buf s, Suc (endpos buf s), endpos buf r)"
    using assms(4) n c d unfolding gettoken_def Let_def skip_ws_sees [OF assms(1)] e by (auto simp: k)
  then show ?thesis by blast
qed

lemma gettoken_word:
  assumes "sees buf ps s" "NUL \<notin> set buf" "trim s = w @ r" "word w" "r = [] \<or> \<not> word_char (hd r)"
  shows "\<exists>q eq. gettoken buf (length buf) ps = (CHR ''a'', q, eq, endpos buf r) \<and> span buf w (q, eq)"
proof -
  have suf: "suffix (w @ r) buf" using sees_suffix [OF assms(1)] assms(3) by simp
  then obtain z where z: "buf = z @ w @ r" by (auto simp: suffix_def)
  have q: "endpos buf s = length z" "drop (length z) buf = w @ r" using assms(3) z by (simp_all add: endpos_def)
  have w: "w \<noteq> []" "\<And>c. c \<in> set w \<Longrightarrow> word_char c" using assms(4) by (auto simp: word_def)
  have c: "char_at buf (length z) = hd w" "word_char (hd w)"
    using char_at_sees [OF assms(1)] assms(3) w q(1) by simp_all
  have n: "NUL \<notin> set r" using assms(2) z by simp
  have d: "dropWhile (\<lambda>c. \<not> is_ws c \<and> \<not> is_sym c) (w @ r) = r"
    using w(2) assms(5) n by (cases r) (auto simp: dropWhile_append3 word_char_def)
  have k1: "skip_while (\<lambda>c. \<not> is_ws c \<and> \<not> is_sym c) buf (length buf) (length z) = length z + length w"
    using z q(2) d by (subst skip_while_drop) simp_all
  have k2: "skip_while is_ws buf (length buf) (length z + length w) = endpos buf r"
    using z by (intro skip_ws_sees) (simp add: sees_def)
  have "char_at buf (length z + length w) = (if r = [] then NUL else hd r)" using char_at_end [of r buf] z by (simp add: suffix_def)
  then have "\<not> word_char (char_at buf (length z + length w))" using assms(5) by (auto simp: word_char_def)
  then have "span buf w (length z, length z + length w)" using z assms(4) by (simp add: span_def)
  moreover have "gettoken buf (length buf) ps = (CHR ''a'', length z, length z + length w, endpos buf r)"
    using c(2) unfolding gettoken_def Let_def skip_ws_sees [OF assms(1)] q(1) c(1) k1
    by (auto simp: k2 word_char_def is_sym_iff)
  ultimately show ?thesis by blast
qed

lemma gettoken_end:
  assumes "sees buf ps s" "NUL \<notin> set buf" "trim s = []"
  shows "\<exists>q eq. gettoken buf (length buf) ps = (NUL, q, eq, length buf)"
  using assms char_at_sees [OF assms(1)] unfolding gettoken_def Let_def skip_ws_sees [OF assms(1)]
  by (simp add: endpos_def skip_while.simps)

section \<open>Redirections and arguments\<close>

abbreviation denoted :: "string \<Rightarrow> string cmd \<Rightarrow> pcmd \<Rightarrow> bool" where
  "denoted buf \<equiv> rel_cmd (span buf)"

definition wrap :: "(string \<times> nat \<times> nat) list \<Rightarrow> string cmd \<Rightarrow> string cmd" where
  "wrap rs t = foldl (\<lambda>t (f, mode, fd). REDIR t f mode fd) t rs"

definition redir_ok :: "string \<times> nat \<times> nat \<Rightarrow> bool" where
  "redir_ok r = (case r of (f, mode, fd) \<Rightarrow> word f \<and> (mode = O_RDONLY \<and> fd = 0 \<or> mode = O_WRONLY_CREATE \<and> fd = 1))"

definition redirs_text :: "(string \<times> nat \<times> nat) list \<Rightarrow> string" where
  "redirs_text rs = concat (map redir_text rs)"

definition follow :: "string \<Rightarrow> bool" where
  "follow s \<longleftrightarrow> s = [] \<or> hd s \<in> set ''|&;)''"

lemma not_word_chars: "\<not> word_char NUL" "is_ws c \<Longrightarrow> \<not> word_char c" "c \<in> set ''<|>&;()'' \<Longrightarrow> \<not> word_char c"
  by (auto simp: word_char_def is_sym_iff)

lemma sym_not_ws: "c \<in> set ''<|>&;()'' \<Longrightarrow> \<not> is_ws c"
  by (auto simp: is_ws_iff)

lemma trim_symbol: "c \<in> set ''<|>&;()'' \<Longrightarrow> trim (c # s) = c # s"
  using sym_not_ws [of c] by (simp add: trim_def)

lemma trim_word: "word w \<Longrightarrow> trim (w @ s) = w @ s"
  by (cases w) (auto simp: trim_def word_def word_char_def)

lemma follow_trim: "follow s \<Longrightarrow> trim s = s"
  by (cases s) (auto simp: follow_def trim_def is_ws_iff)

lemma redirs_follow:
  assumes "follow s"
  shows "trim (redirs_text rs @ s) = redirs_text rs @ s" "redirs_text rs @ s = [] \<or> \<not> word_char (hd (redirs_text rs @ s))"
proof -
  have "hd (redirs_text rs @ s) \<in> set ''<|>&;()'' \<or> redirs_text rs @ s = []"
    using assms by (cases rs) (auto simp: redirs_text_def redir_text_def follow_def split: prod.splits)
  then show "trim (redirs_text rs @ s) = redirs_text rs @ s" "redirs_text rs @ s = [] \<or> \<not> word_char (hd (redirs_text rs @ s))"
    using not_word_chars(3) [of "hd (redirs_text rs @ s)"] trim_symbol [of "hd (redirs_text rs @ s)" "tl (redirs_text rs @ s)"]
    by (cases "redirs_text rs @ s"; auto simp: trim_def)+
qed

lemma parseredirs_none:
  assumes "NUL \<notin> set buf" "sees buf ps s" "trim s = [] \<or> hd (trim s) \<notin> set ''<>''" "0 < n"
  shows "parseredirs n buf (length buf) cmd ps = Ok cmd (endpos buf s)"
  using assms(3,4) peek_sees [OF assms(2,1), of "''<>''"] by (cases n) auto

lemma parseredirs_chain:
  assumes "NUL \<notin> set buf" "follow s"
  shows "sees buf ps (redirs_text rs @ s) \<Longrightarrow> \<forall>r \<in> set rs. redir_ok r \<Longrightarrow> length (redirs_text rs @ s) < n \<Longrightarrow>
    \<exists>c. parseredirs n buf (length buf) cmd ps = Ok c (endpos buf s) \<and> (\<forall>t. denoted buf t cmd \<longrightarrow> denoted buf (wrap rs t) c)"
proof (induction rs arbitrary: ps cmd n)
  case Nil
  then show ?case
    using assms parseredirs_none [OF assms(1), of ps s n cmd] follow_trim [OF assms(2)]
    by (auto simp: redirs_text_def wrap_def follow_def)
next
  case (Cons r rs)
  obtain f mode fd where r: "r = (f, mode, fd)" by (cases r)
  have ok: "word f" "mode = O_RDONLY \<and> fd = 0 \<or> mode = O_WRONLY_CREATE \<and> fd = 1"
    using Cons.prems(2) by (auto simp: r redir_ok_def)
  obtain m where n: "n = Suc m" using Cons.prems(3) by (cases n) auto
  define c where "c = (if fd = 0 then CHR ''<'' else CHR ''>'')"
  define u where "u = redirs_text rs @ s"
  have x: "redirs_text (r # rs) @ s = c # f @ u" by (simp add: redirs_text_def redir_text_def r c_def u_def)
  have c: "c \<in> set ''<>''" by (simp add: c_def)
  then have tr: "trim (c # f @ u) = c # f @ u" by (intro trim_symbol) auto
  have s1: "sees buf ps (c # f @ u)" using Cons.prems(1) x by simp
  note s2 = sees_end [OF s1]
  have "hd (f @ u) \<noteq> CHR ''>''" using ok(1) by (cases f) (auto simp: word_def word_char_def is_sym_iff)
  then obtain q eq where t1: "gettoken buf (length buf) (endpos buf (c # f @ u)) = (c, q, eq, endpos buf (f @ u))"
    using gettoken_symbol [OF s2 assms(1) tr] c by auto
  have s3: "sees buf (endpos buf (f @ u)) (f @ u)" using sees_after [OF s1, of "[c]"] tr by simp
  note follow = redirs_follow [OF assms(2), of rs]
  obtain q' eq' where t2: "gettoken buf (length buf) (endpos buf (f @ u)) = (CHR ''a'', q', eq', endpos buf u)"
    and sp: "span buf f (q', eq')"
    using gettoken_word [OF s3 assms(1) trim_word [OF ok(1)] ok(1)] follow(2) by (auto simp: u_def)
  have s4: "sees buf (endpos buf u) u" using sees_after [OF s3 trim_word [OF ok(1)]] by simp
  have e: "parseredirs n buf (length buf) cmd ps = parseredirs m buf (length buf) (REDIR cmd (q', eq') mode fd) (endpos buf u)"
  proof -
    have "peek buf (length buf) ''<>'' ps = (True, endpos buf (c # f @ u))"
      using peek_sees [OF s1 assms(1), of "''<>''"] c tr by auto
    moreover have "c = CHR ''<'' \<and> mode = O_RDONLY \<and> fd = 0 \<or> c = CHR ''>'' \<and> mode = O_WRONLY_CREATE \<and> fd = 1"
      using ok(2) by (auto simp: c_def)
    ultimately show ?thesis by (auto simp: n t1 t2 redircmd_def)
  qed
  have "length (redirs_text rs @ s) < m" using Cons.prems(3) x n by (simp add: u_def)
  then obtain c' where "parseredirs m buf (length buf) (REDIR cmd (q', eq') mode fd) (endpos buf u) = Ok c' (endpos buf s)"
    and d: "\<And>t. denoted buf t (REDIR cmd (q', eq') mode fd) \<Longrightarrow> denoted buf (wrap rs t) c'"
    using Cons.IH [of "endpos buf u" m "REDIR cmd (q', eq') mode fd"] s4 Cons.prems(2) by (auto simp: u_def)
  moreover have "denoted buf (wrap (r # rs) t) c'" if "denoted buf t cmd" for t
    using d [of "REDIR t f mode fd"] that sp by (simp add: wrap_def r)
  ultimately show ?case using e by auto
qed

lemma length_trim: "length (trim s) \<le> length s"
  by (simp add: trim_def length_dropWhile_le)

lemma parseargs_done:
  assumes "NUL \<notin> set buf" "follow s" "sees buf ps s" "0 < n"
  shows "parseargs n buf (length buf) argc ret ps = Ok ret (endpos buf s)"
proof -
  obtain m where n: "n = Suc m" using assms(4) by (cases n) auto
  note p = peek_sees [OF assms(3,1), of "''|)&;''"] follow_trim [OF assms(2)]
  show ?thesis
  proof (cases "s = []")
    case True
    then have "sees buf (length buf) s" using sees_end [OF assms(3)] by (simp add: endpos_def trim_def)
    from gettoken_end [OF this assms(1)] show ?thesis using p True by (auto simp: n endpos_def trim_def)
  next
    case False
    then show ?thesis using p assms(2) by (auto simp: n follow_def)
  qed
qed

lemma word_hd: "word w \<Longrightarrow> word_char (hd (w @ s)) \<and> w @ s \<noteq> []"
  by (cases w) (auto simp: word_def)

lemma parseargs_words:
  assumes "NUL \<notin> set buf" "follow s" "\<forall>r \<in> set rs. redir_ok r"
  shows "ws \<noteq> [] \<Longrightarrow> sees buf ps (words_text ws @ redirs_text rs @ s) \<Longrightarrow> \<forall>w \<in> set ws. word w \<Longrightarrow> argc + length ws < MAXARGS \<Longrightarrow>
    length (trim (words_text ws @ redirs_text rs @ s)) < n \<Longrightarrow> list_all2 (span buf) as xs \<Longrightarrow>
    \<exists>c. parseargs n buf (length buf) argc (EXEC xs) ps = Ok c (endpos buf s) \<and> denoted buf (wrap rs (EXEC (as @ ws))) c"
proof (induction ws arbitrary: ps argc n as xs)
  case (Cons w ws)
  define u where "u = words_text ws @ redirs_text rs @ s"
  obtain m where n: "n = Suc m" using Cons.prems(5) by (cases n) auto
  have w: "word w" "\<forall>w \<in> set ws. word w" using Cons.prems(3) by auto
  have x: "words_text (w # ws) @ redirs_text rs @ s = CHR '' '' # w @ u" by (simp add: words_text_def u_def)
  have tr: "trim (CHR '' '' # w @ u) = w @ u" using trim_word [OF w(1), of u] by (simp add: trim_def is_ws_iff)
  have s1: "sees buf ps (CHR '' '' # w @ u)" using Cons.prems(2) x by simp
  note s2 = sees_end [OF s1]
  have cut: "u = [] \<or> \<not> word_char (hd u)"
    using redirs_follow(2) [OF assms(2), of rs] by (cases ws) (auto simp: u_def words_text_def word_char_def is_ws_iff)
  obtain q eq where t: "gettoken buf (length buf) (endpos buf (CHR '' '' # w @ u)) = (CHR ''a'', q, eq, endpos buf u)"
    and sp: "span buf w (q, eq)"
    using gettoken_word [OF s2 assms(1) tr w(1) cut] by blast
  have s3: "sees buf (endpos buf u) u" using sees_after [OF s1 tr] .
  have pk: "peek buf (length buf) ''|)&;'' ps = (False, endpos buf (CHR '' '' # w @ u))"
    using peek_sees [OF s1 assms(1), of "''|)&;''"] word_hd [OF w(1), of u] tr by (auto simp: word_char_def is_sym_iff)
  have e: "parseargs n buf (length buf) argc (EXEC xs) ps =
      andthen (parseredirs m buf (length buf) (EXEC (xs @ [(q, eq)])) (endpos buf u))
        (\<lambda>ret ps. parseargs m buf (length buf) (Suc argc) ret ps)"
    using Cons.prems(4) by (simp add: n pk t)
  have "w \<noteq> []" using w(1) by (simp add: word_def)
  then have m: "length u < m" "0 < m" using Cons.prems(5) unfolding x tr n by (cases w; simp)+
  have d: "list_all2 (span buf) (as @ [w]) (xs @ [(q, eq)])" using Cons.prems(6) sp by (simp add: list_all2_appendI)
  show ?case
  proof (cases "ws = []")
    case True
    then have u: "u = redirs_text rs @ s" by (simp add: u_def words_text_def)
    obtain c where c: "parseredirs m buf (length buf) (EXEC (xs @ [(q, eq)])) (endpos buf u) = Ok c (endpos buf s)"
      "denoted buf (wrap rs (EXEC (as @ [w]))) c"
      using parseredirs_chain [OF assms(1,2), of "endpos buf u" rs m "EXEC (xs @ [(q, eq)])"] s3 assms(3) m d unfolding u by auto
    have "sees buf (endpos buf s) s" using sees_after [OF s3] redirs_follow(1) [OF assms(2)] u by simp
    then show ?thesis using e c parseargs_done [OF assms(1,2) _ m(2)] True by simp
  next
    case False
    then have "hd (trim u) \<notin> set ''<>''"
      using trim_word w(2) word_hd by (cases ws) (auto simp: u_def words_text_def trim_def is_ws_iff word_char_def is_sym_iff)
    then have "parseredirs m buf (length buf) (EXEC (xs @ [(q, eq)])) (endpos buf u) = Ok (EXEC (xs @ [(q, eq)])) (endpos buf u)"
      using parseredirs_none [OF assms(1) s3 _ m(2)] by blast
    moreover have "length (trim u) < m" using length_trim [of u] m by simp
    ultimately show ?thesis
      using e Cons.IH [OF False _ w(2), of "endpos buf u" "Suc argc" m "as @ [w]" "xs @ [(q, eq)]"] s3 d Cons.prems(4)
      by (simp add: u_def)
  qed
qed simp

section \<open>Commands\<close>

primrec unwrap :: "string cmd \<Rightarrow> string cmd \<times> (string \<times> nat \<times> nat) list" where
  "unwrap (EXEC as) = (EXEC as, [])"
| "unwrap (REDIR c f mode fd) = (fst (unwrap c), snd (unwrap c) @ [(f, mode, fd)])"
| "unwrap (PIPE c d) = (PIPE c d, [])"
| "unwrap (LIST c d) = (LIST c d, [])"
| "unwrap (BACK c) = (BACK c, [])"

lemma unwrap_props:
  "t = wrap (snd (unwrap t)) (fst (unwrap t))"
  "wf_cmd t \<Longrightarrow> wf_cmd (fst (unwrap t)) \<and> (\<forall>r \<in> set (snd (unwrap t)). redir_ok r)"
  "print_cmd t 3 = print_cmd (fst (unwrap t)) 3 @ redirs_text (snd (unwrap t))"
  "(\<exists>as. fst (unwrap t) = EXEC as) \<or> print_cmd (fst (unwrap t)) 3 = ''('' @ print_cmd (fst (unwrap t)) 0 @ '')''"
  by (induction t) (auto simp: wrap_def redir_ok_def redirs_text_def paren_def)

definition reads_line :: "string \<Rightarrow> (nat \<Rightarrow> (pcmd, nat) out) \<Rightarrow> nat \<Rightarrow> bool" where
  "reads_line buf line k \<longleftrightarrow> (\<forall>t ps s. wf_cmd t \<and> (s = [] \<or> hd s = CHR '')'') \<and> sees buf ps (print_cmd t 0 @ s) \<and>
     length (trim (print_cmd t 0 @ s)) < k \<longrightarrow> (\<exists>c. line ps = Ok c (endpos buf s) \<and> denoted buf t c))"

lemma parseblock_reads:
  assumes "NUL \<notin> set buf" "follow s" "wf_cmd t" "\<forall>r \<in> set rs. redir_ok r"
    and "sees buf ps (''('' @ print_cmd t 0 @ '')'' @ redirs_text rs @ s)"
    and "length (''('' @ print_cmd t 0 @ '')'' @ redirs_text rs @ s) \<le> min n k"
    and "reads_line buf line k"
  shows "\<exists>c. parseblock line n buf (length buf) ps = Ok c (endpos buf s) \<and> denoted buf (wrap rs t) c"
proof -
  define r where "r = redirs_text rs @ s"
  define v where "v = CHR '')'' # r"
  have s1: "sees buf ps (CHR ''('' # print_cmd t 0 @ v)" using assms(5) by (simp add: r_def v_def)
  have t1: "trim (CHR ''('' # x) = CHR ''('' # x" for x by (rule trim_symbol) simp
  obtain q eq where g1: "gettoken buf (length buf) (endpos buf (CHR ''('' # print_cmd t 0 @ v)) = (CHR ''('', q, eq, endpos buf (print_cmd t 0 @ v))"
    using gettoken_symbol [OF sees_end [OF s1] assms(1) t1] by auto
  have p1: "peek buf (length buf) ''('' ps = (True, endpos buf (CHR ''('' # print_cmd t 0 @ v))"
    using peek_sees [OF s1 assms(1), of "''(''"] t1 by simp
  have s2: "sees buf (endpos buf (print_cmd t 0 @ v)) (print_cmd t 0 @ v)" using sees_after [OF s1, of "''(''"] t1 by simp
  have "length (trim (print_cmd t 0 @ v)) < k"
    using length_trim [of "print_cmd t 0 @ v"] assms(6) by (simp add: v_def r_def)
  then obtain c where c: "line (endpos buf (print_cmd t 0 @ v)) = Ok c (endpos buf v)" "denoted buf t c"
    using assms(7) [unfolded reads_line_def, rule_format, of t v "endpos buf (print_cmd t 0 @ v)"] assms(3) s2
    by (auto simp: v_def)
  have t2: "trim v = v" unfolding v_def by (rule trim_symbol) simp
  have suf: "suffix v buf"
    using sees_suffix [OF s1] t1 by (auto simp: suffix_def)
  note s3 = suffix_sees [OF suf]
  obtain q' eq' where g2: "gettoken buf (length buf) (endpos buf v) = (CHR '')'', q', eq', endpos buf r)"
    using gettoken_symbol [OF s3 assms(1), of "CHR '')''" r] t2 by (auto simp: v_def)
  have p2: "peek buf (length buf) '')'' (endpos buf v) = (True, endpos buf v)"
    using peek_sees [OF s3 assms(1), of "'')''"] t2 by (simp add: v_def)
  have s4: "sees buf (endpos buf r) r" using sees_after [OF s3, of "'')''"] t2 by (simp add: v_def)
  have "length r < n" using assms(6) by (simp add: r_def)
  then obtain c' where "parseredirs n buf (length buf) c (endpos buf r) = Ok c' (endpos buf s)" "denoted buf (wrap rs t) c'"
    using parseredirs_chain [OF assms(1,2), of "endpos buf r" rs n c] s4 assms(4) c(2) by (auto simp: r_def)
  then show ?thesis using p1 g1 c(1) p2 g2 by (simp add: parseblock_def)
qed

lemma parseexec_reads:
  assumes "NUL \<notin> set buf" "follow s" "wf_cmd t" "sees buf ps (print_cmd t 3 @ s)" "length (trim (print_cmd t 3 @ s)) < n"
    and "reads_line buf line k" "length (trim (print_cmd t 3 @ s)) \<le> k"
  shows "\<exists>c. parseexec line n buf (length buf) ps = Ok c (endpos buf s) \<and> denoted buf t c"
proof -
  define b rs where "b = fst (unwrap t)" and "rs = snd (unwrap t)"
  have u: "t = wrap rs b" "wf_cmd b" "\<forall>r \<in> set rs. redir_ok r" "print_cmd t 3 = print_cmd b 3 @ redirs_text rs"
    "(\<exists>as. b = EXEC as) \<or> print_cmd b 3 = ''('' @ print_cmd b 0 @ '')''"
    using unwrap_props [of t] assms(3) by (auto simp: b_def rs_def)
  have pk: "peek buf (length buf) ''('' ps = (trim (print_cmd t 3 @ s) \<noteq> [] \<and> hd (trim (print_cmd t 3 @ s)) = CHR ''('', endpos buf (print_cmd t 3 @ s))"
    using peek_sees [OF assms(4,1), of "''(''"] by simp
  note s1 = sees_end [OF assms(4)]
  from u(5) show ?thesis
  proof
    assume p: "print_cmd b 3 = ''('' @ print_cmd b 0 @ '')''"
    then have tr: "trim (print_cmd t 3 @ s) = CHR ''('' # print_cmd b 0 @ '')'' @ redirs_text rs @ s"
      unfolding u(4) by (simp add: trim_symbol)
    have x: "print_cmd t 3 @ s = ''('' @ print_cmd b 0 @ '')'' @ redirs_text rs @ s" unfolding u(4) p by simp
    have "sees buf (endpos buf (print_cmd t 3 @ s)) (''('' @ print_cmd b 0 @ '')'' @ redirs_text rs @ s)" using s1 x by simp
    from parseblock_reads [OF assms(1,2) u(2,3) this _ assms(6)] show ?thesis
      using assms(5,7) pk unfolding tr u(1) [symmetric] by (simp add: parseexec_def)
  next
    assume "\<exists>as. b = EXEC as"
    then obtain as where b: "b = EXEC as" by blast
    then have x: "print_cmd t 3 @ s = words_text as @ redirs_text rs @ s" unfolding u(4) by simp
    have as: "length as < MAXARGS" "\<forall>w \<in> set as. word w" using u(2) b by auto
    show ?thesis
    proof (cases "as = []")
      case True
      then have y: "print_cmd t 3 @ s = redirs_text rs @ s" unfolding x by (simp add: words_text_def)
      have "\<not> fst (peek buf (length buf) ''('' ps)"
        using pk assms(2) redirs_follow(1) [OF assms(2), of rs] unfolding y
        by (cases rs) (auto simp: redirs_text_def redir_text_def follow_def split: prod.splits)
      moreover obtain c where c: "parseredirs n buf (length buf) execcmd (endpos buf (redirs_text rs @ s)) = Ok c (endpos buf s)"
        "denoted buf (wrap rs (EXEC [])) c"
        using parseredirs_chain [OF assms(1,2), of "endpos buf (redirs_text rs @ s)" rs n execcmd] s1 assms(5) u(3)
          redirs_follow(1) [OF assms(2), of rs] unfolding y by (auto simp: execcmd_def)
      moreover have "sees buf (endpos buf s) s"
        using sees_after [OF s1 [unfolded y]] redirs_follow(1) [OF assms(2)] by simp
      moreover have "wrap rs (EXEC []) = t" using u(1) b True by simp
      ultimately show ?thesis
        using pk parseargs_done [OF assms(1,2), of "endpos buf s" n 0 c] assms(5) unfolding y by (auto simp: parseexec_def)
    next
      case False
      then obtain w ws where ws: "as = w # ws" by (cases as) auto
      have w: "word w" using as(2) ws by simp
      have tr: "trim (print_cmd t 3 @ s) = w @ words_text ws @ redirs_text rs @ s"
        unfolding x ws using trim_word [OF w] by (simp add: words_text_def trim_def is_ws_iff)
      have hd: "word_char (hd (trim (print_cmd t 3 @ s)))" "trim (print_cmd t 3 @ s) \<noteq> []" using word_hd [OF w] tr by simp_all
      then have "hd (trim (print_cmd t 3 @ s)) \<notin> set ''<>(''" by (auto simp: word_char_def is_sym_iff)
      then have "parseredirs n buf (length buf) execcmd (endpos buf (print_cmd t 3 @ s)) = Ok execcmd (endpos buf (print_cmd t 3 @ s))"
        "\<not> fst (peek buf (length buf) ''('' ps)"
        using parseredirs_none [OF assms(1) s1, of n execcmd] assms(5) pk by auto
      moreover obtain c where "parseargs n buf (length buf) 0 (EXEC []) (endpos buf (print_cmd t 3 @ s)) = Ok c (endpos buf s)"
        "denoted buf (wrap rs (EXEC as)) c"
        using parseargs_words [OF assms(1,2) u(3) False, of "endpos buf (print_cmd t 3 @ s)" 0 n "[]" "[]"] s1 as assms(5)
        unfolding x by auto
      ultimately show ?thesis using pk u(1) b by (auto simp: parseexec_def execcmd_def)
    qed
  qed
qed

lemma trim_append: "trim s = s \<Longrightarrow> \<exists>y. trim (x @ s) = y @ s"
  by (induction x) (auto simp: trim_def intro: exI [of _ "[]"])

lemma sees_skip: "sees buf ps (x @ s) \<Longrightarrow> trim s = s \<Longrightarrow> sees buf (endpos buf s) s"
  using trim_append [of s x] sees_after by metis

lemma trim_skip: "trim s = s \<Longrightarrow> length s \<le> length (trim (x @ s))"
  using trim_append [of s x] by auto

lemma take_symbol:
  assumes "NUL \<notin> set buf" "sees buf ps (c # r)" "c \<in> set ''|();&<''"
  shows "peek buf (length buf) [c] ps = (True, endpos buf (c # r))"
    and "\<exists>q eq. gettoken buf (length buf) (endpos buf (c # r)) = (c, q, eq, endpos buf r)"
    and "sees buf (endpos buf r) r"
proof -
  have t: "trim (c # r) = c # r" using assms(3) by (intro trim_symbol) auto
  have n: "NUL \<notin> set [c]" using assms(3) by auto
  show "peek buf (length buf) [c] ps = (True, endpos buf (c # r))" using peek_sees [OF assms(2,1) n] t by simp
  show "\<exists>q eq. gettoken buf (length buf) (endpos buf (c # r)) = (c, q, eq, endpos buf r)"
    using gettoken_symbol [OF sees_end [OF assms(2)] assms(1) t] assms(3) by blast
  show "sees buf (endpos buf r) r" using sees_after [OF assms(2), of "[c]"] t by simp
qed

lemma no_symbol:
  assumes "NUL \<notin> set buf" "sees buf ps s" "trim s = s" "s = [] \<or> hd s \<noteq> c" "c \<noteq> NUL"
  shows "peek buf (length buf) [c] ps = (False, endpos buf s)"
  using peek_sees [OF assms(2,1), of "[c]"] assms(3-5) by auto

lemma parsepipe_single:
  assumes "NUL \<notin> set buf" "s = [] \<or> hd s \<in> set ''&;)''"
    and "wf_cmd t" "sees buf ps (print_cmd t 3 @ s)" "Suc (length (trim (print_cmd t 3 @ s))) < n"
    and "reads_line buf line k" "length (trim (print_cmd t 3 @ s)) \<le> k"
  shows "\<exists>c. parsepipe line n buf (length buf) ps = Ok c (endpos buf s) \<and> denoted buf t c"
proof -
  obtain m where n: "n = Suc m" using assms(5) by (cases n) auto
  have f: "follow s" using assms(2) by (auto simp: follow_def)
  obtain c where c: "parseexec line m buf (length buf) ps = Ok c (endpos buf s)" "denoted buf t c"
    using parseexec_reads [OF assms(1) f assms(3,4) _ assms(6,7), of m] assms(5) n by auto
  have "sees buf (endpos buf s) s" using sees_skip [OF assms(4)] follow_trim [OF f] by simp
  then have "peek buf (length buf) ''|'' (endpos buf s) = (False, endpos buf s)"
    using assms(2) follow_trim [OF f] by (intro no_symbol [OF assms(1)]) auto
  then show ?thesis using c by (simp add: n)
qed

lemma parsepipe_reads:
  assumes "NUL \<notin> set buf" "s = [] \<or> hd s \<in> set ''&;)''" "reads_line buf line k"
  shows "wf_cmd t \<Longrightarrow> sees buf ps (print_cmd t 2 @ s) \<Longrightarrow> Suc (length (trim (print_cmd t 2 @ s))) < n \<Longrightarrow> length (trim (print_cmd t 2 @ s)) \<le> k \<Longrightarrow>
    \<exists>c. parsepipe line n buf (length buf) ps = Ok c (endpos buf s) \<and> denoted buf t c"
proof (induction t arbitrary: ps n)
  case (PIPE a b)
  define r where "r = CHR ''|'' # print_cmd b 2 @ s"
  have x: "print_cmd (PIPE a b) 2 @ s = print_cmd a 3 @ r" by (simp add: paren_def r_def)
  obtain m where n: "n = Suc m" using PIPE.prems(3) by (cases n) auto
  have f: "follow r" by (simp add: follow_def r_def)
  have l: "length (trim (print_cmd a 3 @ r)) < m" using PIPE.prems(3) n x by simp
  obtain c where c: "parseexec line m buf (length buf) ps = Ok c (endpos buf r)" "denoted buf a c"
    using parseexec_reads [OF assms(1) f, of a ps m line k] assms(3) PIPE.prems l x n by auto
  note ft = follow_trim [OF f]
  have s1: "sees buf (endpos buf r) r" using sees_skip [of buf ps "print_cmd a 3" r] PIPE.prems(2) x ft by simp
  note tk = take_symbol [OF assms(1) s1 [unfolded r_def], folded r_def, simplified]
  obtain q eq where g: "gettoken buf (length buf) (endpos buf r) = (CHR ''|'', q, eq, endpos buf (print_cmd b 2 @ s))" using tk(2) by auto
  have "length r < m \<and> length r \<le> k" using l trim_skip [OF ft, of "print_cmd a 3"] PIPE.prems(4) x by simp
  then have "Suc (length (trim (print_cmd b 2 @ s))) < m" "length (trim (print_cmd b 2 @ s)) \<le> k"
    using length_trim [of "print_cmd b 2 @ s"] by (simp_all add: r_def)
  then obtain d where "parsepipe line m buf (length buf) (endpos buf (print_cmd b 2 @ s)) = Ok d (endpos buf s)" "denoted buf b d"
    using PIPE.IH(2) [OF _ tk(3), of m] PIPE.prems(1) by auto
  then show ?case using c g tk(1) by (auto simp: n pipecmd_def)
next
  case (EXEC as)
  then show ?case using parsepipe_single [OF assms(1,2) _ _ _ assms(3)] by simp
next
  case (REDIR t f mode fd)
  then show ?case using parsepipe_single [OF assms(1,2) _ _ _ assms(3), of "REDIR t f mode fd"] by simp
next
  case (LIST a b)
  then show ?case using parsepipe_single [OF assms(1,2) _ _ _ assms(3), of "LIST a b"] by (simp add: paren_def)
next
  case (BACK a)
  then show ?case using parsepipe_single [OF assms(1,2) _ _ _ assms(3), of "BACK a"] by (simp add: paren_def)
qed

primrec unback :: "string cmd \<Rightarrow> string cmd \<times> nat" where
  "unback (EXEC as) = (EXEC as, 0)"
| "unback (REDIR c f mode fd) = (REDIR c f mode fd, 0)"
| "unback (PIPE c d) = (PIPE c d, 0)"
| "unback (LIST c d) = (LIST c d, 0)"
| "unback (BACK c) = (fst (unback c), Suc (snd (unback c)))"

lemma unback_props:
  "t = (BACK ^^ snd (unback t)) (fst (unback t))" "wf_cmd t \<Longrightarrow> wf_cmd (fst (unback t))"
  "print_cmd t 1 = print_cmd (fst (unback t)) 2 @ replicate (snd (unback t)) (CHR ''&'')"
  by (induction t) (auto simp: paren_def replicate_append_same)

lemma parsebacks_reads:
  assumes "NUL \<notin> set buf" "s = [] \<or> hd s \<in> set '';)''"
  shows "sees buf ps (replicate k (CHR ''&'') @ s) \<Longrightarrow> length (replicate k (CHR ''&'') @ s) < n \<Longrightarrow>
    \<exists>c. parsebacks n buf (length buf) cmd ps = Ok c (endpos buf s) \<and> (\<forall>t. denoted buf t cmd \<longrightarrow> denoted buf ((BACK ^^ k) t) c)"
proof (induction k arbitrary: ps n cmd)
  case 0
  obtain m where n: "n = Suc m" using 0(2) by (cases n) auto
  have "follow s" using assms(2) by (auto simp: follow_def)
  then have "peek buf (length buf) ''&'' ps = (False, endpos buf s)"
    using 0(1) assms(2) by (intro no_symbol [OF assms(1)] follow_trim) auto
  then show ?case by (simp add: n)
next
  case (Suc k)
  obtain m where n: "n = Suc m" using Suc.prems(2) by (cases n) auto
  define r where "r = replicate k (CHR ''&'') @ s"
  have "sees buf ps (CHR ''&'' # r)" using Suc.prems(1) by (simp add: r_def)
  note tk = take_symbol [OF assms(1) this, simplified]
  have "length r < m" using Suc.prems(2) n by (simp add: r_def)
  then obtain c where "parsebacks m buf (length buf) (BACK cmd) (endpos buf r) = Ok c (endpos buf s)"
    "\<And>t. denoted buf t (BACK cmd) \<Longrightarrow> denoted buf ((BACK ^^ k) t) c"
    using Suc.IH [of "endpos buf r" m "BACK cmd"] tk(3) by (auto simp: r_def)
  then show ?case using tk(1,2) by (auto simp: n backcmd_def funpow_swap1)
qed

lemma parse_background:
  assumes "NUL \<notin> set buf" "s = [] \<or> hd s \<in> set '';)''" "wf_cmd t" "sees buf ps (print_cmd t 1 @ s)"
    and "Suc (length (trim (print_cmd t 1 @ s))) < n" "reads_line buf line k" "length (trim (print_cmd t 1 @ s)) \<le> k"
  shows "\<exists>b p c. parsepipe line n buf (length buf) ps = Ok b p \<and> parsebacks n buf (length buf) b p = Ok c (endpos buf s) \<and> denoted buf t c"
proof -
  define b j where "b = fst (unback t)" and "j = snd (unback t)"
  define r where "r = replicate j (CHR ''&'') @ s"
  have t: "t = (BACK ^^ j) b" and w: "wf_cmd b" and x: "print_cmd t 1 @ s = print_cmd b 2 @ r"
    using unback_props [of t] assms(3) by (simp_all add: b_def j_def r_def)
  have f: "r = [] \<or> hd r \<in> set ''&;)''" using assms(2) by (cases j) (auto simp: r_def)
  then have tr: "trim r = r" by (intro follow_trim) (auto simp: follow_def)
  obtain c where c: "parsepipe line n buf (length buf) ps = Ok c (endpos buf r)" "denoted buf b c"
    using parsepipe_reads [OF assms(1) f assms(6) w, of ps n] assms(4,5,7) unfolding x by auto
  have "sees buf (endpos buf r) r" using sees_skip [OF assms(4) [unfolded x] tr] .
  moreover have "length r < n" using trim_skip [OF tr, of "print_cmd b 2"] assms(5) unfolding x by simp
  ultimately obtain c' where "parsebacks n buf (length buf) c (endpos buf r) = Ok c' (endpos buf s)" "denoted buf ((BACK ^^ j) b) c'"
    using parsebacks_reads [OF assms(1,2), of "endpos buf r" j n c] c(2) by (auto simp: r_def)
  then show ?thesis using c t by auto
qed

lemma parseline_reads:
  assumes "NUL \<notin> set buf"
  shows "reads_line buf (parseline n buf (length buf)) (n - 2)"
proof (induction n)
  case (Suc n)
  show ?case
    unfolding reads_line_def
  proof (intro allI impI, elim conjE)
    fix t ps s
    assume w: "wf_cmd t" and s: "s = [] \<or> hd s = CHR '')''" and v: "sees buf ps (print_cmd t 0 @ s)"
      and l: "length (trim (print_cmd t 0 @ s)) < Suc n - 2"
    have ll: "Suc (length (trim (print_cmd t 0 @ s))) < n" "length (trim (print_cmd t 0 @ s)) \<le> n - 2" using l by linarith+
    show "\<exists>c. parseline (Suc n) buf (length buf) ps = Ok c (endpos buf s) \<and> denoted buf t c"
    proof (cases "\<exists>a b. t = LIST a b")
      case False
      then have x: "print_cmd t 0 = print_cmd t 1" by (cases t) (auto simp: paren_def)
      obtain b p c where bg: "parsepipe (parseline n buf (length buf)) n buf (length buf) ps = Ok b p"
        "parsebacks n buf (length buf) b p = Ok c (endpos buf s)" "denoted buf t c"
        using parse_background [OF assms _ w v [unfolded x] _ Suc.IH, of n] s ll unfolding x by auto
      have f: "trim s = s" using s by (intro follow_trim) (auto simp: follow_def)
      have "peek buf (length buf) '';'' (endpos buf s) = (False, endpos buf s)"
        using sees_skip [OF v f] s f by (intro no_symbol [OF assms]) auto
      then show ?thesis using bg by simp
    next
      case True
      then obtain a d where t: "t = LIST a d" by blast
      define r where "r = CHR '';'' # print_cmd d 0 @ s"
      have x: "print_cmd t 0 @ s = print_cmd a 1 @ r" by (simp add: t paren_def r_def)
      obtain b p c where bg: "parsepipe (parseline n buf (length buf)) n buf (length buf) ps = Ok b p"
        "parsebacks n buf (length buf) b p = Ok c (endpos buf r)" "denoted buf a c"
        using parse_background [OF assms _ _ v [unfolded x] _ Suc.IH, of n] w ll unfolding x by (auto simp: t r_def)
      have f: "trim r = r" unfolding r_def by (rule trim_symbol) simp
      have "sees buf (endpos buf r) r" using sees_skip [OF v [unfolded x] f] .
      note tk = take_symbol [OF assms this [unfolded r_def], folded r_def, simplified]
      obtain q eq where g: "gettoken buf (length buf) (endpos buf r) = (CHR '';'', q, eq, endpos buf (print_cmd d 0 @ s))" using tk(2) by auto
      have "length (trim (print_cmd d 0 @ s)) < n - 2"
        using length_trim [of "print_cmd d 0 @ s"] trim_skip [OF f, of "print_cmd a 1"] l unfolding x by (simp add: r_def)
      then obtain e where "parseline n buf (length buf) (endpos buf (print_cmd d 0 @ s)) = Ok e (endpos buf s)" "denoted buf d e"
        using Suc.IH [unfolded reads_line_def, rule_format, of d s "endpos buf (print_cmd d 0 @ s)"] tk(3) w s by (auto simp: t)
      then show ?thesis using bg g tk(1) by (auto simp: t listcmd_def)
    qed
  qed
qed (simp add: reads_line_def)

section \<open>The words in the buffer\<close>

definition cstring :: "string \<Rightarrow> nat \<times> nat \<Rightarrow> string" where
  "cstring buf p = takeWhile ((\<noteq>) NUL) (drop (fst p) buf)"

lemma length_cut [simp]:
  "length (foldl (\<lambda>buf (q, eq). buf[eq := NUL]) buf as) = length buf" "length (nulterminate c buf) = length buf"
proof -
  show l: "length (foldl (\<lambda>buf (q, eq). buf[eq := NUL]) buf as) = length buf" for buf :: string and as
    by (induction as arbitrary: buf) auto
  show "length (nulterminate c buf) = length buf" by (induction c arbitrary: buf) (auto simp: l)
qed

lemma foldl_cut:
  "i < length buf \<Longrightarrow> foldl (\<lambda>buf (q, eq). buf[eq := NUL]) buf as ! i = (if i \<in> snd ` set as then NUL else buf ! i)"
  by (induction as arbitrary: buf) (simp_all add: nth_list_update split: prod.splits)

lemma nulterminate_nth:
  "i < length buf \<Longrightarrow> nulterminate c buf ! i = (if i \<in> snd ` set_cmd c then NUL else buf ! i)"
proof (induction c arbitrary: buf)
  case (REDIR c f mode fd)
  then show ?case by (cases "i = snd f") (simp_all add: nth_list_update)
qed (simp_all add: foldl_cut image_Un)

lemma denoted_span: "denoted buf t c \<Longrightarrow> p \<in> set_cmd c \<Longrightarrow> \<exists>w. span buf w p"
  by (induction t c rule: cmd.rel_induct) (auto simp: list_all2_conv_all_nth in_set_conv_nth)

lemma cstring_span:
  assumes "denoted buf t c" "p \<in> set_cmd c" "span buf w p" "NUL \<notin> set buf"
  shows "cstring (nulterminate c buf) p = w"
proof -
  define b where "b = nulterminate c buf"
  have p: "word w" "snd p = fst p + length w" "snd p \<le> length buf" "take (length w) (drop (fst p) buf) = w"
    using assms(3) by (auto simp: span_def)
  have len: "length b = length buf" by (simp add: b_def)
  have "b ! (fst p + i) = w ! i" if "i < length w" for i
  proof -
    have "w ! i = take (length w) (drop (fst p) buf) ! i" using p(4) by simp
    then have i: "fst p + i < length buf" "buf ! (fst p + i) = w ! i" using that p(2,3) by simp_all
    then have "word_char (char_at buf (fst p + i))" using p(1) that by (simp add: char_at_def word_def)
    then have "fst p + i \<notin> snd ` set_cmd c"
      using denoted_span [OF assms(1)] unfolding span_def by fastforce
    then show ?thesis using i by (simp add: b_def nulterminate_nth)
  qed
  then have "take (length w) (drop (fst p) b) = w" using p len by (auto intro!: nth_equalityI)
  moreover have "drop (length w) (drop (fst p) b) = [] \<or> hd (drop (length w) (drop (fst p) b)) = NUL"
  proof (cases "snd p < length buf")
    case True
    then have "b ! snd p = NUL" using assms(2) by (auto simp: b_def nulterminate_nth)
    then show ?thesis using True p(2) len by (simp add: hd_drop_conv_nth add.commute)
  next
    case False
    then show ?thesis using p(2,3) len by simp
  qed
  ultimately obtain r where "drop (fst p) b = w @ r" "r = [] \<or> hd r = NUL" using append_take_drop_id [of "length w" "drop (fst p) b"] by metis
  moreover have "takeWhile ((\<noteq>) NUL) w = w" using p(1) by (auto simp: word_def word_char_def takeWhile_eq_all_conv)
  ultimately show ?thesis using p(1) unfolding cstring_def b_def [symmetric]
    by (cases r) (auto simp: takeWhile_append word_def word_char_def)
qed

lemma denoted_words:
  assumes "denoted buf t c" "NUL \<notin> set buf"
  shows "map_cmd (cstring (nulterminate c buf)) c = t"
proof -
  have "rel_cmd (\<lambda>w p. w = cstring (nulterminate c buf) p) t c"
    using assms(1) by (rule cmd.rel_mono_strong) (simp add: cstring_span [OF assms(1) _ _ assms(2)])
  then have "rel_cmd (=) t (map_cmd (cstring (nulterminate c buf)) c)" by (simp add: cmd.rel_map)
  then show ?thesis by (simp add: cmd.rel_eq)
qed

lemma print_no_NUL: "wf_cmd t \<Longrightarrow> NUL \<notin> set (print_cmd t l)"
  by (induction t arbitrary: l) (auto simp: words_text_def word_def word_char_def redir_text_def paren_def)

lemma parsecmd_reads:
  assumes "wf_cmd t"
  shows "\<exists>c buf. parsecmd (print_cmd t 0) = Ok (c, buf) (length (print_cmd t 0)) \<and> map_cmd (cstring buf) c = t"
proof -
  define buf where "buf = print_cmd t 0"
  have n: "NUL \<notin> set buf" using print_no_NUL [OF assms] by (simp add: buf_def)
  have es: "length (takeWhile ((\<noteq>) NUL) buf) = length buf" using n by (subst takeWhile_eq_all_conv [THEN iffD2]) auto
  have v: "sees buf 0 (print_cmd t 0 @ [])" by (simp add: sees_def buf_def)
  have "length (trim (print_cmd t 0 @ [])) < length buf + 4 - 2" using length_trim [of buf] by (simp add: buf_def)
  then obtain c where c: "parseline (length buf + 4) buf (length buf) 0 = Ok c (endpos buf [])" "denoted buf t c"
    using parseline_reads [OF n, of "length buf + 4", unfolded reads_line_def, rule_format, of t "[]" 0] assms v by auto
  have "endpos buf [] = length buf" by (simp add: endpos_def trim_def)
  moreover have "peek buf (length buf) [] (length buf) = (False, length buf)" by (simp add: peek_def skip_while.simps char_at_def)
  ultimately have "parsecmd buf = Ok (c, nulterminate c buf) (length buf)"
    using c(1) unfolding parsecmd_def es Let_def by simp
  then show ?thesis using denoted_words [OF c(2) n] by (auto simp: buf_def)
qed

text \<open>
  C13: The shell parses what it is given: for every command built of lists, background commands, pipelines, redirections
  and programs with at most nine arguments, the parser reads the printed form, with parentheses only where the precedence needs them,
  back as the same command, and after \<open>nulterminate\<close> every argument and file name of the result is the C string in the
  buffer that was printed, although terminating the words overwrites the separators between them.
\<close>

theorem parsecmd_print_cmd:
  assumes "wf_cmd t"
  shows "\<exists>c buf. parsecmd (print_cmd t 0) = Ok (c, buf) (length (print_cmd t 0)) \<and> map_cmd (cstring buf) c = t"
  using assms by (rule parsecmd_reads)

definition script_ex :: "string cmd" where
  "script_ex = LIST (BACK (PIPE (EXEC [''cat'', ''a'']) (REDIR (EXEC [''wc'']) ''out'' O_WRONLY_CREATE 1)))
     (REDIR (LIST (EXEC [''ls'']) (EXEC [''sh''])) ''in'' O_RDONLY 0)"

theorem parsecmd_print_cmd_witness:
  "print_cmd script_ex 0 = '' cat a| wc>out&;( ls; sh)<in'' \<and>
   (\<exists>c buf. parsecmd '' cat a| wc>out&;( ls; sh)<in'' = Ok (c, buf) 28 \<and> map_cmd (cstring buf) c = script_ex)"
proof -
  have p: "print_cmd script_ex 0 = '' cat a| wc>out&;( ls; sh)<in''" by code_simp
  have w: "wf_cmd script_ex" by code_simp
  have l: "length '' cat a| wc>out&;( ls; sh)<in'' = 28" by simp
  show ?thesis using parsecmd_print_cmd [OF w] unfolding p l by blast
qed

end
